(* ===== verification/Yaos_Prelude.thy ===== *)
theory Yaos_Prelude
  imports Main "HOL-Library.Word"
begin

text \<open>
  Shared vocabulary of the development: the machine integer types of the kernel, the result type
  of kernel code (a value, a fault that stops the machine, or a computation that never returns),
  chains of nodes linked by a next pointer, and the word and list lemmas that several components
  use.
\<close>

unbundle bit_operations_syntax

named_theorems align_simps \<open>alignment of 64-bit words expressed on natural numbers\<close>

section \<open>Machine integers\<close>

type_synonym u8 = "8 word"
type_synonym u16 = "16 word"
type_synonym u32 = "32 word"
type_synonym u64 = "64 word"

section \<open>Results of kernel code\<close>

text \<open>
  The ways a kernel routine stops other than by returning:
  \<^item> \<open>Panic\<close>: it called \<^verbatim>\<open>panic\<close>, which prints and halts the processor (kernel/printk.c);
  \<^item> \<open>Assertion\<close>: an \<^verbatim>\<open>ASSERT\<close> failed, which prints and enters the endless loop of
    \<^verbatim>\<open>BUG\<close> (include/yaos/assert.h; the build passes -DDEBUG);
  \<^item> \<open>Wild\<close>: it read or wrote outside the object it was given, so C gives it no meaning.
\<close>

datatype fault = Panic string | Assertion string | Wild string

text \<open>
  \<open>None\<close> is a computation that never returns (a loop that does not end, a spin lock that nobody
  releases), \<open>Some (Inl f)\<close> one that stops with the fault \<open>f\<close>, \<open>Some (Inr x)\<close> one that returns \<open>x\<close>.
\<close>

type_synonym 'a kres = "(fault + 'a) option"

abbreviation ret :: "'a \<Rightarrow> 'a kres" where
  "ret x \<equiv> Some (Inr x)"

abbreviation halt :: "fault \<Rightarrow> 'a kres" where
  "halt f \<equiv> Some (Inl f)"

definition kbind :: "'a kres \<Rightarrow> ('a \<Rightarrow> 'b kres) \<Rightarrow> 'b kres" where
  "kbind m f = Option.bind m (\<lambda>r. case r of Inl e \<Rightarrow> halt e | Inr x \<Rightarrow> f x)"

definition kassert :: "bool \<Rightarrow> string \<Rightarrow> unit kres" where
  "kassert b msg = (if b then ret () else halt (Assertion msg))"

lemma kbind_simps [simp]:
  "kbind None f = None"
  "kbind (halt e) f = halt e"
  "kbind (ret x) f = f x"
  by (simp_all add: kbind_def)

lemma kbind_ret_right [simp]: "kbind m ret = m"
  by (cases m) (auto simp: kbind_def split: sum.splits)

lemma kbind_assoc: "kbind (kbind m f) g = kbind m (\<lambda>x. kbind (f x) g)"
  by (cases m) (auto simp: kbind_def split: sum.splits)

lemma kres_cases [case_names hangs fault val]:
  obtains "(m :: 'a kres) = None" | f where "m = halt f" | x where "m = ret x"
proof (cases m)
  case (Some r)
  then show ?thesis using that by (cases r) auto
qed (use that in blast)

lemma kbind_eq_ret: "kbind m f = ret y \<longleftrightarrow> (\<exists>x. m = ret x \<and> f x = ret y)"
  by (cases m) (auto simp: kbind_def split: sum.splits)

lemma kbind_cong [fundef_cong]:
  "m = m' \<Longrightarrow> (\<And>x. m' = ret x \<Longrightarrow> f x = g x) \<Longrightarrow> kbind m f = kbind m' g"
  by (cases m) (auto simp: kbind_def split: sum.splits)

lemma kassert_simps [simp]:
  "kassert True msg = ret ()"
  "kassert False msg = halt (Assertion msg)"
  by (simp_all add: kassert_def)

lemma kassert_eq_ret [simp]: "kassert b msg = ret u \<longleftrightarrow> b"
  by (simp add: kassert_def)

lemma kbind_mono [partial_function_mono]:
  assumes "mono_option B" and "\<And>y. mono_option (\<lambda>f. C y f)"
  shows "mono_option (\<lambda>f. kbind (B f) (\<lambda>y. C y f))"
proof -
  have inner: "mono_option (\<lambda>f. case r of Inl e \<Rightarrow> halt e | Inr y \<Rightarrow> C y f)" for r
    using assms(2) by (cases r) (simp_all add: monotone_def option.leq_refl)
  show ?thesis
    unfolding kbind_def using assms(1) inner by (rule bind_mono)
qed

text \<open>Reading and writing an array element; an index outside the array has no meaning in C.\<close>

definition aget :: "'a list \<Rightarrow> nat \<Rightarrow> 'a kres" where
  "aget xs i = (if i < length xs then ret (xs ! i) else halt (Wild ''read''))"

definition aset :: "'a list \<Rightarrow> nat \<Rightarrow> 'a \<Rightarrow> 'a list kres" where
  "aset xs i v = (if i < length xs then ret (xs[i := v]) else halt (Wild ''write''))"

lemma aget_in [simp]: "i < length xs \<Longrightarrow> aget xs i = ret (xs ! i)"
  by (simp add: aget_def)

lemma aset_in [simp]: "i < length xs \<Longrightarrow> aset xs i v = ret (xs[i := v])"
  by (simp add: aset_def)

section \<open>Chains of nodes\<close>

text \<open>
  \<open>lseg nx p xs q\<close>: starting from pointer \<open>p\<close> and following the next field \<open>nx\<close>, one visits
  exactly the nodes \<open>xs\<close> and arrives at \<open>q\<close>. The null pointer is \<open>None\<close>. A \<open>chain\<close> ends in null.
\<close>

primrec lseg :: "('a \<Rightarrow> 'a option) \<Rightarrow> 'a option \<Rightarrow> 'a list \<Rightarrow> 'a option \<Rightarrow> bool" where
  "lseg nx p [] q = (p = q)"
| "lseg nx p (x # xs) q = (p = Some x \<and> lseg nx (nx x) xs q)"

definition chain :: "('a \<Rightarrow> 'a option) \<Rightarrow> 'a option \<Rightarrow> 'a list \<Rightarrow> bool" where
  "chain nx p xs = lseg nx p xs None"

lemma lseg_append [simp]:
  "lseg nx p (xs @ ys) q = (\<exists>r. lseg nx p xs r \<and> lseg nx r ys q)"
  by (induction xs arbitrary: p) auto

lemma lseg_cong_next:
  "(\<And>x. x \<in> set xs \<Longrightarrow> f x = g x) \<Longrightarrow> lseg f p xs q = lseg g p xs q"
  by (induction xs arbitrary: p) auto

lemma lseg_upd [simp]: "a \<notin> set xs \<Longrightarrow> lseg (nx(a := v)) p xs q = lseg nx p xs q"
  by (rule lseg_cong_next) auto

lemma chain_Nil [simp]: "chain nx p [] = (p = None)"
  by (simp add: chain_def)

lemma chain_Cons [simp]: "chain nx p (x # xs) = (p = Some x \<and> chain nx (nx x) xs)"
  by (simp add: chain_def)

lemma chain_None [simp]: "chain nx None xs = (xs = [])"
  by (cases xs) auto

lemma chain_Some: "chain nx (Some x) xs = (\<exists>ys. xs = x # ys \<and> chain nx (nx x) ys)"
  by (cases xs) auto

lemma chain_append: "chain nx p (xs @ ys) = (\<exists>r. lseg nx p xs r \<and> chain nx r ys)"
  by (simp add: chain_def)

lemma chain_upd [simp]: "a \<notin> set xs \<Longrightarrow> chain (nx(a := v)) p xs = chain nx p xs"
  by (simp add: chain_def)

lemma chain_cong_next:
  "(\<And>x. x \<in> set xs \<Longrightarrow> f x = g x) \<Longrightarrow> chain f p xs = chain g p xs"
  unfolding chain_def by (rule lseg_cong_next)

lemma chain_unique: "chain nx p xs \<Longrightarrow> chain nx p ys \<Longrightarrow> xs = ys"
proof (induction xs arbitrary: p ys)
  case Nil
  then show ?case by (cases ys) auto
next
  case (Cons x xs)
  then show ?case by (cases ys) auto
qed

lemma chain_distinct: "chain nx p xs \<Longrightarrow> distinct xs"
proof (induction xs arbitrary: p)
  case Nil
  then show ?case by simp
next
  case (Cons x xs)
  then have tail: "chain nx (nx x) xs" and "distinct xs" by auto
  moreover have "x \<notin> set xs"
  proof
    assume "x \<in> set xs"
    then obtain us vs where xs: "xs = us @ x # vs" by (auto simp: in_set_conv_decomp)
    with tail have "chain nx (Some x) (x # vs)" by (auto simp: chain_append)
    moreover have "chain nx (Some x) (x # xs)" using tail by simp
    ultimately have "x # vs = x # xs" by (rule chain_unique)
    with xs show False by simp
  qed
  ultimately show ?case by simp
qed

lemma chain_last_next: "chain nx p (xs @ [x]) \<Longrightarrow> nx x = None"
  by (auto simp: chain_append)

section \<open>Alignment\<close>

lemma unat_and_mask: "unat (x AND mask n) = unat x mod 2 ^ n"
  by (metis take_bit_eq_mask take_bit_eq_mod unsigned_take_bit_eq)

lemma and_mask_eq_0: "x AND mask n = 0 \<longleftrightarrow> 2 ^ n dvd unat (x :: 'a::len word)"
  by (metis dvd_eq_mod_eq_0 unat_and_mask unat_eq_0)

text \<open>A word as the sum of its part above and its part below bit \<open>n\<close>.\<close>

lemma mask_split: "(x AND NOT (mask n)) + (x AND mask n) = (x :: u64)"
proof -
  have "(x AND NOT (mask n)) + (x AND mask n) = (x AND NOT (mask n)) OR (x AND mask n)"
    by (rule disjunctive_add_eq_or) (rule bit_eqI, simp add: bit_simps)
  also have "\<dots> = x" by (rule bit_eqI) (auto simp: bit_simps)
  finally show ?thesis .
qed

lemma unat_and_not_mask: "unat (x AND NOT (mask n) :: u64) = unat x - unat x mod 2 ^ n"
proof -
  have "x AND NOT (mask n) = x - (x AND mask n)" using mask_split[of x n] by (metis add_diff_cancel_right')
  moreover have "x AND mask n \<le> x" by (simp add: word_and_le1 word_and_le2)
  ultimately show ?thesis by (simp add: unat_sub unat_and_mask)
qed

lemma unat_pow2: "n < 64 \<Longrightarrow> unat (2 ^ n :: u64) = 2 ^ n"
proof -
  assume "n < 64"
  then have "(2 :: nat) ^ n < 2 ^ 64" by (intro power_strict_increasing) simp_all
  then have "unat (of_nat (2 ^ n) :: u64) = 2 ^ n"
    by (simp add: unat_of_nat del: of_nat_power)
  then show ?thesis by simp
qed

lemma round_up_nat:
  fixes m x :: nat
  assumes "0 < m"
  shows "x \<le> (x + (m - 1)) div m * m" "(m * q + (m - 1)) div m = q"
proof -
  have "(x + (m - 1)) div m * m + (x + (m - 1)) mod m = x + (m - 1)" by simp
  moreover have "(x + (m - 1)) mod m < m" using assms by simp
  ultimately show "x \<le> (x + (m - 1)) div m * m" by linarith
  have "(m * q + (m - 1)) div m = q + (m - 1) div m" using assms by (intro div_mult_self4) simp
  then show "(m * q + (m - 1)) div m = q" using assms by simp
qed

lemma mask_add:
  assumes "t AND mask n = (0 :: u64)" "x AND mask n = x"
  shows "(t + x) AND NOT (mask n) = t" "(t + x) AND mask n = x"
proof -
  have t: "t AND NOT (mask n) = t" using mask_split[of t n] assms(1) by simp
  have x: "x AND NOT (mask n) = 0" using mask_split[of x n] assms(2) by simp
  have "t AND x = (t AND mask n) AND x" using assms(2) by (metis and.assoc and.commute)
  then have o: "t + x = t OR x" using assms(1) by (simp add: disjunctive_add_eq_or)
  have "(t OR x) AND NOT (mask n) = (t AND NOT (mask n)) OR (x AND NOT (mask n))"
    by (rule bit_eqI) (auto simp: bit_simps)
  then show "(t + x) AND NOT (mask n) = t" by (simp add: o t x)
  have "(t OR x) AND mask n = (t AND mask n) OR (x AND mask n)"
    by (rule bit_eqI) (auto simp: bit_simps)
  then show "(t + x) AND mask n = x" by (simp add: o assms)
qed

lemma below_mask:
  assumes "unat (x :: u64) < 2 ^ n"
  shows "x AND mask n = x"
  by (rule word_unat_eq_iff[THEN iffD2]) (use assms in \<open>simp add: unat_and_mask\<close>)

text \<open>Rounding a size up to a multiple of \<open>2 ^ n\<close>, which wraps to 0 at the top of the range.\<close>

definition align_up :: "nat \<Rightarrow> u64 \<Rightarrow> u64" where
  "align_up n x = (if x AND mask n \<noteq> 0 then (x AND NOT (mask n)) + 2 ^ n else x)"

lemma align_up_dvd:
  assumes "n < 64"
  shows "2 ^ n dvd unat (align_up n x)"
proof (cases "x AND mask n = 0")
  case True
  then show ?thesis by (simp add: align_up_def and_mask_eq_0)
next
  case False
  have "(2 :: nat) ^ n dvd unat x - unat x mod 2 ^ n" by (simp add: dvd_minus_mod)
  moreover have "unat (2 ^ n :: u64) = 2 ^ n" using assms by (simp add: unat_pow2)
  moreover have "(2 :: nat) ^ n dvd 2 ^ 64" using assms by (intro le_imp_power_dvd) simp
  ultimately have "(2 :: nat) ^ n dvd (unat (x AND NOT (mask n)) + unat (2 ^ n :: u64)) mod 2 ^ 64"
    unfolding unat_and_not_mask by (metis dvd_add dvd_mod dvd_refl)
  with False show ?thesis by (simp add: align_up_def unat_word_ariths)
qed

lemma unat_align_up:
  assumes "n < 64" "unat x \<le> 2 ^ 64 - 2 ^ n"
  shows "unat (align_up n x) = (unat x + (2 ^ n - 1)) div 2 ^ n * 2 ^ n"
proof -
  define q r where "q = unat x div 2 ^ n" and "r = unat x mod 2 ^ n"
  have x: "unat x = r + 2 ^ n * q" "r < 2 ^ n" by (simp_all add: q_def r_def)
  show ?thesis
  proof (cases "r = 0")
    case True
    then have "align_up n x = x" by (simp add: align_up_def and_mask_eq_0 r_def mod_eq_0_iff_dvd)
    moreover have "(unat x + (2 ^ n - 1)) div 2 ^ n = q"
      using True x(1) round_up_nat(2)[of "2 ^ n" q] by simp
    ultimately show ?thesis using True x(1) by simp
  next
    case False
    have p: "unat (2 ^ n :: u64) = 2 ^ n" using assms by (simp add: unat_pow2)
    have "x AND mask n \<noteq> 0" using False by (simp add: and_mask_eq_0 r_def mod_eq_0_iff_dvd)
    moreover have "unat (x AND NOT (mask n)) = 2 ^ n * q"
      unfolding unat_and_not_mask r_def[symmetric] using x(1) by simp
    moreover have "2 ^ n * q + 2 ^ n < 2 ^ 64"
    proof -
      have "(2::nat) ^ n \<le> 2 ^ 64" using assms by (intro power_increasing) simp_all
      with assms(2) x(1) False show ?thesis by simp
    qed
    ultimately have "unat (align_up n x) = 2 ^ n * q + 2 ^ n"
      using p by (simp add: align_up_def unat_word_ariths)
    moreover have "(unat x + (2 ^ n - 1)) div 2 ^ n = q + 1"
    proof -
      have "unat x + (2 ^ n - 1) = (r - 1) + 2 ^ n * (q + 1)" using x False by simp
      then show ?thesis using x(2) by (simp only: div_mult_self2) simp
    qed
    ultimately show ?thesis by simp
  qed
qed

lemma align_up_ge:
  assumes "n < 64" "unat x \<le> 2 ^ 64 - 2 ^ n"
  shows "x \<le> align_up n x"
  using round_up_nat(1)[of "2 ^ n" "unat x"] by (simp add: word_le_nat_alt unat_align_up[OF assms])

end
