(* ===== verification/Bitops.thy ===== *)
theory Bitops
  imports Yaos_Prelude
begin

text \<open>
  The bit operations of arch/x86_64/include/asm/bitops.h. A bitmap in memory is a list of 64-bit
  words; bit \<open>nr\<close> of the bitmap is bit \<open>nr mod 64\<close> of word \<open>nr div 64\<close>, which is how the
  \<^verbatim>\<open>bts\<close>, \<^verbatim>\<open>btr\<close>, \<^verbatim>\<open>btc\<close> and \<^verbatim>\<open>bt\<close> instructions address a memory operand with a register
  bit offset. An offset outside the bitmap writes foreign memory and is the fault \<open>Wild\<close>.
  The scans \<^verbatim>\<open>bsf\<close> and \<^verbatim>\<open>bsr\<close> leave their destination unchanged on zero, which \<open>ffs\<close> and \<open>fls\<close>
  rely on by preloading -1.
\<close>

section \<open>Scanning a word\<close>

definition bsf :: "'a::len word \<Rightarrow> nat option" where
  "bsf w = find (bit w) [0..<LENGTH('a)]"

definition bsr :: "'a::len word \<Rightarrow> nat option" where
  "bsr w = find (bit w) (rev [0..<LENGTH('a)])"

text \<open>The scans without a preloaded destination: no result on zero.\<close>

definition ffs_long :: "u64 \<Rightarrow> nat option" where
  "ffs_long word = bsf word"

definition ffz :: "u64 \<Rightarrow> nat option" where
  "ffz word = bsf (NOT word)"

definition fls_long :: "u64 \<Rightarrow> nat option" where
  "fls_long word = bsr word"

definition ffs :: "u32 \<Rightarrow> int" where
  "ffs x = (case bsf x of None \<Rightarrow> -1 | Some i \<Rightarrow> int i) + 1"

definition fls :: "u32 \<Rightarrow> int" where
  "fls x = (case bsr x of None \<Rightarrow> -1 | Some i \<Rightarrow> int i) + 1"

definition fls64 :: "u64 \<Rightarrow> int" where
  "fls64 x = (case bsr x of None \<Rightarrow> -1 | Some i \<Rightarrow> int i) + 1"

section \<open>Bitmaps in memory\<close>

type_synonym bitmap = "u64 list"

definition set_bit_mem :: "nat \<Rightarrow> bitmap \<Rightarrow> bitmap kres" where
  "set_bit_mem nr m =
     kbind (aget m (nr div 64)) (\<lambda>w. aset m (nr div 64) (Bit_Operations.set_bit (nr mod 64) w))"

definition clear_bit_mem :: "nat \<Rightarrow> bitmap \<Rightarrow> bitmap kres" where
  "clear_bit_mem nr m =
     kbind (aget m (nr div 64)) (\<lambda>w. aset m (nr div 64) (unset_bit (nr mod 64) w))"

definition change_bit_mem :: "nat \<Rightarrow> bitmap \<Rightarrow> bitmap kres" where
  "change_bit_mem nr m =
     kbind (aget m (nr div 64)) (\<lambda>w. aset m (nr div 64) (flip_bit (nr mod 64) w))"

definition variable_test_bit :: "nat \<Rightarrow> bitmap \<Rightarrow> bool kres" where
  "variable_test_bit nr m = kbind (aget m (nr div 64)) (\<lambda>w. ret (bit w (nr mod 64)))"

definition constant_test_bit :: "nat \<Rightarrow> bitmap \<Rightarrow> bool kres" where
  "constant_test_bit nr m =
     kbind (aget m (drop_bit 6 nr))
       (\<lambda>w. ret (push_bit (nr AND (64 - 1)) 1 AND w \<noteq> 0))"

definition test_and_set_bit :: "nat \<Rightarrow> bitmap \<Rightarrow> (bool \<times> bitmap) kres" where
  "test_and_set_bit nr m =
     kbind (variable_test_bit nr m) (\<lambda>old. kbind (set_bit_mem nr m) (\<lambda>m'. ret (old, m')))"

definition test_and_clear_bit :: "nat \<Rightarrow> bitmap \<Rightarrow> (bool \<times> bitmap) kres" where
  "test_and_clear_bit nr m =
     kbind (variable_test_bit nr m) (\<lambda>old. kbind (clear_bit_mem nr m) (\<lambda>m'. ret (old, m')))"

definition test_and_change_bit :: "nat \<Rightarrow> bitmap \<Rightarrow> (bool \<times> bitmap) kres" where
  "test_and_change_bit nr m =
     kbind (variable_test_bit nr m) (\<lambda>old. kbind (change_bit_mem nr m) (\<lambda>m'. ret (old, m')))"

text \<open>A spin lock is a one-word bitmap whose bit 0 says that the lock is taken.\<close>

definition test_and_set_bit_lock :: "nat \<Rightarrow> bitmap \<Rightarrow> (bool \<times> bitmap) kres" where
  "test_and_set_bit_lock nr m = test_and_set_bit nr m"

section \<open>What the scans find\<close>

lemma bsf_None [simp]: "bsf w = None \<longleftrightarrow> w = 0"
proof -
  have "(\<forall>i < LENGTH('a). \<not> bit w i) \<longleftrightarrow> w = 0" for w :: "'a::len word"
    by (auto simp: bit_eq_iff dest: bit_imp_le_length)
  then show ?thesis by (simp add: bsf_def find_None_iff)
qed

lemma bsf_0 [simp]: "bsf 0 = None"
  by simp

lemma bsf_Some:
  "bsf w = Some i \<longleftrightarrow> bit w i \<and> (\<forall>j < i. \<not> bit w j)"
proof
  assume "bsf w = Some i"
  then show "bit w i \<and> (\<forall>j < i. \<not> bit w j)"
    by (auto simp: bsf_def find_Some_iff)
next
  assume r: "bit w i \<and> (\<forall>j < i. \<not> bit w j)"
  then have "i < LENGTH('a)" by (auto dest: bit_imp_le_length)
  with r show "bsf w = Some i"
    unfolding bsf_def by (subst find_Some_iff) (auto intro!: exI[of _ i])
qed

lemma bsf_lt: "bsf (w :: 'a::len word) = Some i \<Longrightarrow> i < LENGTH('a)"
  by (auto simp: bsf_Some dest: bit_imp_le_length)

lemma ffs_zero_iff [simp]: "ffs x = 0 \<longleftrightarrow> x = 0"
  by (auto simp: ffs_def split: option.splits)

lemma ffs_0 [simp]: "ffs 0 = 0"
  by simp

lemma ffs_nonneg [simp]: "0 \<le> ffs x"
  by (auto simp: ffs_def split: option.splits)

lemma ffs_Suc: "ffs x = int i + 1 \<longleftrightarrow> bit x i \<and> (\<forall>j < i. \<not> bit x j)"
proof -
  have "ffs x = int i + 1 \<longleftrightarrow> bsf x = Some i"
    by (auto simp: ffs_def split: option.splits)
  then show ?thesis by (simp add: bsf_Some)
qed

lemma ffs_le: "ffs x \<le> 32"
  by (auto simp: ffs_def dest: bsf_lt split: option.splits)

lemma bsr_None [simp]: "bsr w = None \<longleftrightarrow> w = 0"
proof -
  have "(\<forall>i < LENGTH('a). \<not> bit w i) \<longleftrightarrow> w = 0" for w :: "'a::len word"
    by (auto simp: bit_eq_iff dest: bit_imp_le_length)
  then show ?thesis by (simp add: bsr_def find_None_iff)
qed

lemma bsr_0 [simp]: "bsr 0 = None"
  by simp

lemma bsr_SomeD:
  assumes "bsr w = Some i"
  shows "bit w i" and "\<And>j. i < j \<Longrightarrow> \<not> bit w j"
proof -
  let ?r = "rev [0..<LENGTH('a)]"
  from assms obtain k where k: "k < length ?r" "bit w (?r ! k)" "i = ?r ! k"
    "\<forall>m < k. \<not> bit w (?r ! m)"
    by (auto simp: bsr_def find_Some_iff)
  then show "bit w i" by simp
  fix j assume "i < j"
  show "\<not> bit w j"
  proof
    assume b: "bit w j"
    then have jl: "j < LENGTH('a)" by (auto dest: bit_imp_le_length)
    let ?m = "LENGTH('a) - Suc j"
    have "?r ! ?m = j" using jl by (simp add: rev_nth)
    moreover have "?m < k" using k(1,3) \<open>i < j\<close> jl by (simp add: rev_nth)
    ultimately show False using k(4) b by auto
  qed
qed

lemma bsr_bounds:
  assumes "bsr (w :: 'a::len word) = Some i"
  shows "2 ^ i \<le> unat w" and "unat w < 2 ^ Suc i"
proof -
  have "bit (unat w) i" using bsr_SomeD(1)[OF assms] by (simp add: bit_unsigned_iff)
  then show "2 ^ i \<le> unat w"
    by (metis bit_iff_odd div_less even_zero linorder_not_le)
  have "take_bit (Suc i) w = w"
    by (rule bit_eqI) (use bsr_SomeD(2)[OF assms] not_less_eq in \<open>auto simp: bit_take_bit_iff\<close>)
  then have "take_bit (Suc i) (unat w) = unat w" by (metis unsigned_take_bit_eq)
  then show "unat w < 2 ^ Suc i"
    by (metis take_bit_nat_less_exp)
qed

text \<open>\<open>fls x\<close> is the bit length of \<open>x\<close>: the least \<open>n\<close> with \<open>x < 2 ^ n\<close>.\<close>

lemma fls_bounds:
  "unat x < 2 ^ nat (fls x)" "x \<noteq> 0 \<Longrightarrow> 2 ^ (nat (fls x) - 1) \<le> unat x"
proof -
  show "unat x < 2 ^ nat (fls x)"
    using bsr_bounds(2)[of x]
    by (cases "bsr x") (auto simp: fls_def nat_add_distrib simp del: power_Suc)
  show "x \<noteq> 0 \<Longrightarrow> 2 ^ (nat (fls x) - 1) \<le> unat x"
    using bsr_bounds(1)[of x] by (cases "bsr x") (auto simp: fls_def nat_add_distrib)
qed

lemma fls_nonneg [simp]: "0 \<le> fls x"
  by (auto simp: fls_def split: option.splits)

lemma fls_eqI:
  assumes "2 ^ n \<le> unat x" and "unat x < 2 ^ Suc n"
  shows "fls x = int (Suc n)"
proof -
  have "x \<noteq> 0" using assms(1) by (metis leD unat_0 zero_less_numeral zero_less_power)
  then obtain i where i: "bsr x = Some i" by (cases "bsr x") auto
  have "i = n"
  proof (rule ccontr)
    assume "i \<noteq> n"
    then consider "Suc i \<le> n" | "Suc n \<le> i" by linarith
    then show False
    proof cases
      case 1
      then have "(2::nat) ^ Suc i \<le> 2 ^ n" by (rule power_increasing) simp
      with bsr_bounds(2)[OF i] assms(1) show False by linarith
    next
      case 2
      then have "(2::nat) ^ Suc n \<le> 2 ^ i" by (rule power_increasing) simp
      with bsr_bounds(1)[OF i] assms(2) show False by linarith
    qed
  qed
  with i show ?thesis by (simp add: fls_def)
qed

section \<open>What the bitmap operations do to the set of bits\<close>

definition bits_of :: "bitmap \<Rightarrow> nat set" where
  "bits_of m = {i. i < 64 * length m \<and> bit (m ! (i div 64)) (i mod 64)}"

lemma bits_of_finite [simp]: "finite (bits_of m)"
  by (simp add: bits_of_def)

lemma bits_of_bound: "i \<in> bits_of m \<Longrightarrow> i < 64 * length m"
  by (simp add: bits_of_def)

lemma bits_of_word: "i < 64 * length m \<Longrightarrow> i \<in> bits_of m \<longleftrightarrow> bit (m ! (i div 64)) (i mod 64)"
  by (simp add: bits_of_def)

lemma bits_of_replicate_0 [simp]: "bits_of (replicate n 0) = {}"
  by (auto simp: bits_of_def less_mult_imp_div_less)

lemma bits_of_update:
  assumes nr: "nr < 64 * length m"
    and same: "\<And>k. k < 64 \<Longrightarrow> k \<noteq> nr mod 64 \<Longrightarrow> bit w k = bit (m ! (nr div 64)) k"
  shows "bits_of (m[nr div 64 := w]) =
     (if bit w (nr mod 64) then insert nr (bits_of m) else bits_of m - {nr})"
proof -
  have d: "nr div 64 < length m" using nr by (simp add: less_mult_imp_div_less mult.commute)
  have key: "i \<in> bits_of (m[nr div 64 := w]) \<longleftrightarrow> i \<in> bits_of m" if "i \<noteq> nr" for i
  proof (cases "i div 64 = nr div 64")
    case True
    then have "i mod 64 \<noteq> nr mod 64" using that by (metis div_mult_mod_eq)
    then show ?thesis using True same[of "i mod 64"] d by (auto simp: bits_of_def)
  next
    case False
    then show ?thesis by (auto simp: bits_of_def)
  qed
  moreover have "nr \<in> bits_of (m[nr div 64 := w]) \<longleftrightarrow> bit w (nr mod 64)"
    using nr d by (simp add: bits_of_def)
  ultimately show ?thesis
    by (intro set_eqI) (metis Diff_iff insert_iff singletonD)
qed

lemma bits_of_single:
  assumes "i < 64"
  shows "bits_of (push_bit i 1 # replicate n 0) = {i}"
  using bits_of_update[of i "replicate (Suc n) 0" "push_bit i 1"] bits_of_replicate_0[of "Suc n"] assms
  by (simp add: push_bit_of_1 bit_exp_iff)

lemma test_and_set_bit_in:
  assumes "nr < 64 * length m"
  shows "\<exists>m'. test_and_set_bit nr m = ret (nr \<in> bits_of m, m') \<and>
     bits_of m' = insert nr (bits_of m) \<and> length m' = length m"
proof -
  have d: "nr div 64 < length m" using assms by (simp add: less_mult_imp_div_less mult.commute)
  let ?w = "Bit_Operations.set_bit (nr mod 64) (m ! (nr div 64))"
  have "bits_of (m[nr div 64 := ?w]) = insert nr (bits_of m)"
    by (subst bits_of_update[OF assms]) (auto simp: bit_set_bit_iff)
  then show ?thesis
    using d assms
    by (simp add: test_and_set_bit_def variable_test_bit_def set_bit_mem_def bits_of_word)
qed

lemma test_and_clear_bit_in:
  assumes "nr < 64 * length m"
  shows "\<exists>m'. test_and_clear_bit nr m = ret (nr \<in> bits_of m, m') \<and>
     bits_of m' = bits_of m - {nr} \<and> length m' = length m"
proof -
  have d: "nr div 64 < length m" using assms by (simp add: less_mult_imp_div_less mult.commute)
  let ?w = "unset_bit (nr mod 64) (m ! (nr div 64))"
  have "bits_of (m[nr div 64 := ?w]) = bits_of m - {nr}"
    by (subst bits_of_update[OF assms]) (auto simp: bit_unset_bit_iff)
  then show ?thesis
    using d assms
    by (simp add: test_and_clear_bit_def variable_test_bit_def clear_bit_mem_def bits_of_word)
qed

lemma test_and_set_bit_out:
  assumes "64 * length m \<le> nr"
  shows "test_and_set_bit nr m = halt (Wild ''read'')"
proof -
  have "\<not> nr div 64 < length m" using assms by (simp add: not_less less_eq_div_iff_mult_less_eq mult.commute)
  then show ?thesis by (simp add: test_and_set_bit_def variable_test_bit_def aget_def)
qed

text \<open>The two implementations of \<^verbatim>\<open>test_bit\<close> read the same bit.\<close>

lemma constant_test_bit_eq: "constant_test_bit nr m = variable_test_bit nr m"
proof -
  have m: "nr AND (64 - 1) = nr mod 64"
    using take_bit_eq_mask[of 6 nr] by (simp add: take_bit_eq_mod mask_eq_exp_minus_1)
  have "push_bit k 1 AND w \<noteq> 0 \<longleftrightarrow> bit w k" if "k < 64" for k and w :: u64
    using that by (auto simp: bit_eq_iff[where 'a = u64] bit_and_iff bit_exp_iff push_bit_of_1)
  then show ?thesis
    unfolding constant_test_bit_def variable_test_bit_def m
    by (simp add: drop_bit_eq_div)
qed

end
