(* ===== verification/Spinlock.thy ===== *)
theory Spinlock
  imports Bitops
begin

text \<open>
  The spin locks of arch/x86_64/include/asm/spinlock.h, seen by one processor running alone: a
  lock is a word whose bit 0 is set while it is held. Taking a held lock spins for ever, since no
  other processor is there to release it.
\<close>

type_synonym spinlock = u64

definition init_spinlock :: spinlock where
  "init_spinlock = 0"

partial_function (option) spin_lock :: "spinlock \<Rightarrow> spinlock kres" where
  "spin_lock t =
     kbind (test_and_set_bit_lock 0 [t])
       (\<lambda>(old, m). if old then spin_lock (hd m) else ret (hd m))"

definition spin_unlock :: "spinlock \<Rightarrow> spinlock kres" where
  "spin_unlock t = kbind (clear_bit_mem 0 [t]) (\<lambda>m. ret (hd m))"

lemma test_and_set_bit_lock_word:
  "test_and_set_bit_lock 0 [t] = ret (bit t 0, [Bit_Operations.set_bit 0 t])"
  by (simp add: test_and_set_bit_lock_def test_and_set_bit_def variable_test_bit_def
      set_bit_mem_def)

lemma spin_lock_free:
  assumes "\<not> bit t 0"
  shows "spin_lock t = ret (Bit_Operations.set_bit 0 t)"
  using assms by (subst spin_lock.simps) (simp add: test_and_set_bit_lock_word)

lemma spin_lock_held:
  assumes "bit t 0"
  shows "spin_lock t = None"
proof (rule ccontr)
  assume "spin_lock t \<noteq> None"
  then obtain r where "spin_lock t = Some r" by auto
  then have "\<not> bit t 0"
  proof (rule spin_lock.raw_induct[where P = "\<lambda>t r. \<not> bit t 0", rotated])
    fix f :: "spinlock \<Rightarrow> spinlock kres" and t r
    assume IH: "\<And>t r. f t = Some r \<Longrightarrow> \<not> bit t 0"
      and step: "kbind (test_and_set_bit_lock 0 [t])
         (\<lambda>(old, m). if old then f (hd m) else ret (hd m)) = Some r"
    show "\<not> bit t 0"
    proof
      assume "bit t 0"
      with step have "f (Bit_Operations.set_bit 0 t) = Some r"
        by (simp add: test_and_set_bit_lock_word)
      then have "\<not> bit (Bit_Operations.set_bit 0 t) 0" by (rule IH)
      then show False by (simp add: bit_set_bit_iff)
    qed
  qed
  with assms show False by simp
qed

lemma spin_lock_0 [simp]: "spin_lock 0 = ret 1"
  by (simp add: spin_lock_free set_bit_eq_or)

lemma spin_lock_1 [simp]: "spin_lock 1 = None"
  by (rule spin_lock_held) simp

lemma spin_unlock_1 [simp]: "spin_unlock 1 = ret 0"
  by (simp add: spin_unlock_def clear_bit_mem_def unset_bit_0)

end
