(* ===== verification/Hole_List.thy ===== *)
theory Hole_List
  imports Spinlock "HOL-Library.Multiset"
begin

text \<open>
  The data structure that kernel/kheap.c and kernel/vm.c share: memory holes kept in a static array
  of nodes, linked into a list of holes and a list of unused nodes. The nodes are addressed by
  their array index; a null pointer is \<open>None\<close>. The loops over the links are partial functions,
  since nothing in the code bounds them: \<open>None\<close> is a loop over a cyclic list. The second half
  gives the abstract view, a list of (address, size) pairs, and proves that the pointer operations
  implement insertion in address order and first fit on it.
\<close>

section \<open>Nodes and links\<close>

record hole =
  h_addr :: u64
  h_size :: u64
  h_orgin :: u64
  h_next :: "nat option"

record pool =
  nodes :: "nat \<Rightarrow> hole"
  pfree :: "nat option"
  phead :: "nat option"

definition set_next :: "nat \<Rightarrow> nat option \<Rightarrow> (nat \<Rightarrow> hole) \<Rightarrow> nat \<Rightarrow> hole" where
  "set_next i q ns = ns(i := (ns i)\<lparr>h_next := q\<rparr>)"

definition fill :: "nat \<Rightarrow> u64 \<Rightarrow> u64 \<Rightarrow> (nat \<Rightarrow> hole) \<Rightarrow> nat \<Rightarrow> hole" where
  "fill p a sz ns = ns(p := (ns p)\<lparr>h_addr := a, h_orgin := sz, h_size := sz\<rparr>)"

text \<open>The static array is zero; the loop links node \<open>i\<close> to node \<open>i + 1\<close> and ends the list.\<close>

definition init_pool :: "nat \<Rightarrow> pool" where
  "init_pool n =
     \<lparr>nodes = (\<lambda>i. \<lparr>h_addr = 0, h_size = 0, h_orgin = 0,
                     h_next = (if Suc i < n then Some (Suc i) else None)\<rparr>),
      pfree = Some 0, phead = None\<rparr>"

text \<open>\<^verbatim>\<open>while (ph->pnext && ph->pnext->addr < p->addr) ph = ph->pnext\<close>\<close>

partial_function (option) insert_point :: "(nat \<Rightarrow> hole) \<Rightarrow> u64 \<Rightarrow> nat \<Rightarrow> nat kres" where
  "insert_point ns a ph =
     (case h_next (ns ph) of
        None \<Rightarrow> ret ph
      | Some q \<Rightarrow> if h_addr (ns q) < a then insert_point ns a q else ret ph)"

text \<open>
  Take the unused node \<open>p\<close> out of the free list, store the block in it and link it into the hole
  list in address order.
\<close>

definition free_sorted :: "nat \<Rightarrow> u64 \<Rightarrow> u64 \<Rightarrow> pool \<Rightarrow> pool kres" where
  "free_sorted p a sz pl =
     (let fr = h_next (nodes pl p);
          ns = fill p a sz (nodes pl)
      in case phead pl of
           None \<Rightarrow> ret \<lparr>nodes = set_next p None ns, pfree = fr, phead = Some p\<rparr>
         | Some h \<Rightarrow>
             if h_addr (ns h) > h_addr (ns p)
             then ret \<lparr>nodes = set_next p (Some h) ns, pfree = fr, phead = Some p\<rparr>
             else kbind (insert_point ns (h_addr (ns p)) h) (\<lambda>ph.
               ret \<lparr>nodes = set_next ph (Some p) (set_next p (h_next (ns ph)) ns),
                    pfree = fr, phead = Some h\<rparr>))"

text \<open>The same with the new hole put in front, as \<^verbatim>\<open>free_kheap_small\<close> does.\<close>

definition free_front :: "nat \<Rightarrow> u64 \<Rightarrow> u64 \<Rightarrow> pool \<Rightarrow> pool" where
  "free_front p a sz pl =
     (let fr = h_next (nodes pl p);
          ns = fill p a sz (nodes pl)
      in \<lparr>nodes = set_next p (phead pl) ns, pfree = fr, phead = Some p\<rparr>)"

text \<open>\<^verbatim>\<open>while (p && p->size < size) p = p->pnext\<close>\<close>

partial_function (option) first_fit :: "(nat \<Rightarrow> hole) \<Rightarrow> u64 \<Rightarrow> nat option \<Rightarrow> nat option kres" where
  "first_fit ns sz p =
     (case p of
        None \<Rightarrow> ret None
      | Some q \<Rightarrow> if h_size (ns q) < sz then first_fit ns sz (h_next (ns q)) else ret (Some q))"

text \<open>\<^verbatim>\<open>while (ptr->pnext && ptr->pnext != p) ptr = ptr->pnext\<close>: the predecessor of \<open>p\<close>, if any.\<close>

partial_function (option) find_prev :: "(nat \<Rightarrow> hole) \<Rightarrow> nat \<Rightarrow> nat \<Rightarrow> nat option kres" where
  "find_prev ns p ptr =
     (case h_next (ns ptr) of
        None \<Rightarrow> ret None
      | Some q \<Rightarrow> if q = p then ret (Some ptr) else find_prev ns p q)"

text \<open>Take node \<open>p\<close> out of the hole list and put it on the free list.\<close>

definition unlink :: "nat \<Rightarrow> pool \<Rightarrow> pool kres" where
  "unlink p pl =
     kbind
      (case phead pl of
         None \<Rightarrow> halt (Wild ''null list head'')
       | Some h \<Rightarrow>
           if h = p then ret (pl\<lparr>phead := h_next (nodes pl h)\<rparr>)
           else if h_next (nodes pl h) = Some p
           then ret (pl\<lparr>nodes := set_next h (h_next (nodes pl p)) (nodes pl)\<rparr>)
           else kbind (find_prev (nodes pl) p h) (\<lambda>r.
             case r of
               None \<Rightarrow> halt (Panic ''corrupted link'')
             | Some q \<Rightarrow> ret (pl\<lparr>nodes := set_next q (h_next (nodes pl p)) (nodes pl)\<rparr>)))
      (\<lambda>pl. ret (pl\<lparr>nodes := set_next p (pfree pl) (nodes pl), pfree := Some p\<rparr>))"

text \<open>
  Cut \<open>sz\<close> bytes off the front of hole \<open>p\<close>. \<open>dr\<close> says which remainders are dropped: the 4k heap and
  the linear space drop an empty hole, the small heap one of at most 16 bytes.
\<close>

definition carve :: "(u64 \<Rightarrow> bool) \<Rightarrow> nat \<Rightarrow> u64 \<Rightarrow> pool \<Rightarrow> (u64 \<times> pool) kres" where
  "carve dr p sz pl =
     (let pl1 = pl\<lparr>nodes := (nodes pl)(p := (nodes pl p)\<lparr>h_size := h_size (nodes pl p) - sz\<rparr>)\<rparr>
      in kbind (if dr (h_size (nodes pl1 p)) then unlink p pl1 else ret pl1) (\<lambda>pl2.
           ret (h_addr (nodes pl2 p),
                pl2\<lparr>nodes := (nodes pl2)(p := (nodes pl2 p)\<lparr>h_addr := h_addr (nodes pl2 p) + sz\<rparr>)\<rparr>)))"

section \<open>The abstract hole list\<close>

type_synonym block = "u64 \<times> u64"

fun ins_tail :: "block \<Rightarrow> block list \<Rightarrow> block list" where
  "ins_tail x [] = [x]"
| "ins_tail x (z # zs) = (if fst z < fst x then z # ins_tail x zs else x # z # zs)"

fun ins_hole :: "block \<Rightarrow> block list \<Rightarrow> block list" where
  "ins_hole x [] = [x]"
| "ins_hole x (y # ys) = (if fst y > fst x then x # y # ys else y # ins_tail x ys)"

fun fit :: "(u64 \<Rightarrow> bool) \<Rightarrow> u64 \<Rightarrow> block list \<Rightarrow> (u64 \<times> block list) option" where
  "fit dr sz [] = None"
| "fit dr sz ((a, s) # hs) =
     (if s < sz then map_option (\<lambda>(r, hs'). (r, (a, s) # hs')) (fit dr sz hs)
      else Some (a, if dr (s - sz) then hs else (a + sz, s - sz) # hs))"

text \<open>The nodes reached from a pointer in at most \<open>n\<close> steps.\<close>

fun walk :: "nat \<Rightarrow> ('a \<Rightarrow> 'a option) \<Rightarrow> 'a option \<Rightarrow> 'a list" where
  "walk 0 nx p = []"
| "walk (Suc n) nx p = (case p of None \<Rightarrow> [] | Some x \<Rightarrow> x # walk n nx (nx x))"

abbreviation nexts :: "pool \<Rightarrow> nat \<Rightarrow> nat option" where
  "nexts pl \<equiv> \<lambda>i. h_next (nodes pl i)"

text \<open>
  \<open>pool_rep n pl fs hs\<close>: the free list of the pool holds the nodes \<open>fs\<close>, the hole list the nodes \<open>hs\<close>,
  and together they are each of the \<open>n\<close> nodes once.
\<close>

definition pool_rep :: "nat \<Rightarrow> pool \<Rightarrow> nat list \<Rightarrow> nat list \<Rightarrow> bool" where
  "pool_rep n pl fs hs \<longleftrightarrow>
     chain (nexts pl) (pfree pl) fs \<and> chain (nexts pl) (phead pl) hs \<and>
     distinct (fs @ hs) \<and> set (fs @ hs) = {..<n}"

definition free_nodes :: "nat \<Rightarrow> pool \<Rightarrow> nat list" where
  "free_nodes n pl = walk n (nexts pl) (pfree pl)"

definition hole_nodes :: "nat \<Rightarrow> pool \<Rightarrow> nat list" where
  "hole_nodes n pl = walk n (nexts pl) (phead pl)"

definition pool_ok :: "nat \<Rightarrow> pool \<Rightarrow> bool" where
  "pool_ok n pl \<longleftrightarrow> pool_rep n pl (free_nodes n pl) (hole_nodes n pl)"

definition block_of :: "hole \<Rightarrow> block" where
  "block_of h = (h_addr h, h_size h)"

definition holes :: "nat \<Rightarrow> pool \<Rightarrow> block list" where
  "holes n pl = map (\<lambda>i. block_of (nodes pl i)) (hole_nodes n pl)"

lemma walk_chain: "chain nx p xs \<Longrightarrow> length xs \<le> n \<Longrightarrow> walk n nx p = xs"
proof (induction xs arbitrary: p n)
  case Nil
  then show ?case by (cases n) auto
next
  case (Cons x xs)
  then show ?case by (cases n) auto
qed

lemma pool_rep_length:
  assumes "pool_rep n pl fs hs"
  shows "length fs + length hs = n"
proof -
  have "card (set (fs @ hs)) = length (fs @ hs)"
    using assms unfolding pool_rep_def by (metis distinct_card)
  then show ?thesis using assms by (simp add: pool_rep_def)
qed

lemma pool_rep_unique:
  assumes "pool_rep n pl fs hs"
  shows "free_nodes n pl = fs" "hole_nodes n pl = hs"
  using assms pool_rep_length[OF assms]
  by (auto simp: pool_rep_def free_nodes_def hole_nodes_def walk_chain)

lemma pool_okI: "pool_rep n pl fs hs \<Longrightarrow> pool_ok n pl"
  using pool_rep_unique by (simp add: pool_ok_def)

lemma pool_okD: "pool_ok n pl \<Longrightarrow> pool_rep n pl (free_nodes n pl) (hole_nodes n pl)"
  by (simp add: pool_ok_def)

lemma holes_rep: "pool_rep n pl fs hs \<Longrightarrow> holes n pl = map (\<lambda>i. block_of (nodes pl i)) hs"
  using pool_rep_unique by (simp add: holes_def)

lemma h_next_set_next: "h_next (set_next i q ns j) = (if j = i then q else h_next (ns j))"
  by (auto simp: set_next_def)

lemma set_next_sel [simp]:
  "h_next (set_next i q ns i) = q"
  "block_of (set_next i q ns j) = block_of (ns j)"
  "h_addr (set_next i q ns j) = h_addr (ns j)" "h_size (set_next i q ns j) = h_size (ns j)"
  by (auto simp: set_next_def block_of_def)

lemma init_pool_rep: "0 < n \<Longrightarrow> pool_rep n (init_pool n) [0..<n] []"
proof -
  have "chain (nexts (init_pool n)) (if k < n then Some k else None) [k..<n]" if "k \<le> n" for k
    using that
  proof (induction "n - k" arbitrary: k)
    case 0
    then show ?case by simp
  next
    case (Suc m)
    then have "k < n" by simp
    moreover have "chain (nexts (init_pool n)) (if Suc k < n then Some (Suc k) else None) [Suc k..<n]"
      using Suc by (intro Suc.hyps(1)) simp_all
    ultimately show ?case by (simp add: upt_conv_Cons init_pool_def)
  qed
  from this[of 0] show "0 < n \<Longrightarrow> pool_rep n (init_pool n) [0..<n] []"
    by (auto simp: pool_rep_def init_pool_def)
qed


section \<open>The pointer operations implement the abstract ones\<close>

lemma nexts_set_next [simp]: "(\<lambda>i. h_next (set_next j q ns i)) = (\<lambda>i. h_next (ns i))(j := q)"
  by (auto simp: h_next_set_next)

lemma chain_insert_after:
  assumes "chain nx q (us @ x # vs)" "p \<notin> set (us @ x # vs)" "distinct (us @ x # vs)"
  shows "chain (nx(p := nx x, x := Some p)) q (us @ x # p # vs)"
proof -
  from assms(1) have "lseg nx q us (Some x)" "chain nx (nx x) vs" by (auto simp: chain_append)
  with assms(2,3) show ?thesis by (auto simp: chain_append)
qed

lemma chain_remove_after:
  assumes "chain nx q (us @ x # p # vs)"
  shows "chain (nx(x := nx p)) q (us @ x # vs)"
proof -
  have d: "distinct (us @ x # p # vs)" using assms by (rule chain_distinct)
  from assms have "lseg nx q us (Some x)" "chain nx (nx p) vs" by (auto simp: chain_append)
  with d show ?thesis by (auto simp: chain_append)
qed

lemma insert_point_chain:
  "chain (\<lambda>i. h_next (ns i)) (h_next (ns h)) ys \<Longrightarrow>
   insert_point ns a h = ret (last (h # takeWhile (\<lambda>i. h_addr (ns i) < a) ys))"
proof (induction ys arbitrary: h)
  case Nil
  then show ?case by (subst insert_point.simps) simp
next
  case (Cons y ys)
  then show ?case by (subst insert_point.simps) simp
qed

lemma first_fit_chain:
  "chain (\<lambda>i. h_next (ns i)) p hs \<Longrightarrow>
   first_fit ns sz p = ret (find (\<lambda>i. \<not> h_size (ns i) < sz) hs)"
proof (induction hs arbitrary: p)
  case Nil
  then show ?case by (subst first_fit.simps) simp
next
  case (Cons h hs)
  then show ?case by (subst first_fit.simps) auto
qed

lemma find_prev_chain:
  "chain (\<lambda>i. h_next (ns i)) (Some ptr) (us @ q # p # vs) \<Longrightarrow> p \<notin> set us \<Longrightarrow>
   find_prev ns p ptr = ret (Some q)"
proof (induction us arbitrary: ptr)
  case Nil
  then show ?case by (subst find_prev.simps) simp
next
  case (Cons u us)
  then have c: "chain (\<lambda>i. h_next (ns i)) (h_next (ns u)) (us @ q # p # vs)" "ptr = u" by auto
  then have d: "p \<noteq> u" "p \<noteq> hd (us @ q # p # vs)"
    using Cons.prems chain_distinct[OF Cons.prems(1)] by (auto simp: hd_append)
  obtain r where r: "h_next (ns u) = Some r" "r = hd (us @ q # p # vs)"
    using c by (cases "us @ q # p # vs") auto
  with c have "find_prev ns p r = ret (Some q)" using Cons.IH Cons.prems by simp
  with c d r show ?case by (subst find_prev.simps) simp
qed

lemma ins_tail_takeWhile:
  "ins_tail x zs = takeWhile (\<lambda>z. fst z < fst x) zs @ x # dropWhile (\<lambda>z. fst z < fst x) zs"
  by (induction zs) auto

lemma fit_append:
  assumes "\<forall>u \<in> set us. snd u < sz"
  shows "fit dr sz (us @ vs) = map_option (\<lambda>(r, hs). (r, us @ hs)) (fit dr sz vs)"
  using assms
proof (induction us)
  case Nil
  then show ?case by (simp add: option.map_ident)
next
  case (Cons u us)
  then show ?case by (cases u) (auto simp: option.map_comp o_def split_beta)
qed

lemma fit_None_iff: "fit dr sz hs = None \<longleftrightarrow> (\<forall>h \<in> set hs. snd h < sz)"
  by (induction hs) (auto split: if_splits)

lemma fill_sel [simp]:
  "h_next (fill p a sz ns i) = h_next (ns i)"
  "block_of (fill p a sz ns i) = (if i = p then (a, sz) else block_of (ns i))"
  "h_addr (fill p a sz ns i) = (if i = p then a else h_addr (ns i))"
  by (auto simp: fill_def block_of_def)

lemma map_block_fill [simp]:
  "p \<notin> set hs \<Longrightarrow> map (\<lambda>i. block_of (fill p a sz ns i)) hs = map (\<lambda>i. block_of (ns i)) hs"
  by (induction hs) auto

lemma fst_block_of [simp]: "fst (block_of h) = h_addr h" "snd (block_of h) = h_size h"
  by (simp_all add: block_of_def)

lemma ins_hole_split:
  assumes "\<not> a < h_addr (ns h)"
  shows "ins_hole (a, sz) (map (\<lambda>i. block_of (ns i)) (h # ys)) =
         map (\<lambda>i. block_of (ns i)) (h # takeWhile (\<lambda>i. h_addr (ns i) < a) ys) @ (a, sz) #
         map (\<lambda>i. block_of (ns i)) (dropWhile (\<lambda>i. h_addr (ns i) < a) ys)"
  using assms by (simp add: ins_tail_takeWhile takeWhile_map dropWhile_map o_def)

lemma insert_point_split:
  assumes "chain (\<lambda>i. h_next (ns i)) (Some h) (h # ys)" "\<not> a < h_addr (ns h)"
  obtains ws ph vs where "insert_point ns a h = ret ph" "h # ys = ws @ ph # vs"
    "ins_hole (a, sz) (map (\<lambda>i. block_of (ns i)) (h # ys)) =
       map (\<lambda>i. block_of (ns i)) (ws @ [ph]) @ (a, sz) # map (\<lambda>i. block_of (ns i)) vs"
proof -
  let ?us = "takeWhile (\<lambda>i. h_addr (ns i) < a) ys"
  let ?vs = "dropWhile (\<lambda>i. h_addr (ns i) < a) ys"
  have ph: "insert_point ns a h = ret (last (h # ?us))"
    using assms insert_point_chain[of ns h ys a] by simp
  have u: "h # ?us = butlast (h # ?us) @ [last (h # ?us)]" by simp
  then have "h # ys = butlast (h # ?us) @ last (h # ?us) # ?vs"
    by (metis append.assoc append_Cons append_Nil takeWhile_dropWhile_id)
  with ph u ins_hole_split[where ns = ns, OF assms(2)] show ?thesis by (metis that)
qed

lemma free_sorted_middle:
  assumes rep: "pool_rep n pl (p # fs) (h # ys)" and le: "\<not> a < h_addr (nodes pl h)"
  shows "\<exists>pl' hs'. free_sorted p a sz pl = ret pl' \<and> pool_rep n pl' fs hs' \<and>
           map (\<lambda>i. block_of (nodes pl' i)) hs' =
           ins_hole (a, sz) (map (\<lambda>i. block_of (nodes pl i)) (h # ys))"
proof -
  let ?ns = "fill p a sz (nodes pl)"
  have p: "p \<notin> set (h # ys)" "p \<notin> set fs" "set fs \<inter> set (h # ys) = {}" "distinct fs" "distinct (h # ys)"
    and ch: "chain (nexts pl) (Some h) (h # ys)" "phead pl = Some h" "chain (nexts pl) (nexts pl p) fs"
    and un: "insert p (set fs \<union> set (h # ys)) = {..<n}"
    using rep by (auto simp: pool_rep_def)
  have c: "chain (\<lambda>i. h_next (?ns i)) (Some h) (h # ys)" using ch by simp
  have le': "\<not> a < h_addr (?ns h)" using le p by simp
  obtain ws ph vs where ip: "insert_point ?ns a h = ret ph" and hs: "h # ys = ws @ ph # vs"
    and ins: "ins_hole (a, sz) (map (\<lambda>i. block_of (?ns i)) (h # ys)) =
      map (\<lambda>i. block_of (?ns i)) (ws @ [ph]) @ (a, sz) # map (\<lambda>i. block_of (?ns i)) vs"
    by (rule insert_point_split[OF c le'])
  define pl' where "pl' = \<lparr>nodes = set_next ph (Some p) (set_next p (nexts pl ph) ?ns),
     pfree = nexts pl p, phead = Some h\<rparr>"
  have "free_sorted p a sz pl = ret pl'"
    using le ip ch(2) p(1) by (simp add: free_sorted_def Let_def pl'_def)
  moreover have "pool_rep n pl' fs (ws @ ph # p # vs)"
  proof -
    have "chain ((nexts pl)(p := nexts pl ph, ph := Some p)) (Some h) (ws @ ph # p # vs)"
      using p ch(1) unfolding hs by (intro chain_insert_after) simp_all
    moreover have "chain ((nexts pl)(p := nexts pl ph, ph := Some p)) (nexts pl p) fs"
      using ch(3) p unfolding hs by simp
    moreover have "distinct (fs @ ws @ ph # p # vs)" "set (fs @ ws @ ph # p # vs) = {..<n}"
      using p un unfolding hs by auto
    ultimately show ?thesis by (simp add: pool_rep_def pl'_def)
  qed
  moreover have "map (\<lambda>i. block_of (nodes pl' i)) (ws @ ph # p # vs) =
      ins_hole (a, sz) (map (\<lambda>i. block_of (nodes pl i)) (h # ys))"
    using ins unfolding map_block_fill[OF p(1)] by (simp add: pl'_def)
  ultimately show ?thesis by blast
qed

lemma free_sorted_front:
  assumes rep: "pool_rep n pl (p # fs) hs" and gt: "hs = [] \<or> a < h_addr (nodes pl (hd hs))"
  shows "\<exists>pl' hs'. free_sorted p a sz pl = ret pl' \<and> pool_rep n pl' fs hs' \<and>
           map (\<lambda>i. block_of (nodes pl' i)) hs' =
           ins_hole (a, sz) (map (\<lambda>i. block_of (nodes pl i)) hs)"
proof -
  let ?pl = "\<lparr>nodes = set_next p (phead pl) (fill p a sz (nodes pl)), pfree = nexts pl p, phead = Some p\<rparr>"
  have "free_sorted p a sz pl = ret ?pl" and "pool_rep n ?pl fs (p # hs)"
    using rep gt by (cases hs; auto simp: pool_rep_def free_sorted_def Let_def)+
  moreover have "map (\<lambda>i. block_of (nodes ?pl i)) (p # hs) = ins_hole (a, sz) (map (\<lambda>i. block_of (nodes pl i)) hs)"
    using rep gt by (cases hs) (auto simp: pool_rep_def)
  ultimately show ?thesis by blast
qed

lemma free_sorted_rep:
  assumes rep: "pool_rep n pl (p # fs) hs"
  shows "\<exists>pl' hs'. free_sorted p a sz pl = ret pl' \<and> pool_rep n pl' fs hs' \<and>
           map (\<lambda>i. block_of (nodes pl' i)) hs' =
           ins_hole (a, sz) (map (\<lambda>i. block_of (nodes pl i)) hs)"
proof (cases "hs = [] \<or> a < h_addr (nodes pl (hd hs))")
  case True
  with rep show ?thesis by (rule free_sorted_front)
next
  case False
  then obtain h ys where "hs = h # ys" "\<not> a < h_addr (nodes pl h)" by (cases hs) auto
  with rep show ?thesis using free_sorted_middle by blast
qed

lemma free_front_rep:
  assumes "pool_rep n pl (p # fs) hs"
  shows "pool_rep n (free_front p a sz pl) fs (p # hs) \<and>
    map (\<lambda>i. block_of (nodes (free_front p a sz pl) i)) (p # hs) =
    (a, sz) # map (\<lambda>i. block_of (nodes pl i)) hs"
  using assms by (auto simp: pool_rep_def free_front_def Let_def)

text \<open>The three branches of \<^verbatim>\<open>unlink\<close> are one removal from the chain.\<close>

lemma unlink_cut:
  assumes rep: "pool_rep n pl fs (us @ p # vs)"
  defines "fin \<equiv> \<lambda>q. q\<lparr>nodes := set_next p (pfree q) (nodes q), pfree := Some p\<rparr>"
  shows "unlink p pl =
    ret (fin (if us = [] then pl\<lparr>phead := nexts pl p\<rparr>
              else pl\<lparr>nodes := set_next (last us) (nexts pl p) (nodes pl)\<rparr>))"
proof (cases us rule: rev_cases)
  case Nil
  with rep show ?thesis by (simp add: unlink_def pool_rep_def fin_def)
next
  case (snoc ws q)
  from rep have ch: "chain (nexts pl) (phead pl) (us @ p # vs)" and d: "distinct (us @ p # vs)"
    by (auto simp: pool_rep_def)
  have "us \<noteq> []" using snoc by simp
  then obtain h hs where h: "us = h # hs" by (cases us) auto
  have head: "phead pl = Some h" "h \<noteq> p" using ch d h by auto
  show ?thesis
  proof (cases "nexts pl h = Some p")
    case True
    then have "us = [h]" using ch d h by (cases hs) auto
    with True head show ?thesis by (simp add: unlink_def fin_def)
  next
    case False
    have "find_prev (nodes pl) p h = ret (Some q)"
      using ch d snoc head by (intro find_prev_chain[of _ _ ws _ _ vs]) auto
    with False head snoc show ?thesis by (simp add: unlink_def fin_def)
  qed
qed

lemma unlink_rep:
  assumes rep: "pool_rep n pl fs (us @ p # vs)"
  shows "\<exists>pl'. unlink p pl = ret pl' \<and> pool_rep n pl' (p # fs) (us @ vs) \<and>
    (\<forall>i. block_of (nodes pl' i) = block_of (nodes pl i))"
proof (cases us rule: rev_cases)
  case Nil
  with rep show ?thesis unfolding unlink_cut[OF rep] by (auto simp: pool_rep_def)
next
  case (snoc ws q)
  have "chain (nexts pl) (phead pl) (ws @ q # p # vs)" using rep snoc by (simp add: pool_rep_def)
  then have "chain ((nexts pl)(q := nexts pl p)) (phead pl) (ws @ q # vs)"
    by (rule chain_remove_after)
  with rep snoc show ?thesis unfolding unlink_cut[OF rep] by (auto simp: pool_rep_def)
qed

lemma pool_rep_update_block:
  assumes "\<And>i. h_next (ns i) = nexts pl i"
  shows "pool_rep n (pl\<lparr>nodes := ns\<rparr>) fs hs = pool_rep n pl fs hs"
  using assms by (simp add: pool_rep_def)

lemma find_Some_split:
  "find P xs = Some x \<Longrightarrow> \<exists>us vs. xs = us @ x # vs \<and> P x \<and> (\<forall>u \<in> set us. \<not> P u)"
proof (induction xs)
  case Nil
  then show ?case by simp
next
  case (Cons y xs)
  show ?case
  proof (cases "P y")
    case True
    with Cons.prems show ?thesis by force
  next
    case False
    with Cons obtain us vs where "xs = us @ x # vs" "P x" "\<forall>u \<in> set us. \<not> P u" by auto
    with False have "y # xs = (y # us) @ x # vs" "P x" "\<forall>u \<in> set (y # us). \<not> P u" by auto
    then show ?thesis by blast
  qed
qed

lemma fit_first:
  assumes "\<forall>u \<in> set us. h_size (ns u) < sz" "\<not> h_size (ns p) < sz"
  shows "fit dr sz (map (\<lambda>i. block_of (ns i)) (us @ p # vs)) =
    Some (h_addr (ns p), map (\<lambda>i. block_of (ns i)) us @
      (if dr (h_size (ns p) - sz) then map (\<lambda>i. block_of (ns i)) vs
       else (h_addr (ns p) + sz, h_size (ns p) - sz) # map (\<lambda>i. block_of (ns i)) vs))"
  using assms by (simp add: fit_append) (simp add: block_of_def)

lemma carve_rep:
  assumes rep: "pool_rep n pl fs hs"
    and found: "find (\<lambda>i. \<not> h_size (nodes pl i) < sz) hs = Some p"
  shows "\<exists>r pl' fs' hs'. carve dr p sz pl = ret (r, pl') \<and> pool_rep n pl' fs' hs' \<and>
    fit dr sz (map (\<lambda>i. block_of (nodes pl i)) hs) = Some (r, map (\<lambda>i. block_of (nodes pl' i)) hs')"
proof -
  from found obtain us vs where hs: "hs = us @ p # vs" and big: "\<not> h_size (nodes pl p) < sz"
    and small: "\<forall>u \<in> set us. h_size (nodes pl u) < sz" using find_Some_split by force
  have p: "p \<notin> set us" "p \<notin> set vs" using rep by (auto simp: pool_rep_def hs)
  let ?a = "h_addr (nodes pl p)" and ?s = "h_size (nodes pl p) - sz"
  let ?blocks = "\<lambda>pl. map (\<lambda>i. block_of (nodes pl i))"
  have F: "fit dr sz (?blocks pl hs) =
    Some (?a, ?blocks pl us @ (if dr ?s then ?blocks pl vs else (?a + sz, ?s) # ?blocks pl vs))"
    unfolding hs using small big by (rule fit_first)
  define pl1 where "pl1 = pl\<lparr>nodes := (nodes pl)(p := (nodes pl p)\<lparr>h_size := ?s\<rparr>)\<rparr>"
  define bump where "bump = (\<lambda>pl :: pool. pl\<lparr>nodes := (nodes pl)(p := (nodes pl p)\<lparr>h_addr := h_addr (nodes pl p) + sz\<rparr>)\<rparr>)"
  have rep1: "pool_rep n pl1 fs hs" using rep unfolding pl1_def by (subst pool_rep_update_block) auto
  have bump_rep: "pool_rep n (bump q) xs ys = pool_rep n q xs ys" for q xs ys
    unfolding bump_def by (subst pool_rep_update_block) auto
  have blk1: "block_of (nodes pl1 i) = (if i = p then (?a, ?s) else block_of (nodes pl i))" for i
    by (auto simp: pl1_def block_of_def)
  have bump_blk: "?blocks (bump q) xs = ?blocks q xs" if "p \<notin> set xs" for q xs
    using that by (induction xs) (auto simp: bump_def)
  have blk1_list: "?blocks pl1 xs = ?blocks pl xs" if "p \<notin> set xs" for xs
    using that by (induction xs) (auto simp: blk1)
  show ?thesis
  proof (cases "dr ?s")
    case True
    obtain pl2 where pl2: "unlink p pl1 = ret pl2" "pool_rep n pl2 (p # fs) (us @ vs)"
        "\<forall>i. block_of (nodes pl2 i) = block_of (nodes pl1 i)"
      using unlink_rep rep1 unfolding hs by blast
    have "h_addr (nodes pl2 p) = ?a" using pl2(3) blk1[of p] by (metis fst_block_of(1) fst_conv)
    then have "carve dr p sz pl = ret (?a, bump pl2)"
      using True pl2(1) by (simp add: carve_def Let_def bump_def pl1_def)
    moreover have "?blocks (bump pl2) (us @ vs) = ?blocks pl (us @ vs)"
      using p pl2(3) bump_blk[of "us @ vs"] blk1_list[of "us @ vs"] by simp
    then have "fit dr sz (?blocks pl hs) = Some (?a, ?blocks (bump pl2) (us @ vs))"
      using True F by simp
    moreover have "pool_rep n (bump pl2) (p # fs) (us @ vs)" using bump_rep pl2(2) by simp
    ultimately show ?thesis by blast
  next
    case False
    then have "carve dr p sz pl = ret (?a, bump pl1)"
      by (simp add: carve_def Let_def bump_def pl1_def)
    moreover have "?blocks (bump pl1) hs = ?blocks pl us @ (?a + sz, ?s) # ?blocks pl vs"
      using p bump_blk[of us] bump_blk[of vs] blk1_list[of us] blk1_list[of vs]
      by (simp add: hs) (simp add: bump_def pl1_def block_of_def)
    then have "fit dr sz (?blocks pl hs) = Some (?a, ?blocks (bump pl1) hs)"
      using False F by simp
    moreover have "pool_rep n (bump pl1) fs hs" using bump_rep rep1 by simp
    ultimately show ?thesis by blast
  qed
qed

text \<open>The same facts over the invariant and the hole list alone.\<close>

lemma pool_ok_lengths: "pool_ok n pl \<Longrightarrow> length (free_nodes n pl) + length (holes n pl) = n"
  using pool_rep_length pool_okD by (fastforce simp: holes_def)

lemma pool_ok_room:
  assumes "pool_ok n pl" "length (holes n pl) < n"
  obtains p fs where "pfree pl = Some p" "free_nodes n pl = p # fs"
proof -
  from assms pool_ok_lengths have "free_nodes n pl \<noteq> []" by fastforce
  with pool_okD[OF assms(1)] show ?thesis
    by (cases "free_nodes n pl") (auto simp: pool_rep_def intro: that)
qed

lemma pool_ok_full: "pool_ok n pl \<Longrightarrow> length (holes n pl) = n \<Longrightarrow> pfree pl = None"
  using pool_okD[of n pl] pool_ok_lengths[of n pl] by (simp add: pool_rep_def)

lemma init_pool_ok: "0 < n \<Longrightarrow> pool_ok n (init_pool n) \<and> holes n (init_pool n) = []"
  using init_pool_rep[of n] pool_okI holes_rep by fastforce

lemma free_sorted_ok:
  assumes "pool_ok n pl" "pfree pl = Some p"
  shows "\<exists>pl'. free_sorted p a sz pl = ret pl' \<and> pool_ok n pl' \<and>
           holes n pl' = ins_hole (a, sz) (holes n pl)"
proof -
  from pool_okD[OF assms(1)] assms(2) obtain fs where rep: "pool_rep n pl (p # fs) (hole_nodes n pl)"
    unfolding pool_rep_def by (metis chain_Some)
  from free_sorted_rep[OF this, of a sz] obtain pl' hs' where
    "free_sorted p a sz pl = ret pl'" "pool_rep n pl' fs hs'"
    "map (\<lambda>i. block_of (nodes pl' i)) hs' = ins_hole (a, sz) (holes n pl)"
    by (auto simp: holes_def)
  then show ?thesis using pool_okI holes_rep by metis
qed

lemma free_front_ok:
  assumes "pool_ok n pl" "pfree pl = Some p"
  shows "pool_ok n (free_front p a sz pl) \<and>
         holes n (free_front p a sz pl) = (a, sz) # holes n pl"
proof -
  from pool_okD[OF assms(1)] assms(2) obtain fs where rep: "pool_rep n pl (p # fs) (hole_nodes n pl)"
    unfolding pool_rep_def by (metis chain_Some)
  from free_front_rep[OF this, of a sz] show ?thesis
    using pool_okI holes_rep holes_def by metis
qed

lemma first_fit_ok:
  "pool_ok n pl \<Longrightarrow>
   first_fit (nodes pl) sz (phead pl) =
     ret (find (\<lambda>i. \<not> h_size (nodes pl i) < sz) (hole_nodes n pl))"
  using first_fit_chain pool_okD unfolding pool_rep_def by blast

lemma first_fit_none:
  assumes "pool_ok n pl" "fit dr sz (holes n pl) = None"
  shows "first_fit (nodes pl) sz (phead pl) = ret None"
  using assms by (auto simp: first_fit_ok fit_None_iff holes_def find_None_iff)

lemma first_fit_carve:
  assumes ok: "pool_ok n pl" and fits: "fit dr sz (holes n pl) = Some (r, hs)"
  shows "\<exists>p pl'. first_fit (nodes pl) sz (phead pl) = ret (Some p) \<and>
     carve dr p sz pl = ret (r, pl') \<and> pool_ok n pl' \<and> holes n pl' = hs"
proof -
  have "fit dr sz (holes n pl) \<noteq> None" using fits by simp
  then have "find (\<lambda>i. \<not> h_size (nodes pl i) < sz) (hole_nodes n pl) \<noteq> None"
    by (auto simp: fit_None_iff find_None_iff holes_def)
  then obtain p where p: "find (\<lambda>i. \<not> h_size (nodes pl i) < sz) (hole_nodes n pl) = Some p"
    by auto
  from carve_rep[OF pool_okD[OF ok] p, of dr] obtain r' pl' fs' hs' where
    c: "carve dr p sz pl = ret (r', pl')" "pool_rep n pl' fs' hs'"
    "fit dr sz (holes n pl) = Some (r', map (\<lambda>i. block_of (nodes pl' i)) hs')"
    by (auto simp: holes_def)
  then show ?thesis using p ok fits first_fit_ok[OF ok] pool_okI[OF c(2)] holes_rep[OF c(2)] by auto
qed

section \<open>Blocks that do not overlap\<close>

definition blk_end :: "block \<Rightarrow> nat" where
  "blk_end b = unat (fst b) + unat (snd b)"

definition apart :: "block \<Rightarrow> block \<Rightarrow> bool" where
  "apart x y \<longleftrightarrow> blk_end x \<le> unat (fst y) \<or> blk_end y \<le> unat (fst x)"

definition inside :: "block \<Rightarrow> block \<Rightarrow> bool" where
  "inside x y \<longleftrightarrow> unat (fst y) \<le> unat (fst x) \<and> blk_end x \<le> blk_end y"

text \<open>Every block ends inside the address space and no two overlap.\<close>

definition separated :: "block list \<Rightarrow> bool" where
  "separated bs \<longleftrightarrow> (\<forall>b \<in> set bs. blk_end b \<le> 2 ^ 64) \<and> sorted_wrt apart bs"

definition total :: "block list \<Rightarrow> nat" where
  "total bs = sum_list (map (\<lambda>b. unat (snd b)) bs)"

lemma apart_sym: "apart x y \<Longrightarrow> apart y x"
  by (auto simp: apart_def)

lemma apart_inside: "apart x y \<Longrightarrow> inside z x \<Longrightarrow> apart z y"
  by (auto simp: apart_def inside_def)

lemma separated_Cons:
  "separated (x # xs) \<longleftrightarrow> blk_end x \<le> 2 ^ 64 \<and> (\<forall>y \<in> set xs. apart x y) \<and> separated xs"
  by (auto simp: separated_def)

lemma separated_append:
  "separated (xs @ ys) \<longleftrightarrow> separated xs \<and> separated ys \<and> (\<forall>x \<in> set xs. \<forall>y \<in> set ys. apart x y)"
  by (auto simp: separated_def sorted_wrt_append)

lemma separated_mset: "mset xs = mset ys \<Longrightarrow> separated xs \<Longrightarrow> separated ys"
proof (induction xs arbitrary: ys)
  case Nil
  then show ?case by simp
next
  case (Cons x xs)
  then have "x \<in> set ys" by (metis list.set_intros(1) set_mset_mset)
  then obtain us vs where ys: "ys = us @ x # vs" by (auto simp: in_set_conv_decomp)
  with Cons.prems have m: "mset xs = mset (us @ vs)" by simp
  then have "set xs = set (us @ vs)" by (metis set_mset_mset)
  moreover have "separated (us @ vs)" using Cons.IH[OF m] Cons.prems by (simp add: separated_Cons)
  ultimately show ?case using Cons.prems(2) apart_sym
    by (simp add: ys separated_Cons separated_append ball_Un)
qed

lemma ins_hole_mset: "mset (ins_hole x hs) = add_mset x (mset hs)"
proof -
  have "mset (ins_tail x zs) = add_mset x (mset zs)" for zs
    by (induction zs) auto
  then show ?thesis by (cases hs) auto
qed

lemma sub_block:
  assumes "\<not> s < sz" "blk_end (a, s) \<le> 2 ^ 64"
  shows "unat (s - sz) = unat s - unat sz" "inside (a, sz) (a, s)"
    "s - sz \<noteq> 0 \<Longrightarrow> unat (a + sz) = unat a + unat sz"
proof -
  have le: "unat sz \<le> unat s" using assms(1) by (simp add: word_less_nat_alt)
  then show u: "unat (s - sz) = unat s - unat sz" by (simp add: unat_sub word_le_nat_alt)
  show "inside (a, sz) (a, s)" using le by (simp add: inside_def blk_end_def)
  assume "s - sz \<noteq> 0"
  then have "unat sz < unat s" using u by (metis diff_is_0_eq' leI unat_eq_0)
  with assms(2) show "unat (a + sz) = unat a + unat sz"
    by (simp add: blk_end_def unat_word_ariths)
qed

lemma rest_block:
  assumes "\<not> s < sz" "blk_end (a, s) \<le> 2 ^ 64" "s - sz \<noteq> 0"
  shows "inside (a + sz, s - sz) (a, s)" "apart (a, sz) (a + sz, s - sz)"
  using sub_block[OF assms(1,2)] sub_block(3)[OF assms(1,2)] assms(1,3)
  by (auto simp: inside_def apart_def blk_end_def word_less_nat_alt)

lemma fit_inside:
  assumes "fit dr sz hs = Some (r, hs')" "\<forall>b \<in> set hs. blk_end b \<le> 2 ^ 64" "dr 0"
  shows "(\<exists>h \<in> set hs. inside (r, sz) h) \<and> (\<forall>h' \<in> set hs'. \<exists>h \<in> set hs. inside h' h)"
  using assms(1,2)
proof (induction hs arbitrary: hs')
  case Nil
  then show ?case by simp
next
  case (Cons b hs)
  obtain a s where b: "b = (a, s)" by (cases b)
  have self: "inside h h" for h by (simp add: inside_def)
  show ?case
  proof (cases "s < sz")
    case True
    with Cons.prems b obtain hs1 where f: "fit dr sz hs = Some (r, hs1)" "hs' = b # hs1" by auto
    from Cons.IH[OF f(1)] Cons.prems(2) f(2) self show ?thesis by auto
  next
    case False
    then have "r = a" "hs' = (if dr (s - sz) then hs else (a + sz, s - sz) # hs)"
      using Cons.prems b by auto
    moreover have "inside (a, sz) (a, s)" using sub_block(2)[OF False] Cons.prems b by simp
    moreover have "inside (a + sz, s - sz) (a, s)" if "\<not> dr (s - sz)"
      using rest_block(1)[OF False] that Cons.prems b assms(3) by (metis list.set_intros(1))
    ultimately show ?thesis using self b by auto
  qed
qed

lemma fit_separated:
  assumes "fit dr sz hs = Some (r, hs')" "separated hs" "dr 0"
  shows "separated ((r, sz) # hs')"
  using assms(1,2)
proof (induction hs arbitrary: hs')
  case Nil
  then show ?case by simp
next
  case (Cons b hs)
  obtain a s where b: "b = (a, s)" by (cases b)
  have bnd: "\<forall>b \<in> set hs. blk_end b \<le> 2 ^ 64" "blk_end (a, s) \<le> 2 ^ 64"
    using Cons.prems(2) b by (auto simp: separated_def)
  have bh: "\<forall>y \<in> set hs. apart (a, s) y" "separated hs" using Cons.prems(2) b by (simp_all add: separated_Cons)
  have ap: "apart h y" if "inside h (a, s)" "y \<in> set hs" for h y
    using that bh(1) by (blast intro: apart_inside)
  show ?case
  proof (cases "s < sz")
    case True
    with Cons.prems b obtain hs1 where f: "fit dr sz hs = Some (r, hs1)" "hs' = b # hs1" by auto
    have IH: "separated ((r, sz) # hs1)" using Cons f by (simp add: separated_Cons)
    have "apart x b" if x: "x = (r, sz) \<or> x \<in> set hs1" for x
    proof -
      obtain h where "h \<in> set hs" "inside x h" using fit_inside[OF f(1) bnd(1) assms(3)] x by metis
      then have "apart h b" using bh(1) b apart_sym by blast
      then show ?thesis using \<open>inside x h\<close> by (rule apart_inside)
    qed
    then have "apart (r, sz) b" "\<forall>y \<in> set hs1. apart b y" using apart_sym by blast+
    then show ?thesis using IH f(2) bnd(2) b by (simp add: separated_Cons)
  next
    case False
    then have r: "r = a" "hs' = (if dr (s - sz) then hs else (a + sz, s - sz) # hs)"
      using Cons.prems b by auto
    have i: "inside (a, sz) (a, s)" using sub_block(2)[OF False bnd(2)] .
    have bd: "blk_end h \<le> 2 ^ 64" if "inside h (a, s)" for h
      using that bnd(2) by (simp add: inside_def)
    show ?thesis
    proof (cases "dr (s - sz)")
      case True
      with r bh ap[OF i] bd[OF i] show ?thesis by (simp add: separated_Cons)
    next
      case dr: False
      then have "s - sz \<noteq> 0" using assms(3) by metis
      note rest = rest_block[OF False bnd(2) this]
      with dr r bh ap[OF i] bd[OF i] ap[OF rest(1)] bd[OF rest(1)] show ?thesis
        by (simp add: separated_Cons)
    qed
  qed
qed

text \<open>
  The use of both: the block that first fit hands out overlaps neither a block already handed out
  nor what is left.
\<close>

lemma fit_live:
  assumes "fit dr sz hs = Some (r, hs')" "separated (live @ hs)" "dr 0"
  shows "separated ((r, sz) # live @ hs')"
proof -
  have sep: "separated hs" "separated live" "\<forall>x \<in> set live. \<forall>y \<in> set hs. apart x y"
    using assms(2) by (auto simp: separated_append)
  then have "\<forall>b \<in> set hs. blk_end b \<le> 2 ^ 64" by (simp add: separated_def)
  note ins = fit_inside[OF assms(1) this assms(3)]
  have ap: "apart x l" if x: "x = (r, sz) \<or> x \<in> set hs'" and l: "l \<in> set live" for x l
  proof -
    obtain h where "h \<in> set hs" "inside x h" using ins x by metis
    then have "apart h l" using sep(3) l apart_sym by blast
    then show ?thesis using \<open>inside x h\<close> by (rule apart_inside)
  qed
  then have "\<forall>x \<in> set live. \<forall>y \<in> set hs'. apart x y" using apart_sym by blast
  with fit_separated[OF assms(1) sep(1) assms(3)] sep(2) ap show ?thesis
    by (simp add: separated_Cons separated_append ball_Un)
qed

lemma fit_total:
  assumes "fit dr sz hs = Some (r, hs')" "\<And>x. dr x \<Longrightarrow> unat x \<le> k"
  shows "total hs' + unat sz \<le> total hs \<and> total hs \<le> total hs' + unat sz + k"
  using assms(1)
proof (induction hs arbitrary: hs')
  case Nil
  then show ?case by simp
next
  case (Cons b hs)
  obtain a s where b: "b = (a, s)" by (cases b)
  show ?case
  proof (cases "s < sz")
    case True
    with Cons b show ?thesis by (auto simp: total_def)
  next
    case False
    then have "unat sz \<le> unat s" "unat (s - sz) = unat s - unat sz"
      by (simp_all add: unat_sub word_le_nat_alt word_less_nat_alt)
    with False Cons.prems b assms(2)[of "s - sz"] show ?thesis
      by (auto simp: total_def split: if_splits)
  qed
qed

section \<open>Address order\<close>

lemma ins_hole_sorted: "sorted (map fst hs) \<Longrightarrow> sorted (map fst (ins_hole x hs))"
proof -
  have tail: "sorted (map fst (ins_tail x zs)) \<and> set (ins_tail x zs) = insert x (set zs)"
    if "sorted (map fst zs)" for zs
    using that by (induction zs) auto
  assume "sorted (map fst hs)"
  then show ?thesis using tail by (cases hs) auto
qed

lemma fit_lowest:
  assumes "fit dr sz hs = Some (r, hs')" "sorted (map fst hs)" "h \<in> set hs" "\<not> snd h < sz"
  shows "r \<le> fst h"
  using assms
proof (induction hs arbitrary: hs')
  case Nil
  then show ?case by simp
next
  case (Cons b hs)
  then show ?case by (cases b) (auto split: if_splits)
qed

lemma fit_sorted:
  assumes "fit dr sz hs = Some (r, hs')" "sorted (map fst hs)" "separated hs" "dr 0"
    and "\<forall>h \<in> set hs. snd h \<noteq> 0"
  shows "sorted (map fst hs') \<and> fst ` set hs \<supseteq> {r} \<and> (\<forall>h' \<in> set hs'. \<exists>h \<in> set hs. fst h \<le> fst h')"
  using assms(1,2,3,5)
proof (induction hs arbitrary: hs')
  case Nil
  then show ?case by simp
next
  case (Cons b hs)
  obtain a s where b: "b = (a, s)" by (cases b)
  show ?case
  proof (cases "s < sz")
    case True
    with Cons.prems b obtain hs1 where f: "fit dr sz hs = Some (r, hs1)" "hs' = b # hs1" by auto
    have IH: "sorted (map fst hs1) \<and> fst ` set hs \<supseteq> {r} \<and> (\<forall>h' \<in> set hs1. \<exists>h \<in> set hs. fst h \<le> fst h')"
      using Cons f(1) by (simp add: separated_Cons)
    have "fst b \<le> fst h'" if "h' \<in> set hs1" for h'
      using that IH Cons.prems(2) by (metis (no_types, lifting) image_eqI list.set_map list.simps(9) order_trans sorted_simps(2))
    then show ?thesis using IH f(2) by auto
  next
    case False
    have bnd: "blk_end (a, s) \<le> 2 ^ 64" using Cons.prems(3) b by (simp add: separated_Cons)
    have "a + sz \<le> fst h \<and> a \<le> a + sz" if "h \<in> set hs" "s - sz \<noteq> 0" for h
    proof -
      have le: "a \<le> fst h" "apart (a, s) h" "snd h \<noteq> 0" using Cons.prems b that by (auto simp: separated_Cons)
      have "unat (a + sz) = unat a + unat sz" using sub_block(3)[OF False bnd] that by simp
      then show ?thesis using le False
        by (cases h) (auto simp: apart_def blk_end_def word_le_nat_alt word_less_nat_alt unat_gt_0[symmetric])
    qed
    moreover have "dr (s - sz) \<or> s - sz \<noteq> 0" using assms(4) by metis
    moreover have "a \<le> a + sz" if "s - sz \<noteq> 0"
      using sub_block(3)[OF False bnd that] by (simp add: word_le_nat_alt)
    ultimately show ?thesis using Cons.prems b False by (auto split: if_splits)
  qed
qed

section \<open>The contract of a source of blocks\<close>

text \<open>
  What the clients of an allocator rely on: a request hands out a block that overlaps neither what
  other clients hold nor what the allocator keeps, and a release takes nothing but the block it is
  given. A result of 0 is a failed request. The state, the requests and the releases are
  parameters, so that the same client argument serves the kernel heaps and the linear address
  space.
\<close>

locale block_source =
  fixes ok :: "'s \<Rightarrow> bool" and space :: "'s \<Rightarrow> block list"
    and acquire :: "'q \<Rightarrow> 's \<Rightarrow> (u64 \<times> 's) kres" and len :: "'q \<Rightarrow> u64"
    and release :: "'f \<Rightarrow> 's \<Rightarrow> 's kres" and blk :: "'f \<Rightarrow> block"
  assumes acquire_ok: "ok s \<Longrightarrow> acquire q s = ret (r, s') \<Longrightarrow> ok s'"
    and acquire_sep: "ok s \<Longrightarrow> acquire q s = ret (r, s') \<Longrightarrow> separated (live @ space s) \<Longrightarrow>
      separated ((if r = 0 then [] else [(r, len q)]) @ live @ space s')"
    and release_ok: "ok s \<Longrightarrow> release f s = ret s' \<Longrightarrow> ok s'"
    and release_sep: "ok s \<Longrightarrow> release f s = ret s' \<Longrightarrow> separated (blk f # live @ space s) \<Longrightarrow>
      separated (live @ space s')"

text \<open>
  A run of calls from a start state, with the blocks that the clients hold: a request adds its
  block, a release gives back a block that is held.
\<close>

inductive block_run ::
  "('q \<Rightarrow> 's \<Rightarrow> (u64 \<times> 's) kres) \<Rightarrow> ('q \<Rightarrow> u64) \<Rightarrow> ('f \<Rightarrow> 's \<Rightarrow> 's kres) \<Rightarrow> ('f \<Rightarrow> block) \<Rightarrow>
   's \<Rightarrow> block list \<Rightarrow> 's \<Rightarrow> block list \<Rightarrow> bool"
  for acquire len release blk s0 live0 where
  start: "block_run acquire len release blk s0 live0 s0 live0"
| failed: "block_run acquire len release blk s0 live0 s live \<Longrightarrow> acquire q s = ret (0, s') \<Longrightarrow>
    block_run acquire len release blk s0 live0 s' live"
| got: "block_run acquire len release blk s0 live0 s live \<Longrightarrow> acquire q s = ret (r, s') \<Longrightarrow>
    r \<noteq> 0 \<Longrightarrow> block_run acquire len release blk s0 live0 s' ((r, len q) # live)"
| gave: "block_run acquire len release blk s0 live0 s (us @ blk f # vs) \<Longrightarrow>
    release f s = ret s' \<Longrightarrow> block_run acquire len release blk s0 live0 s' (us @ vs)"

context block_source
begin

lemma run_separated:
  assumes "block_run acquire len release blk s0 live0 s live"
    and "ok s0" "separated (live0 @ space s0)"
  shows "ok s \<and> separated (live @ space s)"
  using assms
proof (induction rule: block_run.induct)
  case start
  then show ?case by simp
next
  case (failed s live q s')
  then show ?case using acquire_ok[of s q 0 s'] acquire_sep[of s q 0 s' live] by simp
next
  case (got s live q r s')
  then show ?case using acquire_ok[of s q r s'] acquire_sep[of s q r s' live] by simp
next
  case (gave s us f vs s')
  then have ok: "ok s" and sep: "separated ((us @ blk f # vs) @ space s)" by auto
  have "mset ((us @ blk f # vs) @ space s) = mset (blk f # (us @ vs) @ space s)" by simp
  then have "separated (blk f # (us @ vs) @ space s)" using sep by (rule separated_mset)
  with ok gave(2) show ?case using release_ok release_sep by blast
qed

lemma run_apart:
  assumes "block_run acquire len release blk s0 live0 s live"
    and "ok s0" "separated (live0 @ space s0)" "i < j" "j < length live"
  shows "apart (live ! i) (live ! j)"
proof -
  have "separated live" using run_separated[OF assms(1-3)] by (simp add: separated_append)
  with assms(4,5) show ?thesis by (simp add: separated_def sorted_wrt_iff_nth_less)
qed

end

end
