(* ===== verification/Phymem.thy ===== *)
theory Phymem
  imports Spinlock
begin

text \<open>
  The allocator of 2 MB physical pages, arch/x86_64/phymem.c: a bitmap with one bit per page, set
  while the page is free, a cursor into it and a count of free pages. The module's static
  variables are the fields of the record \<open>phymem\<close>; the pointers \<^verbatim>\<open>pnow\<close> and \<^verbatim>\<open>pmax\<close> into the
  bitmap are word indices from \<^verbatim>\<open>pgbits\<close>.
\<close>

definition PAGE_SIZE :: u64 where
  "PAGE_SIZE = 0x200000"

record phymem =
  pgbits :: bitmap
  pmax :: nat
  pnow :: nat
  nowbit :: u64
  maxbits :: u64
  pages :: u64
  max_phy_addr :: u64

section \<open>The operations\<close>

text \<open>The loop \<^verbatim>\<open>while (++pnow < lim) if (*pnow) return pnow\<close>: the final cursor and whether it found a word.\<close>

function scan_words :: "bitmap \<Rightarrow> nat \<Rightarrow> nat \<Rightarrow> (nat \<times> bool) kres" where
  "scan_words m lim i =
     (if Suc i < lim
      then kbind (aget m (Suc i)) (\<lambda>w. if w \<noteq> 0 then ret (Suc i, True) else scan_words m lim (Suc i))
      else ret (Suc i, False))"
  by pat_completeness auto
termination
  by (relation "measure (\<lambda>(m, lim, i). lim - i)") auto

declare scan_words.simps [simp del]

definition get_none_zero :: "phymem \<Rightarrow> (nat option \<times> phymem) kres" where
  "get_none_zero s =
     kbind (aget (pgbits s) (pnow s)) (\<lambda>w.
       if w \<noteq> 0 then ret (Some (pnow s), s)
       else kbind (scan_words (pgbits s) (pmax s) (pnow s)) (\<lambda>(i, found).
         if found then ret (Some i, s\<lparr>pnow := i\<rparr>)
         else kbind (aget (pgbits s) 0) (\<lambda>w0.
           if w0 \<noteq> 0 then ret (Some 0, s\<lparr>pnow := 0\<rparr>)
           else kbind (scan_words (pgbits s) (pnow s) 0) (\<lambda>(j, found).
             ret (if found then Some j else None, s\<lparr>pnow := j\<rparr>)))))"

text \<open>
  \<^verbatim>\<open>ffs\<close> takes an \<^verbatim>\<open>int\<close>, so the 64-bit bitmap word is truncated to its low half; the bit it
  clears is bit \<open>pos\<close> of word \<open>p\<close>, that is bit \<open>64 p + pos\<close> of the bitmap.
\<close>

partial_function (option) alloc_phy_page :: "phymem \<Rightarrow> (u64 \<times> phymem) kres" where
  "alloc_phy_page s =
     (if pages s = 0 then ret (0, s)
      else kbind (get_none_zero s) (\<lambda>(p, s1).
        case p of
          None \<Rightarrow> ret (0, s1)
        | Some p \<Rightarrow>
            kbind (aget (pgbits s1) p) (\<lambda>w.
              if ffs (ucast w) \<le> 0 then alloc_phy_page s1
              else kbind (test_and_clear_bit (64 * p + nat (ffs (ucast w) - 1)) (pgbits s1))
                (\<lambda>(old, m).
                  if old
                  then ret (PAGE_SIZE * of_int (ffs (ucast w) - 1 + int p * 64),
                            s1\<lparr>pgbits := m, pages := pages s1 - 1\<rparr>)
                  else alloc_phy_page (s1\<lparr>pgbits := m\<rparr>)))))"

definition free_phy_one_page :: "u64 \<Rightarrow> phymem \<Rightarrow> phymem kres" where
  "free_phy_one_page addr s =
     (if addr = 0 then ret s
      else kbind (kassert (addr AND (PAGE_SIZE - 1) = 0 \<and> addr < max_phy_addr s) ''free_phy_one_page'')
        (\<lambda>_. kbind (test_and_set_bit (unat (addr div PAGE_SIZE)) (pgbits s)) (\<lambda>(old, m).
           ret (if old then s\<lparr>pgbits := m\<rparr> else s\<lparr>pgbits := m, pages := pages s + 1\<rparr>))))"

partial_function (option) free_pages_loop :: "u64 \<Rightarrow> u64 \<Rightarrow> phymem \<Rightarrow> phymem kres" where
  "free_pages_loop pos sz s =
     (if sz > 0
      then kbind (test_and_set_bit (unat pos) (pgbits s)) (\<lambda>(old, m).
        free_pages_loop (pos + 1) (sz - PAGE_SIZE)
          (if old then s\<lparr>pgbits := m\<rparr> else s\<lparr>pgbits := m, pages := pages s + 1\<rparr>))
      else ret s)"

definition free_phy_pages :: "u64 \<Rightarrow> u64 \<Rightarrow> phymem \<Rightarrow> phymem kres" where
  "free_phy_pages addr sz s =
     (if addr = 0 then ret s
      else kbind (kassert (addr AND (PAGE_SIZE - 1) = 0 \<and> addr < max_phy_addr s) ''free_phy_pages'')
        (\<lambda>_. kbind (kassert (sz AND (PAGE_SIZE - 1) = 0) ''free_phy_pages size'')
          (\<lambda>_. free_pages_loop (addr div PAGE_SIZE) sz s)))"

text \<open>
  The bitmap that \<^verbatim>\<open>init_phy_mem\<close> allocates has \<^verbatim>\<open>bits / 8 + 8\<close> bytes, all zero: no page is free
  until the memory map is read.
\<close>

definition init_phy_bits :: "u64 \<Rightarrow> phymem" where
  "init_phy_bits max_addr =
     (let bits = max_addr div PAGE_SIZE; sz = bits div 8 + 8 in
      \<lparr>pgbits = replicate (unat (sz div 8)) 0, pmax = unat (bits div 64), pnow = 0, nowbit = 0,
       maxbits = bits, pages = 0, max_phy_addr = max_addr\<rparr>)"

section \<open>The invariant\<close>

text \<open>
  The bitmap has the words the limits say, the cursor is inside it, page 0 is never free, no free
  page lies beyond the memory and the count is the number of set bits. A machine with less than 64 pages (128 MB) has \<open>pmax = 0\<close>,
  where a failed search leaves the cursor behind the bitmap; the invariant asks for more.
\<close>

definition free_set :: "phymem \<Rightarrow> nat set" where
  "free_set s = bits_of (pgbits s)"

definition phy_ok :: "phymem \<Rightarrow> bool" where
  "phy_ok s \<longleftrightarrow>
     pmax s = unat (max_phy_addr s) div unat PAGE_SIZE div 64 \<and> 1 \<le> pmax s \<and>
     length (pgbits s) = Suc (pmax s) \<and> pnow s \<le> pmax s \<and> 0 \<notin> free_set s \<and>
     (\<forall>i \<in> free_set s. 0x200000 * i < unat (max_phy_addr s)) \<and>
     unat (pages s) = card (free_set s)"

lemma unat_PAGE_SIZE [simp]: "unat PAGE_SIZE = 0x200000"
  by (simp add: PAGE_SIZE_def)

lemma PAGE_SIZE_nonzero [simp]: "PAGE_SIZE \<noteq> 0"
  by (simp add: PAGE_SIZE_def)

lemma page_mask: "PAGE_SIZE - 1 = mask 21"
  by (simp add: PAGE_SIZE_def mask_eq_exp_minus_1)

lemma page_aligned_iff: "x AND (PAGE_SIZE - 1) = 0 \<longleftrightarrow> 0x200000 dvd unat x"
  unfolding page_mask and_mask_eq_0 by simp

lemma phy_ok_lengths:
  assumes "phy_ok s"
  shows "length (pgbits s) = Suc (pmax s)" "pnow s < length (pgbits s)" "0 < pmax s"
  using assms by (auto simp: phy_ok_def)

lemma pmax_bound: "phy_ok s \<Longrightarrow> pmax s < 2 ^ 37"
  using unsigned_less[where ?'b = 64 and ?'a = nat, of "max_phy_addr s"] by (simp add: phy_ok_def less_mult_imp_div_less)

lemma phy_ok_pnow: "phy_ok s \<Longrightarrow> i \<le> pmax s \<Longrightarrow> phy_ok (s\<lparr>pnow := i\<rparr>)"
  by (simp add: phy_ok_def free_set_def)

lemma free_set_pnow [simp]: "free_set (s\<lparr>pnow := i\<rparr>) = free_set s"
  by (simp add: free_set_def)

lemma free_set_page_lt: "phy_ok s \<Longrightarrow> i \<in> free_set s \<Longrightarrow> i < 2 ^ 43"
  using pmax_bound[of s] bits_of_bound[of i "pgbits s"] phy_ok_lengths(1)[of s]
  by (simp add: free_set_def)

lemma pages_zero_iff: "phy_ok s \<Longrightarrow> pages s = 0 \<longleftrightarrow> free_set s = {}"
  by (metis card_0_eq bits_of_finite free_set_def phy_ok_def unat_eq_0)

section \<open>Searching the bitmap\<close>

lemma scan_words_spec:
  assumes "lim \<le> length m"
  shows "\<exists>j b. scan_words m lim i = ret (j, b) \<and> i < j \<and>
     (b \<longrightarrow> j < lim \<and> m ! j \<noteq> 0) \<and>
     (\<not> b \<longrightarrow> j = max (Suc i) lim \<and> (\<forall>k. i < k \<and> k < lim \<longrightarrow> m ! k = 0))"
  using assms
proof (induction m lim i rule: scan_words.induct)
  case (1 m lim i)
  show ?case
  proof (cases "Suc i < lim \<and> m ! Suc i = 0")
    case True
    with 1 obtain j b where "scan_words m lim (Suc i) = ret (j, b)" "Suc i < j"
      "b \<longrightarrow> j < lim \<and> m ! j \<noteq> 0"
      "\<not> b \<longrightarrow> j = max (Suc (Suc i)) lim \<and> (\<forall>k. Suc i < k \<and> k < lim \<longrightarrow> m ! k = 0)"
      by auto
    moreover have "scan_words m lim i = scan_words m lim (Suc i)"
      using True 1(2) by (simp add: scan_words.simps[of m lim i])
    moreover have "m ! k = 0" if "\<forall>k. Suc i < k \<and> k < lim \<longrightarrow> m ! k = 0" "i < k" "k < lim" for k
      using that True by (cases "k = Suc i") auto
    ultimately show ?thesis using True by (intro exI[of _ j] exI[of _ b]) auto
  next
    case False
    then show ?thesis
    proof (cases "Suc i < lim")
      case True
      with False 1(2) have "scan_words m lim i = ret (Suc i, True)"
        by (simp add: scan_words.simps[of m lim i])
      with True False show ?thesis by auto
    next
      case False
      then have "scan_words m lim i = ret (Suc i, False)"
        by (simp add: scan_words.simps[of m lim i])
      with False show ?thesis by (intro exI[of _ "Suc i"] exI[of _ False]) auto
    qed
  qed
qed

lemma get_none_zero_spec:
  assumes "phy_ok s"
  obtains (found) p where "get_none_zero s = ret (Some p, s\<lparr>pnow := p\<rparr>)" "p \<le> pmax s"
      "pgbits s ! p \<noteq> 0" "p = pnow s \<or> p < pmax s" "pgbits s ! pnow s \<noteq> 0 \<longrightarrow> p = pnow s"
    | (exhausted) p where "get_none_zero s = ret (None, s\<lparr>pnow := p\<rparr>)" "p \<le> pmax s"
      "\<forall>k < pmax s. pgbits s ! k = 0"
proof -
  let ?m = "pgbits s"
  have len: "length ?m = Suc (pmax s)" and pn: "pnow s \<le> pmax s" "1 \<le> pmax s"
    using assms by (auto simp: phy_ok_def)
  show ?thesis
  proof (cases "?m ! pnow s = 0")
    case False
    then show ?thesis
      using found[of "pnow s"] pn len by (simp add: get_none_zero_def)
  next
    case z0: True
    obtain j b where sc: "scan_words ?m (pmax s) (pnow s) = ret (j, b)" "pnow s < j"
      "b \<longrightarrow> j < pmax s \<and> ?m ! j \<noteq> 0"
      "\<not> b \<longrightarrow> (\<forall>k. pnow s < k \<and> k < pmax s \<longrightarrow> ?m ! k = 0)"
      using scan_words_spec[of "pmax s" ?m "pnow s"] len by auto
    show ?thesis
    proof (cases b)
      case True
      then show ?thesis using found[of j] z0 sc pn len by (simp add: get_none_zero_def)
    next
      case nb: False
      show ?thesis
      proof (cases "?m ! 0 = 0")
        case False
        then show ?thesis using found[of 0] z0 nb sc pn len by (simp add: get_none_zero_def)
      next
        case z1: True
        obtain j' b' where sc': "scan_words ?m (pnow s) 0 = ret (j', b')" "0 < j'"
          "b' \<longrightarrow> j' < pnow s \<and> ?m ! j' \<noteq> 0"
          "\<not> b' \<longrightarrow> j' = max 1 (pnow s) \<and> (\<forall>k. 0 < k \<and> k < pnow s \<longrightarrow> ?m ! k = 0)"
          using scan_words_spec[of "pnow s" ?m 0] len pn by auto
        have eq: "get_none_zero s = ret (if b' then Some j' else None, s\<lparr>pnow := j'\<rparr>)"
          using z0 nb sc(1) z1 sc'(1) len pn by (simp add: get_none_zero_def)
        show ?thesis
        proof (cases b')
          case True
          then show ?thesis using found[of j'] eq sc' z0 pn by simp
        next
          case False
          have "?m ! k = 0" if "k < pmax s" for k
            using that sc(4) sc'(4) nb False z0 z1
            by (cases "k = 0"; cases "k < pnow s"; cases "k = pnow s") auto
          then show ?thesis using exhausted[of j'] eq False sc'(4) pn by simp
        qed
      qed
    qed
  qed
qed

section \<open>Allocating a page\<close>

lemma ucast_low_bit: "(ucast (w :: u64) :: u32) \<noteq> 0 \<longleftrightarrow> (\<exists>i < 32. bit w i)"
  by (auto simp: bit_eq_iff[where 'a = u32] bit_ucast_iff)

lemma alloc_step_found:
  assumes ok: "phy_ok s" and "pages s \<noteq> 0"
    and g: "get_none_zero s = ret (Some p, s\<lparr>pnow := p\<rparr>)" and p: "p \<le> pmax s"
    and low: "(ucast (pgbits s ! p) :: u32) \<noteq> 0"
  shows "\<exists>i m'. 64 * p + i \<in> free_set s \<and> i < 32 \<and> bits_of m' = free_set s - {64 * p + i} \<and>
     length m' = length (pgbits s) \<and>
     alloc_phy_page s = ret (PAGE_SIZE * of_nat (64 * p + i),
       s\<lparr>pnow := p, pgbits := m', pages := pages s - 1\<rparr>)"
proof -
  let ?w = "pgbits s ! p"
  let ?l = "ucast ?w :: u32"
  obtain i where i: "bsf ?l = Some i" using low by (cases "bsf ?l") auto
  then have f: "ffs ?l = int i + 1" by (simp add: ffs_def)
  have "i < 32" using bsf_lt[OF i] by simp
  moreover have "bit ?w i" using i \<open>i < 32\<close> by (auto simp: bsf_Some bit_ucast_iff)
  moreover have len: "p < length (pgbits s)" using p phy_ok_lengths(1)[OF ok] by simp
  ultimately have mem: "64 * p + i \<in> free_set s"
    by (simp add: free_set_def bits_of_def)
  have "64 * p + i < 64 * length (pgbits s)" using \<open>i < 32\<close> len by linarith
  from test_and_clear_bit_in[OF this] mem obtain m' where
    m': "test_and_clear_bit (64 * p + i) (pgbits s) = ret (True, m')"
      "bits_of m' = free_set s - {64 * p + i}" "length m' = length (pgbits s)"
    by (auto simp: free_set_def)
  have "(of_int (int i + int p * 64) :: u64) = of_nat (64 * p + i)"
    by (simp add: algebra_simps)
  then have "alloc_phy_page s = ret (PAGE_SIZE * of_nat (64 * p + i),
       s\<lparr>pnow := p, pgbits := m', pages := pages s - 1\<rparr>)"
    using assms(2) g len f m'(1)
    by (subst alloc_phy_page.simps) (simp add: algebra_simps)
  with mem \<open>i < 32\<close> m' show ?thesis by blast
qed

lemma alloc_step_exhausted:
  assumes "pages s \<noteq> 0" and "get_none_zero s = ret (None, s')"
  shows "alloc_phy_page s = ret (0, s')"
  using assms by (subst alloc_phy_page.simps) simp

lemma alloc_step_empty: "pages s = 0 \<Longrightarrow> alloc_phy_page s = ret (0, s)"
  by (subst alloc_phy_page.simps) simp

lemma get_none_zero_here:
  "pnow s < length (pgbits s) \<Longrightarrow> pgbits s ! pnow s \<noteq> 0 \<Longrightarrow> get_none_zero s = ret (Some (pnow s), s)"
  by (simp add: get_none_zero_def)

text \<open>
  A word whose set bits are all in its high half is found again and again: \<^verbatim>\<open>ffs\<close> of the
  truncated word is 0, the loop continues, and nothing has changed.
\<close>

lemma alloc_step_spins:
  assumes "pages s \<noteq> 0" and "get_none_zero s = ret (Some p, s\<lparr>pnow := p\<rparr>)"
    and "p < length (pgbits s)" and "pgbits s ! p \<noteq> 0" and "(ucast (pgbits s ! p) :: u32) = 0"
  shows "alloc_phy_page s = None"
proof (rule ccontr)
  define stuck where "stuck s \<longleftrightarrow> pages s \<noteq> 0 \<and> (\<exists>p. get_none_zero s = ret (Some p, s\<lparr>pnow := p\<rparr>) \<and>
    p < length (pgbits s) \<and> pgbits s ! p \<noteq> 0 \<and> (ucast (pgbits s ! p) :: u32) = 0)" for s
  assume "alloc_phy_page s \<noteq> None"
  then obtain r where "alloc_phy_page s = Some r" by auto
  then have "\<not> stuck s"
  proof (rule alloc_phy_page.raw_induct[where P = "\<lambda>s r. \<not> stuck s", rotated])
    fix f :: "phymem \<Rightarrow> (u64 \<times> phymem) kres" and s r
    assume IH: "\<And>s r. f s = Some r \<Longrightarrow> \<not> stuck s"
      and step: "(if pages s = 0 then ret (0, s)
        else kbind (get_none_zero s) (\<lambda>(p, s1). case p of None \<Rightarrow> ret (0, s1)
          | Some p \<Rightarrow> kbind (aget (pgbits s1) p) (\<lambda>w. if ffs (ucast w) \<le> 0 then f s1
              else kbind (test_and_clear_bit (64 * p + nat (ffs (ucast w) - 1)) (pgbits s1))
                (\<lambda>(old, m). if old then ret (PAGE_SIZE * of_int (ffs (ucast w) - 1 + int p * 64),
                     s1\<lparr>pgbits := m, pages := pages s1 - 1\<rparr>)
                   else f (s1\<lparr>pgbits := m\<rparr>))))) = Some r"
    show "\<not> stuck s"
    proof
      assume "stuck s"
      then obtain p where p: "pages s \<noteq> 0" "get_none_zero s = ret (Some p, s\<lparr>pnow := p\<rparr>)"
        "p < length (pgbits s)" "pgbits s ! p \<noteq> 0" "(ucast (pgbits s ! p) :: u32) = 0"
        by (auto simp: stuck_def)
      have "ffs (ucast (pgbits s ! p)) = 0" using p(5) by simp
      with p step have "f (s\<lparr>pnow := p\<rparr>) = Some r" by simp
      then have "\<not> stuck (s\<lparr>pnow := p\<rparr>)" by (rule IH)
      moreover have "get_none_zero (s\<lparr>pnow := p\<rparr>) = ret (Some p, s\<lparr>pnow := p\<rparr>)"
        using get_none_zero_here[of "s\<lparr>pnow := p\<rparr>"] p by simp
      ultimately show False using p by (auto simp: stuck_def)
    qed
  qed
  with assms show False by (auto simp: stuck_def)
qed

lemma phy_ok_after_alloc:
  assumes ok: "phy_ok s" and i: "i \<in> free_set s" and p: "p \<le> pmax s"
    and m': "bits_of m' = free_set s - {i}" "length m' = length (pgbits s)"
  shows "phy_ok (s\<lparr>pnow := p, pgbits := m', pages := pages s - 1\<rparr>)"
proof -
  have "unat (pages s) = card (free_set s)" using ok by (simp add: phy_ok_def)
  moreover have "0 < card (free_set s)"
    using i by (metis bits_of_finite card_gt_0_iff empty_iff free_set_def)
  ultimately have "unat (pages s - 1) = card (free_set s - {i})"
    using i by (metis Suc_eq_plus1 Suc_pred' add_diff_cancel_right' card_Diff_singleton unat_eq_0
        unat_minus_one less_irrefl)
  then show ?thesis
    using ok p m' i by (auto simp: phy_ok_def free_set_def)
qed

text \<open>Every way a call can end, under the invariant.\<close>

lemma alloc_phy_page_cases:
  assumes ok: "phy_ok s"
  obtains (none) s' where "alloc_phy_page s = ret (0, s')" "phy_ok s'" "free_set s' = free_set s"
      "\<forall>k < pmax s. pgbits s ! k = 0"
    | (page) i s' where "alloc_phy_page s = ret (PAGE_SIZE * of_nat i, s')" "i \<in> free_set s"
      "phy_ok s'" "free_set s' = free_set s - {i}"
      "max_phy_addr s' = max_phy_addr s"
    | (spin) p where "alloc_phy_page s = None" "p \<le> pmax s" "pgbits s ! p \<noteq> 0"
      "(ucast (pgbits s ! p) :: u32) = 0"
proof (cases "pages s = 0")
  case True
  have "\<forall>k < pmax s. pgbits s ! k = 0"
  proof (intro allI impI)
    fix k assume k: "k < pmax s"
    have "free_set s = {}" using True ok by (simp add: pages_zero_iff)
    then have "\<not> bit (pgbits s ! k) j" if "j < 64" for j
    proof -
      have "64 * k + j \<notin> bits_of (pgbits s)" using \<open>free_set s = {}\<close> by (simp add: free_set_def)
      then show ?thesis using that k phy_ok_lengths(1)[OF ok] by (simp add: bits_of_def)
    qed
    then show "pgbits s ! k = 0" by (auto simp: bit_eq_iff[where 'a = u64])
  qed
  with True ok show ?thesis using none[of s] by (simp add: alloc_step_empty)
next
  case False
  from ok show ?thesis
  proof (cases rule: get_none_zero_spec)
    case (found p)
    show ?thesis
    proof (cases "(ucast (pgbits s ! p) :: u32) = 0")
      case True
      have "p < length (pgbits s)" using found(2) phy_ok_lengths(1)[OF ok] by simp
      from alloc_step_spins[OF False found(1) this found(3) True] found True spin
      show ?thesis by blast
    next
      case low: False
      from alloc_step_found[OF ok False found(1,2) low] obtain i m' where
        r: "64 * p + i \<in> free_set s" "bits_of m' = free_set s - {64 * p + i}"
        "length m' = length (pgbits s)"
        "alloc_phy_page s = ret (PAGE_SIZE * of_nat (64 * p + i),
           s\<lparr>pnow := p, pgbits := m', pages := pages s - 1\<rparr>)" by blast
      from phy_ok_after_alloc[OF ok r(1) found(2) r(2,3)] r show ?thesis
        by (intro page[OF r(4)]) (simp_all add: free_set_def)
    qed
  next
    case (exhausted p)
    with False ok show ?thesis
      using none[of "s\<lparr>pnow := p\<rparr>"] alloc_step_exhausted phy_ok_pnow by simp
  qed
qed

lemma page_addr:
  assumes "phy_ok s" and "i \<in> free_set s"
  shows "unat (PAGE_SIZE * of_nat i) = 0x200000 * i" and "PAGE_SIZE * of_nat i \<noteq> 0"
proof -
  have i: "i < 2 ^ 43" using assms by (rule free_set_page_lt)
  then have "unat (of_nat i :: u64) = i" by (simp add: unat_of_nat)
  with i show "unat (PAGE_SIZE * of_nat i) = 0x200000 * i"
    by (simp add: unat_word_ariths)
  moreover have "i \<noteq> 0" using assms by (metis phy_ok_def)
  ultimately show "PAGE_SIZE * of_nat i \<noteq> 0" by (metis mult_eq_0_iff unat_0 zero_neq_numeral)
qed

section \<open>Freeing pages\<close>

definition mark_free :: "bool \<Rightarrow> bitmap \<Rightarrow> phymem \<Rightarrow> phymem" where
  "mark_free old m s = (if old then s\<lparr>pgbits := m\<rparr> else s\<lparr>pgbits := m, pages := pages s + 1\<rparr>)"

lemma mark_free_ok:
  assumes ok: "phy_ok s" and pos: "0 < pos" "0x200000 * pos < unat (max_phy_addr s)"
  shows "\<exists>m. test_and_set_bit pos (pgbits s) = ret (pos \<in> free_set s, m) \<and>
     phy_ok (mark_free (pos \<in> free_set s) m s) \<and>
     free_set (mark_free (pos \<in> free_set s) m s) = insert pos (free_set s) \<and>
     max_phy_addr (mark_free (pos \<in> free_set s) m s) = max_phy_addr s"
proof -
  have "pos div 64 \<le> pmax s"
    using pos(2) ok by (simp add: phy_ok_def)
  then have "pos < 64 * length (pgbits s)" using phy_ok_lengths(1)[OF ok] by simp
  from test_and_set_bit_in[OF this] obtain m where
    m: "test_and_set_bit pos (pgbits s) = ret (pos \<in> free_set s, m)"
      "bits_of m = insert pos (free_set s)" "length m = length (pgbits s)"
    by (auto simp: free_set_def)
  have fs: "free_set (mark_free b m s) = insert pos (free_set s)" for b
    by (simp add: mark_free_def free_set_def m(2))
  have "unat (pages s + 1) = Suc (card (free_set s))"
  proof -
    have "free_set s \<subseteq> {..<2 ^ 43}" using free_set_page_lt[OF ok] by auto
    then have "card (free_set s) \<le> 2 ^ 43" by (metis card_lessThan card_mono finite_lessThan)
    then show ?thesis using ok by (simp add: phy_ok_def unat_word_ariths)
  qed
  then have "phy_ok (mark_free (pos \<in> free_set s) m s)"
    using ok m pos fs by (auto simp: phy_ok_def mark_free_def insert_absorb free_set_def)
  with m(1) fs show ?thesis by (auto simp: mark_free_def)
qed

lemma free_pages_loop_ok:
  assumes "phy_ok s" and "n < 2 ^ 43" and "0 < unat pos"
    and "0x200000 * (unat pos + n) < unat (max_phy_addr s) + 0x200000"
  shows "\<exists>s'. free_pages_loop pos (PAGE_SIZE * of_nat n) s = ret s' \<and> phy_ok s' \<and>
     max_phy_addr s' = max_phy_addr s \<and>
     free_set s' = free_set s \<union> {unat pos ..< unat pos + n}"
  using assms
proof (induction n arbitrary: pos s)
  case 0
  then show ?case by (subst free_pages_loop.simps) simp
next
  case (Suc n)
  have sz: "unat (PAGE_SIZE * of_nat (Suc n)) = 0x200000 * Suc n"
    using Suc.prems(2) by (simp add: unat_word_ariths unat_of_nat)
  then have "PAGE_SIZE * of_nat (Suc n) > 0" by (metis mult_eq_0_iff nat.distinct(1) unat_0 word_gt_0 zero_neq_numeral)
  moreover have "PAGE_SIZE * of_nat (Suc n) - PAGE_SIZE = PAGE_SIZE * of_nat n"
    by (simp add: algebra_simps)
  moreover from mark_free_ok[OF Suc.prems(1,3)] Suc.prems(4) obtain m where
    m: "test_and_set_bit (unat pos) (pgbits s) = ret (unat pos \<in> free_set s, m)"
      "phy_ok (mark_free (unat pos \<in> free_set s) m s)"
      "free_set (mark_free (unat pos \<in> free_set s) m s) = insert (unat pos) (free_set s)"
      "max_phy_addr (mark_free (unat pos \<in> free_set s) m s) = max_phy_addr s"
    by auto
  ultimately have step: "free_pages_loop pos (PAGE_SIZE * of_nat (Suc n)) s =
      free_pages_loop (pos + 1) (PAGE_SIZE * of_nat n) (mark_free (unat pos \<in> free_set s) m s)"
    by (subst free_pages_loop.simps) (simp add: mark_free_def)
  have "unat pos < 2 ^ 43"
    using Suc.prems(4) unsigned_less[where ?'b = 64 and ?'a = nat, of "max_phy_addr s"] by simp
  then have p1: "unat (pos + 1) = Suc (unat pos)" by (simp add: unat_word_ariths)
  have "\<exists>s'. free_pages_loop (pos + 1) (PAGE_SIZE * of_nat n) (mark_free (unat pos \<in> free_set s) m s) = ret s' \<and>
     phy_ok s' \<and> max_phy_addr s' = max_phy_addr (mark_free (unat pos \<in> free_set s) m s) \<and>
     free_set s' = free_set (mark_free (unat pos \<in> free_set s) m s) \<union> {unat (pos + 1) ..< unat (pos + 1) + n}"
    using Suc.prems m(2,4) p1 by (intro Suc.IH) simp_all
  then show ?case
    unfolding step m(3,4) p1 by (auto simp: set_eq_iff)
qed

lemma page_number:
  assumes "0x200000 dvd unat a"
  shows "unat (a div PAGE_SIZE) * 0x200000 = unat a" and "a \<noteq> 0 \<Longrightarrow> 0 < unat (a div PAGE_SIZE)"
proof -
  have "unat (a div PAGE_SIZE) = unat a div 0x200000" by (simp add: unat_div)
  with assms show m: "unat (a div PAGE_SIZE) * 0x200000 = unat a" by simp
  then show "a \<noteq> 0 \<Longrightarrow> 0 < unat (a div PAGE_SIZE)" by (metis gr_zeroI mult_0 unat_eq_0)
qed

section \<open>Properties\<close>

text \<open>
  C1 (safety). A call of \<open>alloc_phy_page\<close> that returns keeps the invariant, and either returns 0 and
  takes no page, or returns the address of exactly one page that was free, which is free no
  longer: no page is handed out twice and page 0 never is.
\<close>

theorem alloc_phy_page_sound:
  assumes "phy_ok s" and "alloc_phy_page s = ret (a, s')"
  shows "phy_ok s' \<and>
     (a = 0 \<and> free_set s' = free_set s \<or>
      (\<exists>i \<in> free_set s. 0 < i \<and> unat a = 0x200000 * i \<and> free_set s' = free_set s - {i} \<and>
         unat (pages s') + 1 = unat (pages s)))"
  using assms(1)
proof (cases rule: alloc_phy_page_cases)
  case (none s1)
  with assms(2) show ?thesis by simp
next
  case (page i s1)
  then have "s1 = s'" "a = PAGE_SIZE * of_nat i" using assms(2) by auto
  moreover have "Suc (card (free_set s - {i})) = card (free_set s)"
    using page(2) by (metis bits_of_finite card_Suc_Diff1 free_set_def)
  moreover have "0 < i" using page(2) assms(1) by (metis gr0I phy_ok_def)
  ultimately show ?thesis
    using page page_addr(1)[OF assms(1) page(2)] assms(1) by (auto simp: phy_ok_def)
next
  case (spin p)
  with assms(2) show ?thesis by simp
qed

text \<open>A machine with 256 MB whose only free page is page \<open>i\<close>, for the concrete instances.\<close>

definition demo_mem :: "nat \<Rightarrow> phymem" where
  "demo_mem i = (init_phy_bits 0x10000000)\<lparr>pgbits := [push_bit i 1, 0, 0], pages := 1\<rparr>"

lemma demo_mem_fields [simp]:
  "pgbits (demo_mem i) = [push_bit i 1, 0, 0]" "pmax (demo_mem i) = 2" "pnow (demo_mem i) = 0"
  "pages (demo_mem i) = 1" "max_phy_addr (demo_mem i) = 0x10000000"
  by (simp_all add: demo_mem_def init_phy_bits_def PAGE_SIZE_def Let_def)

lemma demo_mem_free: "i < 64 \<Longrightarrow> free_set (demo_mem i) = {i}"
  using bits_of_single[of i 2] by (simp add: free_set_def numeral_2_eq_2)

lemma demo_mem_ok: "0 < i \<Longrightarrow> i < 64 \<Longrightarrow> phy_ok (demo_mem i)"
  by (simp add: phy_ok_def demo_mem_free)

lemma demo_mem_alloc:
  "alloc_phy_page (demo_mem 5) = ret (0xA00000, (demo_mem 5)\<lparr>pgbits := [0, 0, 0], pages := 0\<rparr>)"
  by (subst alloc_phy_page.simps) code_simp

theorem alloc_phy_page_sound_witness:
  "\<exists>i \<in> free_set (demo_mem 5). 0 < i \<and> unat (0xA00000 :: u64) = 0x200000 * i \<and>
     free_set ((demo_mem 5)\<lparr>pgbits := [0, 0, 0], pages := 0\<rparr>) = {}"
  using alloc_phy_page_sound[OF demo_mem_ok[of 5] demo_mem_alloc] by (simp add: demo_mem_free)



text \<open>
  C3 (error). The allocator never returns once the word under the cursor has free pages in its
  high half only: \<^verbatim>\<open>ffs\<close> takes an int, sees 0 and the loop retries in the same state, although
  pages are free.
\<close>

theorem alloc_phy_page_spins:
  assumes "phy_ok s" and "pages s \<noteq> 0" and "pgbits s ! pnow s \<noteq> 0"
    and "(ucast (pgbits s ! pnow s) :: u32) = 0"
  shows "alloc_phy_page s = None"
proof (rule alloc_step_spins[of s "pnow s"])
  show "get_none_zero s = ret (Some (pnow s), s\<lparr>pnow := pnow s\<rparr>)"
    using get_none_zero_here[of s] assms phy_ok_lengths[OF assms(1)] by simp
qed (use assms phy_ok_lengths[OF assms(1)] in simp_all)

theorem alloc_phy_page_spins_witness:
  "free_set (demo_mem 40) = {40} \<and> alloc_phy_page (demo_mem 40) = None"
proof
  show "free_set (demo_mem 40) = {40}" by (simp add: demo_mem_free)
  show "alloc_phy_page (demo_mem 40) = None"
    using alloc_phy_page_spins[OF demo_mem_ok[of 40]] by simp
qed

text \<open>
  C4 (functional). Freeing an aligned range of physical memory that ends inside the memory makes
  exactly its pages free, keeps the invariant and always returns; a page of the range that was
  free already stays free and is not counted twice.
\<close>

theorem free_phy_pages_range:
  assumes "phy_ok s" and "a \<noteq> 0" and "0x200000 dvd unat a" and "0x200000 dvd unat n"
    and "unat a + unat n \<le> unat (max_phy_addr s)" and "a < max_phy_addr s"
  shows "\<exists>s'. free_phy_pages a n s = ret s' \<and> phy_ok s' \<and>
     free_set s' = free_set s \<union> {unat a div 0x200000 ..< (unat a + unat n) div 0x200000}"
proof -
  let ?k = "unat n div 0x200000"
  have k: "?k < 2 ^ 43" using unsigned_less[where ?'b = 64 and ?'a = nat, of n]
    by (simp add: less_mult_imp_div_less)
  have n: "n = PAGE_SIZE * of_nat ?k"
  proof -
    have "unat (PAGE_SIZE * of_nat ?k) = 0x200000 * ?k"
      using k unsigned_less[where ?'b = 64 and ?'a = nat, of n]
      by (simp add: unat_word_ariths unat_of_nat)
    also have "\<dots> = unat n" using assms(4) by simp
    finally show ?thesis by (metis word_unat_eq_iff)
  qed
  have p: "unat (a div PAGE_SIZE) * 0x200000 = unat a" "0 < unat (a div PAGE_SIZE)"
    using page_number[OF assms(3)] assms(2) by auto
  have "0x200000 * (unat (a div PAGE_SIZE) + ?k) < unat (max_phy_addr s) + 0x200000"
    using assms(4,5) p(1) by simp
  from free_pages_loop_ok[OF assms(1) k p(2) this] obtain s' where
    "free_pages_loop (a div PAGE_SIZE) n s = ret s'" "phy_ok s'"
    "free_set s' = free_set s \<union> {unat (a div PAGE_SIZE) ..< unat (a div PAGE_SIZE) + ?k}"
    unfolding n[symmetric] by blast
  moreover have "unat (a div PAGE_SIZE) + ?k = (unat a + unat n) div 0x200000"
    using assms(3,4) by (simp add: unat_div div_add)
  moreover have "unat (a div PAGE_SIZE) = unat a div 0x200000" by (simp add: unat_div)
  ultimately show ?thesis
    using assms(2-4,6) by (simp add: free_phy_pages_def page_aligned_iff)
qed

theorem free_phy_pages_range_witness:
  "\<exists>s'. free_phy_pages 0x600000 0x800000 (demo_mem 5) = ret s' \<and> phy_ok s' \<and>
     free_set s' = {5} \<union> {3 ..< 7}"
  using free_phy_pages_range[OF demo_mem_ok[of 5], of "0x600000" "0x800000"]
  by (simp add: demo_mem_free)

text \<open>
  Freeing the page an allocation returned gives back the set of free pages and the
  count from before, and a second free of it changes nothing.
\<close>

theorem alloc_free_phy_page_roundtrip:
  assumes "phy_ok s" and "alloc_phy_page s = ret (a, s1)" and "a \<noteq> 0"
  shows "\<exists>s2. free_phy_one_page a s1 = ret s2 \<and> phy_ok s2 \<and> free_set s2 = free_set s \<and>
     pages s2 = pages s \<and>
     (\<exists>s3. free_phy_one_page a s2 = ret s3 \<and> free_set s3 = free_set s \<and> pages s3 = pages s)"
  using assms(1)
proof (cases rule: alloc_phy_page_cases)
  case (page i s')
  have a: "a = PAGE_SIZE * of_nat i" "s1 = s'" using page assms(2) by auto
  have ua: "unat a = 0x200000 * i" using page_addr(1)[OF assms(1) page(2)] a by simp
  have mx: "max_phy_addr s1 = max_phy_addr s" using page(5) a by simp
  have lt: "0x200000 * i < unat (max_phy_addr s)" and i0: "0 < i"
    using page(2) assms(1) by (auto simp: phy_ok_def intro!: gr0I)
  have al: "a AND (PAGE_SIZE - 1) = 0" "a < max_phy_addr s" "unat (a div PAGE_SIZE) = i"
    using ua lt by (auto simp: page_aligned_iff word_less_nat_alt unat_div)
  obtain m where m: "free_phy_one_page a s1 = ret (mark_free False m s1)"
    "phy_ok (mark_free False m s1)" "free_set (mark_free False m s1) = insert i (free_set s1)"
    "max_phy_addr (mark_free False m s1) = max_phy_addr s"
    using mark_free_ok[OF page(3) i0] lt page(4) a(2) assms(3) al mx
    by (auto simp: free_phy_one_page_def mark_free_def)
  let ?s2 = "mark_free False m s1"
  have fs: "free_set ?s2 = free_set s" using m(3) page(2,4) a by auto
  have pg: "pages ?s2 = pages s"
    using m(2) assms(1) fs by (metis phy_ok_def word_unat_eq_iff)
  obtain m' where "free_phy_one_page a ?s2 = ret (mark_free True m' ?s2)"
    "free_set (mark_free True m' ?s2) = insert i (free_set ?s2)"
    using mark_free_ok[OF m(2) i0] lt fs page(2) assms(3) al m(4)
    by (auto simp: free_phy_one_page_def mark_free_def)
  moreover have "pages (mark_free True m' ?s2) = pages s" using pg by (simp add: mark_free_def)
  ultimately show ?thesis using m fs pg page(2) by (auto simp: insert_absorb)
qed (use assms in auto)

theorem alloc_free_phy_page_roundtrip_witness:
  "\<exists>s2. free_phy_one_page 0xA00000 ((demo_mem 5)\<lparr>pgbits := [0, 0, 0], pages := 0\<rparr>) = ret s2 \<and>
     free_set s2 = {5}"
  using alloc_free_phy_page_roundtrip[OF demo_mem_ok[of 5] demo_mem_alloc]
  by (auto simp: demo_mem_free)

end
