(* ===== verification/Kheap.thy ===== *)
theory Kheap
  imports Hole_List Phymem
begin

text \<open>
  The kernel heap of kernel/kheap.c: a heap of 4 KB units whose holes are kept in address order and
  that grows by physical pages, and a heap of small blocks on top of it that grows by 4 KB units.
  The theory proves that both keep their hole lists well formed, that blocks handed out never
  overlap, which requests succeed, and what happens to requests the heap cannot serve.
\<close>

section \<open>State and operations\<close>

definition MAX_HEAP_HOLE :: nat where
  "MAX_HEAP_HOLE = 10"

definition MAX_SMALL_HOLE :: nat where
  "MAX_SMALL_HOLE = 100"

definition MAX_SMALL_HEAP :: u64 where
  "MAX_SMALL_HEAP = 2048"

text \<open>The two pools of holes with their locks, and the physical pages the heap grows by.\<close>

record kheap =
  p4k :: pool
  spin_4k :: spinlock
  psmall :: pool
  spin_small :: spinlock
  phy :: phymem

definition init_kheap :: "kheap \<Rightarrow> kheap" where
  "init_kheap s =
     s\<lparr>p4k := init_pool MAX_HEAP_HOLE, spin_4k := init_spinlock,
       psmall := init_pool MAX_SMALL_HOLE, spin_small := init_spinlock\<rparr>"

definition free_kheap_4k :: "u64 \<Rightarrow> u64 \<Rightarrow> kheap \<Rightarrow> kheap kres" where
  "free_kheap_4k addr sz s =
     kbind (kassert (addr AND 0xfff = 0 \<and> sz AND 0xfff = 0) ''free_kheap_4k'') (\<lambda>_.
       case pfree (p4k s) of
         None \<Rightarrow> halt (Panic ''MAX_HEAP_HOLE too small'')
       | Some p \<Rightarrow>
           kbind (spin_lock (spin_4k s)) (\<lambda>l.
           kbind (free_sorted p addr sz (p4k s)) (\<lambda>pl.
           kbind (spin_unlock l) (\<lambda>l'.
             ret (s\<lparr>p4k := pl, spin_4k := l'\<rparr>)))))"

text \<open>\<^verbatim>\<open>if (size & 0xfff) size = (size & ~0xfff) + 0x1000\<close>\<close>

definition align_4k :: "u64 \<Rightarrow> u64" where
  "align_4k sz = (if sz AND 0xfff \<noteq> 0 then (sz AND NOT 0xfff) + 0x1000 else sz)"

text \<open>
  The loop that adds physical pages until a hole fits; it starts with the result of the first
  search and the lock held. \<open>None\<close> as the found node means that the pages ran out, with the lock
  released.
\<close>

partial_function (option) grow_4k :: "u64 \<Rightarrow> nat option \<Rightarrow> kheap \<Rightarrow> (nat option \<times> kheap) kres" where
  "grow_4k sz p s =
     (case p of
        Some q \<Rightarrow> ret (Some q, s)
      | None \<Rightarrow>
          kbind (spin_unlock (spin_4k s)) (\<lambda>l.
          kbind (alloc_phy_page (phy s)) (\<lambda>(newaddr, ph).
            if newaddr = 0 then ret (None, s\<lparr>spin_4k := l, phy := ph\<rparr>)
            else
              kbind (free_kheap_4k newaddr PAGE_SIZE (s\<lparr>spin_4k := l, phy := ph\<rparr>)) (\<lambda>s2.
              kbind (spin_lock (spin_4k s2)) (\<lambda>l2.
              kbind (first_fit (nodes (p4k s2)) sz (phead (p4k s2))) (\<lambda>p2.
                grow_4k sz p2 (s2\<lparr>spin_4k := l2\<rparr>)))))))"

definition alloc_kheap_4k :: "u64 \<Rightarrow> kheap \<Rightarrow> (u64 \<times> kheap) kres" where
  "alloc_kheap_4k size0 s =
     (let sz = align_4k size0 in
      kbind (spin_lock (spin_4k s)) (\<lambda>l.
      kbind (first_fit (nodes (p4k s)) sz (phead (p4k s))) (\<lambda>p.
      kbind (grow_4k sz p (s\<lparr>spin_4k := l\<rparr>)) (\<lambda>(found, s1).
        case found of
          None \<Rightarrow> ret (0, s1)
        | Some q \<Rightarrow>
            kbind (carve (\<lambda>x. x = 0) q sz (p4k s1)) (\<lambda>(r, pl).
            kbind (spin_unlock (spin_4k s1)) (\<lambda>l'.
              ret (r, s1\<lparr>p4k := pl, spin_4k := l'\<rparr>)))))))"

definition free_kheap_small :: "u64 \<Rightarrow> u64 \<Rightarrow> kheap \<Rightarrow> kheap kres" where
  "free_kheap_small addr sz s =
     kbind (kassert (addr AND 0xfff = 0 \<and> sz AND 0xfff = 0) ''free_kheap_small'') (\<lambda>_.
     kbind (spin_lock (spin_small s)) (\<lambda>l.
       case pfree (psmall s) of
         None \<Rightarrow> halt (Panic ''MAX_HEAP_HOLE too small'')
       | Some p \<Rightarrow>
           kbind (spin_unlock l) (\<lambda>l'.
             ret (s\<lparr>psmall := free_front p addr sz (psmall s), spin_small := l'\<rparr>))))"

partial_function (option) grow_small :: "u64 \<Rightarrow> nat option \<Rightarrow> kheap \<Rightarrow> (nat option \<times> kheap) kres" where
  "grow_small sz p s =
     (case p of
        Some q \<Rightarrow> ret (Some q, s)
      | None \<Rightarrow>
          kbind (spin_unlock (spin_small s)) (\<lambda>l.
          kbind (alloc_kheap_4k 0x1000 (s\<lparr>spin_small := l\<rparr>)) (\<lambda>(newaddr, s1).
            if newaddr = 0 then ret (None, s1)
            else
              kbind (free_kheap_small newaddr 0x1000 s1) (\<lambda>s2.
              kbind (spin_lock (spin_small s2)) (\<lambda>l2.
              kbind (first_fit (nodes (psmall s2)) sz (phead (psmall s2))) (\<lambda>p2.
                grow_small sz p2 (s2\<lparr>spin_small := l2\<rparr>)))))))"

definition alloc_kheap_small :: "u64 \<Rightarrow> kheap \<Rightarrow> (u64 \<times> kheap) kres" where
  "alloc_kheap_small sz s =
     kbind (kassert (sz < 0x1000) ''alloc_kheap_small'') (\<lambda>_.
     kbind (spin_lock (spin_small s)) (\<lambda>l.
     kbind (first_fit (nodes (psmall s)) sz (phead (psmall s))) (\<lambda>p.
     kbind (grow_small sz p (s\<lparr>spin_small := l\<rparr>)) (\<lambda>(found, s1).
       case found of
         None \<Rightarrow> ret (0, s1)
       | Some q \<Rightarrow>
           kbind (carve (\<lambda>x. x \<le> 16) q sz (psmall s1)) (\<lambda>(r, pl).
           kbind (spin_unlock (spin_small s1)) (\<lambda>l'.
             ret (r, s1\<lparr>psmall := pl, spin_small := l'\<rparr>)))))))"

definition kalloc :: "u64 \<Rightarrow> kheap \<Rightarrow> (u64 \<times> kheap) kres" where
  "kalloc sz s = (if sz < MAX_SMALL_HEAP then alloc_kheap_small sz s else alloc_kheap_4k sz s)"

text \<open>
  The page bitmap is itself a block of the heap. The code does not test the result of
  \<^verbatim>\<open>kalloc\<close>, so neither does the model.
\<close>

definition init_phy_mem :: "kheap \<Rightarrow> kheap kres" where
  "init_phy_mem s =
     (let m = max_phy_addr (phy s) in
      kbind (kalloc (m div PAGE_SIZE div 8 + 8) s) (\<lambda>(p, s1). ret (s1\<lparr>phy := init_phy_bits m\<rparr>)))"

text \<open>The lines that \<^verbatim>\<open>kheap_debug\<close> prints: address and size of each hole, in list order.\<close>

partial_function (option) kheap_debug_from :: "(nat \<Rightarrow> hole) \<Rightarrow> nat option \<Rightarrow> block list kres" where
  "kheap_debug_from ns p =
     (case p of
        None \<Rightarrow> ret []
      | Some q \<Rightarrow> kbind (kheap_debug_from ns (h_next (ns q))) (\<lambda>ls.
          ret ((h_addr (ns q), h_size (ns q)) # ls)))"

definition kheap_debug :: "kheap \<Rightarrow> block list kres" where
  "kheap_debug s = kheap_debug_from (nodes (p4k s)) (phead (p4k s))"

section \<open>Rounding\<close>

lemma mask12: "(0xfff :: u64) = mask 12"
  by (simp add: mask_eq_exp_minus_1)

lemma aligned_4k_iff: "x AND (0xfff :: u64) = 0 \<longleftrightarrow> 0x1000 dvd unat x"
  unfolding mask12 and_mask_eq_0 by simp

lemma align_4k_up: "align_4k sz = align_up 12 sz"
  by (simp add: align_4k_def align_up_def mask12)

section \<open>The invariant and the memory the heap owns\<close>

text \<open>
  Before \<^verbatim>\<open>init_phy_mem\<close> the page allocator is all zero and hands out nothing; afterwards it is in
  the state that the invariant of the page allocator describes.
\<close>

definition phy_off :: "phymem \<Rightarrow> bool" where
  "phy_off ph \<longleftrightarrow> pgbits ph = [] \<and> pages ph = 0"

definition phy_ready :: "phymem \<Rightarrow> bool" where
  "phy_ready ph \<longleftrightarrow> phy_ok ph \<or> phy_off ph"

definition kheap_ok :: "kheap \<Rightarrow> bool" where
  "kheap_ok s \<longleftrightarrow>
     pool_ok MAX_HEAP_HOLE (p4k s) \<and> pool_ok MAX_SMALL_HOLE (psmall s) \<and>
     spin_4k s = 0 \<and> spin_small s = 0 \<and> phy_ready (phy s)"

abbreviation holes_4k :: "kheap \<Rightarrow> block list" where
  "holes_4k s \<equiv> holes MAX_HEAP_HOLE (p4k s)"

abbreviation holes_small :: "kheap \<Rightarrow> block list" where
  "holes_small s \<equiv> holes MAX_SMALL_HOLE (psmall s)"

definition page_blocks :: "phymem \<Rightarrow> block list" where
  "page_blocks ph = map (\<lambda>i. (PAGE_SIZE * of_nat i, PAGE_SIZE)) (sorted_list_of_set (free_set ph))"

text \<open>Everything the heap can still hand out: the holes of both lists and the free pages.\<close>

definition kspace :: "kheap \<Rightarrow> block list" where
  "kspace s = holes_4k s @ holes_small s @ page_blocks (phy s)"

lemma kspace_locks [simp]:
  "kspace (s\<lparr>spin_4k := l\<rparr>) = kspace s" "kspace (s\<lparr>spin_small := l\<rparr>) = kspace s"
  by (simp_all add: kspace_def)

lemma free_set_finite [simp]: "finite (free_set ph)"
  by (simp add: free_set_def bits_of_finite)

lemma page_blocks_remove:
  assumes "i \<in> free_set ph" "free_set ph' = free_set ph - {i}"
  shows "mset (page_blocks ph) = add_mset (PAGE_SIZE * of_nat i, PAGE_SIZE) (mset (page_blocks ph'))"
proof -
  have "mset_set (free_set ph) = add_mset i (mset_set (free_set ph - {i}))"
    using assms(1) by (metis free_set_finite mset_set.remove)
  moreover have "mset (sorted_list_of_set A) = mset_set A" if "finite A" for A :: "nat set"
    using that by (metis distinct_sorted_list_of_set mset_set_set set_sorted_list_of_set)
  ultimately show ?thesis using assms(2) by (simp add: page_blocks_def)
qed

lemma alloc_phy_page_ready:
  assumes "phy_ready ph" "alloc_phy_page ph = ret (a, ph')"
  shows "phy_ready ph' \<and>
    (a = 0 \<and> page_blocks ph' = page_blocks ph \<and> (\<forall>k < pmax ph. k < length (pgbits ph) \<longrightarrow> pgbits ph ! k = 0) \<or>
     a \<noteq> 0 \<and> 0x200000 dvd unat a \<and>
     mset (page_blocks ph) = add_mset (a, PAGE_SIZE) (mset (page_blocks ph')))"
proof (cases "phy_ok ph")
  case True
  then show ?thesis
  proof (cases rule: alloc_phy_page_cases)
    case (none s')
    with assms(2) show ?thesis by (auto simp: phy_ready_def page_blocks_def)
  next
    case (page i s')
    with assms(2) page_addr[OF True page(2)] page_blocks_remove[OF page(2,4)] show ?thesis
      by (auto simp: phy_ready_def)
  next
    case spin
    with assms(2) show ?thesis by simp
  qed
next
  case False
  with assms have "phy_off ph" by (simp add: phy_ready_def)
  with assms show ?thesis by (auto simp: phy_off_def alloc_step_empty)
qed

lemmas kheap_max = MAX_HEAP_HOLE_def MAX_SMALL_HOLE_def

section \<open>Giving blocks to the heap\<close>

lemma page_aligned_4k: "0x200000 dvd unat a \<Longrightarrow> a AND (0xfff :: u64) = 0"
  unfolding aligned_4k_iff by (erule dvd_trans[rotated]) simp

lemma PAGE_SIZE_aligned_4k: "PAGE_SIZE AND 0xfff = 0"
  by (rule page_aligned_4k) simp

lemma free_kheap_4k_ok:
  assumes ok: "kheap_ok s" and al: "addr AND 0xfff = 0" "sz AND 0xfff = 0"
    and room: "length (holes_4k s) < MAX_HEAP_HOLE"
  shows "\<exists>s'. free_kheap_4k addr sz s = ret s' \<and> kheap_ok s' \<and> psmall s' = psmall s \<and>
     phy s' = phy s \<and> holes_4k s' = ins_hole (addr, sz) (holes_4k s)"
proof -
  have p4: "pool_ok MAX_HEAP_HOLE (p4k s)" "spin_4k s = 0" using ok by (auto simp: kheap_ok_def)
  from pool_ok_room[OF p4(1) room] obtain p where p: "pfree (p4k s) = Some p" .
  from free_sorted_ok[OF p4(1) p, of addr sz] obtain pl where
    "free_sorted p addr sz (p4k s) = ret pl" "pool_ok MAX_HEAP_HOLE pl"
    "holes MAX_HEAP_HOLE pl = ins_hole (addr, sz) (holes_4k s)" by blast
  with p p4 al ok show ?thesis
    by (intro exI[of _ "s\<lparr>p4k := pl, spin_4k := 0\<rparr>"])
      (simp add: free_kheap_4k_def kassert_def kheap_ok_def)
qed

lemma free_kheap_4k_full:
  assumes "kheap_ok s" "length (holes_4k s) = MAX_HEAP_HOLE"
    and "addr AND 0xfff = 0" "sz AND 0xfff = 0"
  shows "free_kheap_4k addr sz s = halt (Panic ''MAX_HEAP_HOLE too small'')"
  using assms pool_ok_full[of MAX_HEAP_HOLE "p4k s"]
  by (simp add: free_kheap_4k_def kassert_def kheap_ok_def)

lemma free_kheap_4k_unaligned:
  "\<not> (addr AND 0xfff = 0 \<and> sz AND 0xfff = 0) \<Longrightarrow>
   free_kheap_4k addr sz s = halt (Assertion ''free_kheap_4k'')"
  by (auto simp: free_kheap_4k_def kassert_def)

lemma holes_4k_le: "kheap_ok s \<Longrightarrow> length (holes_4k s) \<le> MAX_HEAP_HOLE"
  using pool_ok_lengths[of MAX_HEAP_HOLE "p4k s"] by (simp add: kheap_ok_def)

lemma holes_small_le: "kheap_ok s \<Longrightarrow> length (holes_small s) \<le> MAX_SMALL_HOLE"
  using pool_ok_lengths[of MAX_SMALL_HOLE "psmall s"] by (simp add: kheap_ok_def)

text \<open>Every way a call can end.\<close>

lemma free_kheap_4k_cases:
  assumes ok: "kheap_ok s"
  obtains (freed) s' where "free_kheap_4k addr sz s = ret s'" "kheap_ok s'" "psmall s' = psmall s"
      "phy s' = phy s" "holes_4k s' = ins_hole (addr, sz) (holes_4k s)"
      "length (holes_4k s) < MAX_HEAP_HOLE"
    | (stopped) f where "free_kheap_4k addr sz s = halt f"
proof (cases "addr AND 0xfff = 0 \<and> sz AND 0xfff = 0")
  case True
  show ?thesis
  proof (cases "length (holes_4k s) < MAX_HEAP_HOLE")
    case room: True
    from free_kheap_4k_ok[OF ok _ _ room, of addr sz] True obtain s' where
      "free_kheap_4k addr sz s = ret s'" "kheap_ok s'" "psmall s' = psmall s"
      "phy s' = phy s" "holes_4k s' = ins_hole (addr, sz) (holes_4k s)" by blast
    then show ?thesis using room by (rule freed)
  next
    case False
    with free_kheap_4k_full[OF ok] holes_4k_le[OF ok] True show ?thesis by (intro stopped) auto
  qed
next
  case False
  then show ?thesis using free_kheap_4k_unaligned stopped by blast
qed

lemma kspace_ins:
  assumes "holes_4k s' = ins_hole b (holes_4k s)" "psmall s' = psmall s" "phy s' = phy s"
  shows "mset (kspace s') = add_mset b (mset (kspace s))"
  using assms by (simp add: kspace_def ins_hole_mset)

section \<open>Growing the 4k heap\<close>

text \<open>
  Between two calls the heap owns the same or less: whatever was apart from all it owned still is.
\<close>

definition keeps_apart :: "kheap \<Rightarrow> kheap \<Rightarrow> bool" where
  "keeps_apart s s' \<longleftrightarrow> (\<forall>live. separated (live @ kspace s) \<longrightarrow> separated (live @ kspace s'))"

lemma keeps_apart_refl [simp]: "keeps_apart s s"
  by (simp add: keeps_apart_def)

lemma keeps_apart_trans: "keeps_apart s s1 \<Longrightarrow> keeps_apart s1 s2 \<Longrightarrow> keeps_apart s s2"
  by (simp add: keeps_apart_def)

lemma keeps_apart_mset: "mset (kspace s') \<subseteq># mset (kspace s) \<Longrightarrow> keeps_apart s s'"
proof -
  assume "mset (kspace s') \<subseteq># mset (kspace s)"
  then obtain xs where "mset (kspace s) = mset (kspace s') + mset xs"
    by (metis ex_mset mset_subset_eq_exists_conv)
  then have m: "mset (live @ kspace s) = mset ((live @ kspace s') @ xs)" for live by simp
  show ?thesis
    unfolding keeps_apart_def using separated_mset[OF m] separated_append by blast
qed

text \<open>The state at the head of the loop: the lock is held and \<open>p\<close> is what the search found.\<close>

definition grow_inv :: "u64 \<Rightarrow> nat option \<Rightarrow> kheap \<Rightarrow> bool" where
  "grow_inv sz p s \<longleftrightarrow> spin_4k s = 1 \<and> kheap_ok (s\<lparr>spin_4k := 0\<rparr>) \<and>
     first_fit (nodes (p4k s)) sz (phead (p4k s)) = ret p"

text \<open>One turn of the loop with a new page \<open>a\<close>: the heap has no room for one more hole, or goes on.\<close>

lemma grow_4k_turn:
  assumes inv: "grow_inv sz None s" and page: "alloc_phy_page (phy s) = ret (a, ph)" "a \<noteq> 0"
  obtains (stopped) f where "free_kheap_4k a PAGE_SIZE (s\<lparr>spin_4k := 0, phy := ph\<rparr>) = halt f"
    | (added) s2 p2 where "free_kheap_4k a PAGE_SIZE (s\<lparr>spin_4k := 0, phy := ph\<rparr>) = ret s2"
      "spin_4k s2 = 0" "first_fit (nodes (p4k s2)) sz (phead (p4k s2)) = ret p2"
      "grow_inv sz p2 (s2\<lparr>spin_4k := 1\<rparr>)" "psmall s2 = psmall s" "phy s2 = ph"
      "holes_4k s2 = ins_hole (a, PAGE_SIZE) (holes_4k s)" "keeps_apart s (s2\<lparr>spin_4k := 1\<rparr>)"
proof -
  let ?s1 = "s\<lparr>spin_4k := 0, phy := ph\<rparr>"
  have ok0: "kheap_ok (s\<lparr>spin_4k := 0\<rparr>)" using inv by (simp add: grow_inv_def)
  then have rdy: "phy_ready (phy s)" by (simp add: kheap_ok_def)
  note pg = alloc_phy_page_ready[OF rdy page(1)]
  have ok1: "kheap_ok ?s1" using ok0 pg by (simp add: kheap_ok_def)
  from ok1 show ?thesis
  proof (cases rule: free_kheap_4k_cases[where addr = a and sz = PAGE_SIZE])
    case (freed s2)
    obtain p2 where p2: "first_fit (nodes (p4k s2)) sz (phead (p4k s2)) = ret p2"
      using freed(2) first_fit_ok by (auto simp: kheap_ok_def)
    have "mset (kspace s2) = mset (kspace s)"
      using freed pg page(2) by (simp add: kspace_def ins_hole_mset)
    then have "keeps_apart s (s2\<lparr>spin_4k := 1\<rparr>)" by (intro keeps_apart_mset) simp
    moreover have "grow_inv sz p2 (s2\<lparr>spin_4k := 1\<rparr>)"
      using freed(2) p2 by (simp add: grow_inv_def kheap_ok_def)
    moreover have "spin_4k s2 = 0" using freed(2) by (simp add: kheap_ok_def)
    ultimately show ?thesis using added freed p2 by simp
  next
    case stopped
    then show ?thesis by (rule that(1))
  qed
qed

text \<open>The induction rule of the loop, for the states in which the code runs it.\<close>

lemma grow_4k_rule [consumes 2, case_names found out fault turn]:
  assumes "grow_4k sz p s = Some r" "grow_inv sz p s"
    and found: "\<And>q s. grow_inv sz (Some q) s \<Longrightarrow> P s (Inr (Some q, s))"
    and out: "\<And>s ph. grow_inv sz None s \<Longrightarrow> alloc_phy_page (phy s) = ret (0, ph) \<Longrightarrow>
      P s (Inr (None, s\<lparr>spin_4k := 0, phy := ph\<rparr>))"
    and fault: "\<And>s f. grow_inv sz None s \<Longrightarrow> P s (Inl f)"
    and turn: "\<And>s a ph s2 p2 r. grow_inv sz None s \<Longrightarrow> alloc_phy_page (phy s) = ret (a, ph) \<Longrightarrow>
      a \<noteq> 0 \<Longrightarrow> grow_inv sz p2 (s2\<lparr>spin_4k := 1\<rparr>) \<Longrightarrow> psmall s2 = psmall s \<Longrightarrow> phy s2 = ph \<Longrightarrow>
      holes_4k s2 = ins_hole (a, PAGE_SIZE) (holes_4k s) \<Longrightarrow> keeps_apart s (s2\<lparr>spin_4k := 1\<rparr>) \<Longrightarrow>
      P (s2\<lparr>spin_4k := 1\<rparr>) r \<Longrightarrow> P s r"
  shows "P s r"
proof -
  have "sz = sz \<longrightarrow> grow_inv sz p s \<longrightarrow> P s r"
    using assms(1)
  proof (rule grow_4k.raw_induct[where P = "\<lambda>sz' p s r. sz' = sz \<longrightarrow> grow_inv sz p s \<longrightarrow> P s r", rotated])
    fix grow :: "u64 \<Rightarrow> nat option \<Rightarrow> kheap \<Rightarrow> (nat option \<times> kheap) kres" and sz' p s r
    assume IH: "\<And>sz' p s r. grow sz' p s = Some r \<Longrightarrow> sz' = sz \<longrightarrow> grow_inv sz p s \<longrightarrow> P s r"
      and step: "(case p of
        None \<Rightarrow>
          kbind (spin_unlock (spin_4k s)) (\<lambda>l.
          kbind (alloc_phy_page (phy s)) (\<lambda>(newaddr, ph).
            if newaddr = 0 then ret (None, s\<lparr>spin_4k := l, phy := ph\<rparr>)
            else
              kbind (free_kheap_4k newaddr PAGE_SIZE (s\<lparr>spin_4k := l, phy := ph\<rparr>)) (\<lambda>s2.
              kbind (spin_lock (spin_4k s2)) (\<lambda>l2.
              kbind (first_fit (nodes (p4k s2)) sz' (phead (p4k s2))) (\<lambda>p2.
                grow sz' p2 (s2\<lparr>spin_4k := l2\<rparr>))))))
        | Some q \<Rightarrow> ret (Some q, s)) = Some r"
    show "sz' = sz \<longrightarrow> grow_inv sz p s \<longrightarrow> P s r"
    proof (intro impI)
      assume "sz' = sz" and inv: "grow_inv sz p s"
      show "P s r"
      proof (cases p)
        case (Some q)
        with step inv found show ?thesis by auto
      next
        case None
        have lock: "spin_4k s = 1" using inv by (simp add: grow_inv_def)
        from inv None have inv': "grow_inv sz None s" by simp
        show ?thesis
        proof (cases "alloc_phy_page (phy s)" rule: kres_cases)
          case hangs
          with step None lock show ?thesis by simp
        next
          case (fault f)
          with step None lock have "r = Inl f" by simp
          then show ?thesis using assms(5) inv' by simp
        next
          case (val y)
          then obtain a ph where pg: "alloc_phy_page (phy s) = ret (a, ph)" by (cases y) auto
          show ?thesis
          proof (cases "a = 0")
            case True
            with step None lock pg out[OF inv'] show ?thesis by auto
          next
            case a: False
            from inv' pg a show ?thesis
            proof (cases rule: grow_4k_turn)
              case (stopped f)
              with step None lock pg a assms(5)[OF inv'] show ?thesis by auto
            next
              case (added s2 p2)
              with step None lock pg a \<open>sz' = sz\<close> have "grow sz p2 (s2\<lparr>spin_4k := 1\<rparr>) = Some r"
                by simp
              from IH[OF this] added(4) have "P (s2\<lparr>spin_4k := 1\<rparr>) r" by simp
              then show ?thesis by (rule turn[OF inv' pg a added(4-8)])
            qed
          qed
        qed
      qed
    qed
  qed
  then show ?thesis using assms(2) by simp
qed

text \<open>However the loop ends, it keeps the invariant and takes nothing from anyone.\<close>

definition grow_post :: "u64 \<Rightarrow> kheap \<Rightarrow> fault + nat option \<times> kheap \<Rightarrow> bool" where
  "grow_post sz s r =
     (case r of Inl f \<Rightarrow> True
      | Inr (found, s') \<Rightarrow> psmall s' = psmall s \<and> keeps_apart s s' \<and>
          (if found = None then kheap_ok s' else grow_inv sz found s'))"

lemma grow_4k_sound:
  assumes "grow_4k sz p s = Some r" "grow_inv sz p s"
  shows "grow_post sz s r"
  using assms
proof (induction rule: grow_4k_rule)
  case (found q s)
  then show ?case by (simp add: grow_post_def)
next
  case (out s ph)
  have ok: "kheap_ok (s\<lparr>spin_4k := 0\<rparr>)" using out by (simp add: grow_inv_def)
  then have "phy_ready ph \<and> page_blocks ph = page_blocks (phy s)"
    using out alloc_phy_page_ready[of "phy s"] by (auto simp: kheap_ok_def)
  with ok show ?case by (auto simp: grow_post_def kheap_ok_def kspace_def intro!: keeps_apart_mset)
next
  case (fault s f)
  then show ?case by (simp add: grow_post_def)
next
  case (turn s a ph s2 p2 r)
  then show ?case by (auto simp: grow_post_def split: sum.splits intro: keeps_apart_trans)
qed

section \<open>Taking blocks from the 4k heap\<close>

lemma grow_4k_found [simp]: "grow_4k sz (Some q) s = ret (Some q, s)"
  by (subst grow_4k.simps) simp

lemma grow_inv_carve:
  assumes "grow_inv sz (Some q) s"
  obtains r pl where "fit (\<lambda>x. x = 0) sz (holes_4k s) = Some (r, holes MAX_HEAP_HOLE pl)"
    "carve (\<lambda>x. x = 0) q sz (p4k s) = ret (r, pl)" "kheap_ok (s\<lparr>p4k := pl, spin_4k := 0\<rparr>)"
proof -
  have ok: "pool_ok MAX_HEAP_HOLE (p4k s)" and kok: "kheap_ok (s\<lparr>spin_4k := 0\<rparr>)"
    and ff: "first_fit (nodes (p4k s)) sz (phead (p4k s)) = ret (Some q)"
    using assms by (auto simp: grow_inv_def kheap_ok_def)
  obtain r hs where f: "fit (\<lambda>x. x = 0) sz (holes_4k s) = Some (r, hs)"
    using first_fit_none[OF ok, of "\<lambda>x. x = 0" sz] ff by fastforce
  from first_fit_carve[OF ok f] ff obtain pl where
    "carve (\<lambda>x. x = 0) q sz (p4k s) = ret (r, pl)" "pool_ok MAX_HEAP_HOLE pl"
    "holes MAX_HEAP_HOLE pl = hs" by auto
  with f kok show ?thesis by (intro that[of r pl]) (auto simp: kheap_ok_def)
qed

lemma kheap_ok_start:
  assumes "kheap_ok s"
  obtains p where "first_fit (nodes (p4k s)) sz (phead (p4k s)) = ret p"
    "grow_inv sz p (s\<lparr>spin_4k := 1\<rparr>)"
  using assms first_fit_ok[of MAX_HEAP_HOLE "p4k s" sz]
  by (auto simp: grow_inv_def kheap_ok_def intro: that)

lemma alloc_kheap_4k_unfold:
  assumes "kheap_ok s" "first_fit (nodes (p4k s)) (align_4k sz) (phead (p4k s)) = ret p"
  shows "alloc_kheap_4k sz s =
    kbind (grow_4k (align_4k sz) p (s\<lparr>spin_4k := 1\<rparr>)) (\<lambda>(found, s1).
        case found of
          None \<Rightarrow> ret (0, s1)
        | Some q \<Rightarrow>
            kbind (carve (\<lambda>x. x = 0) q (align_4k sz) (p4k s1)) (\<lambda>(r, pl).
            kbind (spin_unlock (spin_4k s1)) (\<lambda>l'.
              ret (r, s1\<lparr>p4k := pl, spin_4k := l'\<rparr>))))"
  using assms by (simp add: alloc_kheap_4k_def Let_def kheap_ok_def)

lemma alloc_finish:
  assumes "grow_inv sz (Some q) s"
  shows "\<exists>r s'. kbind (carve (\<lambda>x. x = 0) q sz (p4k s)) (\<lambda>(r, pl).
            kbind (spin_unlock (spin_4k s)) (\<lambda>l'. ret (r, s\<lparr>p4k := pl, spin_4k := l'\<rparr>))) = ret (r, s') \<and>
     kheap_ok s' \<and> psmall s' = psmall s \<and> phy s' = phy s \<and>
     fit (\<lambda>x. x = 0) sz (holes_4k s) = Some (r, holes_4k s')"
proof -
  from assms obtain r pl where c: "fit (\<lambda>x. x = 0) sz (holes_4k s) = Some (r, holes MAX_HEAP_HOLE pl)"
    "carve (\<lambda>x. x = 0) q sz (p4k s) = ret (r, pl)" "kheap_ok (s\<lparr>p4k := pl, spin_4k := 0\<rparr>)"
    by (rule grow_inv_carve)
  moreover have "spin_4k s = 1" using assms by (simp add: grow_inv_def)
  ultimately show ?thesis
    by (intro exI[of _ r] exI[of _ "s\<lparr>p4k := pl, spin_4k := 0\<rparr>"]) simp
qed

text \<open>A request that a hole can serve is served by first fit, without touching the pages.\<close>

lemma alloc_kheap_4k_fit:
  assumes ok: "kheap_ok s" and f: "fit (\<lambda>x. x = 0) (align_4k sz) (holes_4k s) = Some (r, hs)"
  shows "\<exists>s'. alloc_kheap_4k sz s = ret (r, s') \<and> kheap_ok s' \<and> holes_4k s' = hs \<and>
     psmall s' = psmall s \<and> phy s' = phy s"
proof -
  from ok obtain p where p: "first_fit (nodes (p4k s)) (align_4k sz) (phead (p4k s)) = ret p"
    "grow_inv (align_4k sz) p (s\<lparr>spin_4k := 1\<rparr>)" by (rule kheap_ok_start)
  have pk: "pool_ok MAX_HEAP_HOLE (p4k s)" using ok by (simp add: kheap_ok_def)
  then obtain q where q: "p = Some q" using first_fit_carve[OF pk f] p(1) by auto
  from alloc_finish[OF p(2)[unfolded q]] f show ?thesis
    by (auto simp: alloc_kheap_4k_unfold[OF ok p(1)] q)
qed

lemma fit_kspace:
  assumes "fit (\<lambda>x. x = 0) sz (holes_4k s) = Some (r, holes_4k s')" "psmall s' = psmall s"
    "phy s' = phy s" "separated (live @ kspace s)"
  shows "separated ((r, sz) # live @ kspace s')"
proof -
  let ?rest = "holes_small s @ page_blocks (phy s)"
  have "mset (live @ kspace s) = mset ((live @ ?rest) @ holes_4k s)" by (simp add: kspace_def)
  then have "separated ((live @ ?rest) @ holes_4k s)" using assms(4) by (rule separated_mset)
  from fit_live[OF assms(1) this] have "separated ((r, sz) # (live @ ?rest) @ holes_4k s')" by simp
  moreover have "mset ((r, sz) # (live @ ?rest) @ holes_4k s') = mset ((r, sz) # live @ kspace s')"
    using assms(2,3) by (simp add: kspace_def)
  ultimately show ?thesis using separated_mset by blast
qed

lemma alloc_kheap_4k_sound:
  assumes ok: "kheap_ok s" and res: "alloc_kheap_4k sz s = ret (r, s')"
  shows "kheap_ok s' \<and> psmall s' = psmall s \<and> (separated (live @ kspace s) \<longrightarrow>
    separated ((if r = 0 then [] else [(r, align_4k sz)]) @ live @ kspace s'))"
proof -
  from ok obtain p where p: "first_fit (nodes (p4k s)) (align_4k sz) (phead (p4k s)) = ret p"
    "grow_inv (align_4k sz) p (s\<lparr>spin_4k := 1\<rparr>)" by (rule kheap_ok_start)
  let ?g = "grow_4k (align_4k sz) p (s\<lparr>spin_4k := 1\<rparr>)"
  show ?thesis
  proof (cases ?g rule: kres_cases)
    case (val y)
    obtain found s1 where y: "y = (found, s1)" by (cases y)
    from val have post: "grow_post (align_4k sz) (s\<lparr>spin_4k := 1\<rparr>) (Inr y)"
      using grow_4k_sound[OF _ p(2)] by blast
    then have ka: "separated (live @ kspace s) \<Longrightarrow> separated (live @ kspace s1)"
      and sm: "psmall s1 = psmall s" by (auto simp: grow_post_def y keeps_apart_def)
    show ?thesis
    proof (cases found)
      case None
      with val y res post ka sm show ?thesis
        by (auto simp: alloc_kheap_4k_unfold[OF ok p(1)] grow_post_def)
    next
      case (Some q)
      with post y have "grow_inv (align_4k sz) (Some q) s1" by (simp add: grow_post_def)
      from alloc_finish[OF this] val y Some res have fin: "kheap_ok s'" "psmall s' = psmall s1"
        "phy s' = phy s1" "fit (\<lambda>x. x = 0) (align_4k sz) (holes_4k s1) = Some (r, holes_4k s')"
        by (auto simp: alloc_kheap_4k_unfold[OF ok p(1)])
      with ka sm fit_kspace[OF fin(4) fin(2,3)] show ?thesis
        by (auto simp: separated_Cons)
    qed
  qed (use res in \<open>simp_all add: alloc_kheap_4k_unfold[OF ok p(1)]\<close>)
qed

section \<open>The small heap\<close>

lemma free_kheap_small_ok:
  assumes ok: "kheap_ok s" and al: "addr AND 0xfff = 0" "sz AND 0xfff = 0"
    and room: "length (holes_small s) < MAX_SMALL_HOLE"
  shows "\<exists>s'. free_kheap_small addr sz s = ret s' \<and> kheap_ok s' \<and> p4k s' = p4k s \<and>
     phy s' = phy s \<and> holes_small s' = (addr, sz) # holes_small s"
proof -
  have ps: "pool_ok MAX_SMALL_HOLE (psmall s)" "spin_small s = 0" using ok by (auto simp: kheap_ok_def)
  from pool_ok_room[OF ps(1) room] obtain p where p: "pfree (psmall s) = Some p" .
  with free_front_ok[OF ps(1) p, of addr sz] ps al ok show ?thesis
    by (simp add: free_kheap_small_def kassert_def kheap_ok_def)
qed

lemma free_kheap_small_cases:
  assumes ok: "kheap_ok s"
  obtains (freed) s' where "free_kheap_small addr sz s = ret s'" "kheap_ok s'" "p4k s' = p4k s"
      "phy s' = phy s" "holes_small s' = (addr, sz) # holes_small s"
    | (stopped) f where "free_kheap_small addr sz s = halt f"
proof (cases "(addr AND 0xfff = 0 \<and> sz AND 0xfff = 0) \<and> length (holes_small s) < MAX_SMALL_HOLE")
  case True
  with free_kheap_small_ok[OF ok, of addr sz] show ?thesis using freed by blast
next
  case False
  then have "length (holes_small s) = MAX_SMALL_HOLE \<or> \<not> (addr AND 0xfff = 0 \<and> sz AND 0xfff = 0)"
    using holes_small_le[OF ok] by auto
  then have "\<exists>f. free_kheap_small addr sz s = halt f"
    using ok pool_ok_full[of MAX_SMALL_HOLE "psmall s"]
    by (auto simp: free_kheap_small_def kassert_def kheap_ok_def)
  then show ?thesis using stopped by blast
qed

definition small_inv :: "u64 \<Rightarrow> nat option \<Rightarrow> kheap \<Rightarrow> bool" where
  "small_inv sz p s \<longleftrightarrow> spin_small s = 1 \<and> kheap_ok (s\<lparr>spin_small := 0\<rparr>) \<and>
     first_fit (nodes (psmall s)) sz (phead (psmall s)) = ret p"

lemma grow_small_turn:
  assumes inv: "small_inv sz None s" and page: "alloc_kheap_4k 0x1000 (s\<lparr>spin_small := 0\<rparr>) = ret (a, s1)" "a \<noteq> 0"
  obtains (stopped) f where "free_kheap_small a 0x1000 s1 = halt f"
    | (added) s2 p2 where "free_kheap_small a 0x1000 s1 = ret s2"
      "spin_small s2 = 0" "first_fit (nodes (psmall s2)) sz (phead (psmall s2)) = ret p2"
      "small_inv sz p2 (s2\<lparr>spin_small := 1\<rparr>)" "keeps_apart s (s2\<lparr>spin_small := 1\<rparr>)"
      "holes_small s2 = (a, 0x1000) # holes_small s" "p4k s2 = p4k s1" "phy s2 = phy s1"
proof -
  have ok0: "kheap_ok (s\<lparr>spin_small := 0\<rparr>)" using inv by (simp add: small_inv_def)
  have al: "align_4k 0x1000 = 0x1000" by (simp add: align_4k_def)
  note snd = alloc_kheap_4k_sound[OF ok0 page(1), unfolded al]
  then have ok1: "kheap_ok s1" by simp
  from ok1 show ?thesis
  proof (cases rule: free_kheap_small_cases[where addr = a and sz = "0x1000"])
    case (freed s2)
    obtain p2 where p2: "first_fit (nodes (psmall s2)) sz (phead (psmall s2)) = ret p2"
      using freed(2) first_fit_ok by (auto simp: kheap_ok_def)
    have "mset (kspace s2) = add_mset (a, 0x1000) (mset (kspace s1))"
      using freed by (simp add: kspace_def)
    then have m: "mset ((a, 0x1000) # live @ kspace s1) = mset (live @ kspace s2)" for live by simp
    have "keeps_apart s (s2\<lparr>spin_small := 1\<rparr>)"
      using snd page(2) separated_mset[OF m] by (simp add: keeps_apart_def)
    moreover have "small_inv sz p2 (s2\<lparr>spin_small := 1\<rparr>)" "spin_small s2 = 0"
      using freed(2) p2 by (simp_all add: small_inv_def kheap_ok_def)
    moreover have "holes_small s2 = (a, 0x1000) # holes_small s" using freed(5) snd by simp
    ultimately show ?thesis using added freed p2 by simp
  next
    case stopped
    then show ?thesis by (rule that(1))
  qed
qed

lemma grow_small_found [simp]: "grow_small sz (Some q) s = ret (Some q, s)"
  by (subst grow_small.simps) simp

definition small_post :: "u64 \<Rightarrow> kheap \<Rightarrow> fault + nat option \<times> kheap \<Rightarrow> bool" where
  "small_post sz s r =
     (case r of Inl f \<Rightarrow> True
      | Inr (found, s') \<Rightarrow> keeps_apart s s' \<and>
          (if found = None then kheap_ok s' else small_inv sz found s'))"

lemma grow_small_sound:
  assumes "grow_small sz p s = Some r" "small_inv sz p s"
  shows "small_post sz s r"
proof -
  have "small_inv sz p s \<longrightarrow> small_post sz s r"
    using assms(1)
  proof (rule grow_small.raw_induct[where P = "\<lambda>sz p s r. small_inv sz p s \<longrightarrow> small_post sz s r", rotated], intro impI)
    fix grow :: "u64 \<Rightarrow> nat option \<Rightarrow> kheap \<Rightarrow> (nat option \<times> kheap) kres" and sz p s r
    assume IH: "\<And>sz p s r. grow sz p s = Some r \<Longrightarrow> small_inv sz p s \<longrightarrow> small_post sz s r"
      and step: "(case p of
        None \<Rightarrow>
          kbind (spin_unlock (spin_small s)) (\<lambda>l.
          kbind (alloc_kheap_4k 0x1000 (s\<lparr>spin_small := l\<rparr>)) (\<lambda>(newaddr, s1).
            if newaddr = 0 then ret (None, s1)
            else
              kbind (free_kheap_small newaddr 0x1000 s1) (\<lambda>s2.
              kbind (spin_lock (spin_small s2)) (\<lambda>l2.
              kbind (first_fit (nodes (psmall s2)) sz (phead (psmall s2))) (\<lambda>p2.
                grow sz p2 (s2\<lparr>spin_small := l2\<rparr>))))))
        | Some q \<Rightarrow> ret (Some q, s)) = Some r"
      and inv: "small_inv sz p s"
    have lock: "spin_small s = 1" and ok0: "kheap_ok (s\<lparr>spin_small := 0\<rparr>)"
      using inv by (auto simp: small_inv_def)
    show "small_post sz s r"
    proof (cases p)
      case (Some q)
      with step inv show ?thesis by (auto simp: small_post_def)
    next
      case None
      show ?thesis
      proof (cases "alloc_kheap_4k 0x1000 (s\<lparr>spin_small := 0\<rparr>)" rule: kres_cases)
        case (val y)
        then obtain a s1 where pg: "alloc_kheap_4k 0x1000 (s\<lparr>spin_small := 0\<rparr>) = ret (a, s1)" by (cases y) auto
        show ?thesis
        proof (cases "a = 0")
          case True
          with step None lock pg have "r = Inr (None, s1)" by simp
          then show ?thesis using alloc_kheap_4k_sound[OF ok0 pg] True
            by (simp add: small_post_def keeps_apart_def)
        next
          case a: False
          from inv[unfolded None] pg a show ?thesis
          proof (cases rule: grow_small_turn)
            case (stopped f)
            with step None lock pg a show ?thesis by (auto simp: small_post_def)
          next
            case (added s2 p2)
            with step None lock pg a have "grow sz p2 (s2\<lparr>spin_small := 1\<rparr>) = Some r" by simp
            from IH[OF this] added(4,5) show ?thesis
              by (auto simp: small_post_def split: sum.splits intro: keeps_apart_trans)
          qed
        qed
      qed (use step None lock in \<open>auto simp: small_post_def\<close>)
    qed
  qed
  then show ?thesis using assms(2) by simp
qed

lemma small_finish:
  assumes inv: "small_inv sz (Some q) s"
  shows "\<exists>r s'. kbind (carve (\<lambda>x. x \<le> 16) q sz (psmall s)) (\<lambda>(r, pl).
            kbind (spin_unlock (spin_small s)) (\<lambda>l'. ret (r, s\<lparr>psmall := pl, spin_small := l'\<rparr>))) = ret (r, s') \<and>
     kheap_ok s' \<and> p4k s' = p4k s \<and> phy s' = phy s \<and>
     fit (\<lambda>x. x \<le> 16) sz (holes_small s) = Some (r, holes_small s')"
proof -
  have ok: "pool_ok MAX_SMALL_HOLE (psmall s)" and kok: "kheap_ok (s\<lparr>spin_small := 0\<rparr>)"
    and ff: "first_fit (nodes (psmall s)) sz (phead (psmall s)) = ret (Some q)" and l: "spin_small s = 1"
    using inv by (auto simp: small_inv_def kheap_ok_def)
  obtain r hs where f: "fit (\<lambda>x. x \<le> 16) sz (holes_small s) = Some (r, hs)"
    using first_fit_none[OF ok, of "\<lambda>x. x \<le> 16" sz] ff by fastforce
  from first_fit_carve[OF ok f] ff obtain pl where
    "carve (\<lambda>x. x \<le> 16) q sz (psmall s) = ret (r, pl)" "pool_ok MAX_SMALL_HOLE pl"
    "holes MAX_SMALL_HOLE pl = hs" by auto
  with f kok l show ?thesis
    by (intro exI[of _ r] exI[of _ "s\<lparr>psmall := pl, spin_small := 0\<rparr>"]) (simp add: kheap_ok_def)
qed

lemma small_start:
  assumes "kheap_ok s"
  obtains p where "first_fit (nodes (psmall s)) sz (phead (psmall s)) = ret p"
    "small_inv sz p (s\<lparr>spin_small := 1\<rparr>)"
  using assms first_fit_ok[of MAX_SMALL_HOLE "psmall s" sz]
  by (auto simp: small_inv_def kheap_ok_def intro: that)

lemma alloc_kheap_small_unfold:
  assumes "kheap_ok s" "first_fit (nodes (psmall s)) sz (phead (psmall s)) = ret p" "sz < 0x1000"
  shows "alloc_kheap_small sz s =
    kbind (grow_small sz p (s\<lparr>spin_small := 1\<rparr>)) (\<lambda>(found, s1).
        case found of
          None \<Rightarrow> ret (0, s1)
        | Some q \<Rightarrow>
            kbind (carve (\<lambda>x. x \<le> 16) q sz (psmall s1)) (\<lambda>(r, pl).
            kbind (spin_unlock (spin_small s1)) (\<lambda>l'.
              ret (r, s1\<lparr>psmall := pl, spin_small := l'\<rparr>))))"
  using assms by (simp add: alloc_kheap_small_def kassert_def kheap_ok_def)

lemma fit_kspace_small:
  assumes "fit (\<lambda>x. x \<le> 16) sz (holes_small s) = Some (r, holes_small s')" "p4k s' = p4k s"
    "phy s' = phy s" "separated (live @ kspace s)"
  shows "separated ((r, sz) # live @ kspace s')"
proof -
  let ?rest = "holes_4k s @ page_blocks (phy s)"
  have "mset (live @ kspace s) = mset ((live @ ?rest) @ holes_small s)" by (simp add: kspace_def)
  then have "separated ((live @ ?rest) @ holes_small s)" using assms(4) by (rule separated_mset)
  from fit_live[OF assms(1) this] have "separated ((r, sz) # (live @ ?rest) @ holes_small s')" by simp
  moreover have "mset ((r, sz) # (live @ ?rest) @ holes_small s') = mset ((r, sz) # live @ kspace s')"
    using assms(2,3) by (simp add: kspace_def)
  ultimately show ?thesis using separated_mset by blast
qed

lemma alloc_kheap_small_sound:
  assumes ok: "kheap_ok s" and res: "alloc_kheap_small sz s = ret (r, s')"
  shows "kheap_ok s' \<and> (separated (live @ kspace s) \<longrightarrow>
    separated ((if r = 0 then [] else [(r, sz)]) @ live @ kspace s'))"
proof -
  have sz: "sz < 0x1000" using res by (auto simp: alloc_kheap_small_def kassert_def split: if_splits)
  from ok obtain p where p: "first_fit (nodes (psmall s)) sz (phead (psmall s)) = ret p"
    "small_inv sz p (s\<lparr>spin_small := 1\<rparr>)" by (rule small_start)
  note unf = alloc_kheap_small_unfold[OF ok p(1) sz]
  show ?thesis
  proof (cases "grow_small sz p (s\<lparr>spin_small := 1\<rparr>)" rule: kres_cases)
    case (val y)
    obtain found s1 where y: "y = (found, s1)" by (cases y)
    from val have post: "small_post sz (s\<lparr>spin_small := 1\<rparr>) (Inr y)"
      using grow_small_sound[OF _ p(2)] by blast
    then have ka: "separated (live @ kspace s) \<Longrightarrow> separated (live @ kspace s1)"
      by (auto simp: small_post_def y keeps_apart_def)
    show ?thesis
    proof (cases found)
      case None
      with val y res post ka show ?thesis by (auto simp: unf small_post_def)
    next
      case (Some q)
      with post y have "small_inv sz (Some q) s1" by (simp add: small_post_def)
      from small_finish[OF this] val y Some res have fin: "kheap_ok s'" "p4k s' = p4k s1"
        "phy s' = phy s1" "fit (\<lambda>x. x \<le> 16) sz (holes_small s1) = Some (r, holes_small s')"
        by (auto simp: unf)
      with ka fit_kspace_small[OF fin(4) fin(2,3)] show ?thesis
        by (auto simp: separated_Cons)
    qed
  qed (use res in \<open>simp_all add: unf\<close>)
qed

section \<open>The heap as a source of blocks\<close>

text \<open>The calls by which the kernel takes memory and gives it back.\<close>

datatype kreq = Req_4k u64 | Req_small u64 | Req_page

datatype kfree = Free_4k u64 u64 | Free_small u64 u64 | Free_page u64

fun kheap_acquire :: "kreq \<Rightarrow> kheap \<Rightarrow> (u64 \<times> kheap) kres" where
  "kheap_acquire (Req_4k sz) s = alloc_kheap_4k sz s"
| "kheap_acquire (Req_small sz) s = alloc_kheap_small sz s"
| "kheap_acquire Req_page s =
     kbind (alloc_phy_page (phy s)) (\<lambda>(a, ph). ret (a, s\<lparr>phy := ph\<rparr>))"

fun kreq_len :: "kreq \<Rightarrow> u64" where
  "kreq_len (Req_4k sz) = align_4k sz"
| "kreq_len (Req_small sz) = sz"
| "kreq_len Req_page = PAGE_SIZE"

fun kheap_release :: "kfree \<Rightarrow> kheap \<Rightarrow> kheap kres" where
  "kheap_release (Free_4k a sz) s = free_kheap_4k a sz s"
| "kheap_release (Free_small a sz) s = free_kheap_small a sz s"
| "kheap_release (Free_page a) s =
     kbind (free_phy_one_page a (phy s)) (\<lambda>ph. ret (s\<lparr>phy := ph\<rparr>))"

fun kfree_block :: "kfree \<Rightarrow> block" where
  "kfree_block (Free_4k a sz) = (a, sz)"
| "kfree_block (Free_small a sz) = (a, sz)"
| "kfree_block (Free_page a) = (a, PAGE_SIZE)"

lemma page_of_addr:
  assumes "0x200000 dvd unat a"
  shows "PAGE_SIZE * (a div PAGE_SIZE) = a"
proof -
  have "unat (PAGE_SIZE * (a div PAGE_SIZE)) = unat a"
    using page_number(1)[OF assms] unsigned_less[where ?'b = 64 and ?'a = nat, of a]
    by (simp add: unat_word_ariths mult.commute)
  then show ?thesis by (simp only: word_unat_eq_iff)
qed

lemma free_phy_one_page_ready:
  assumes rdy: "phy_ready ph" and res: "free_phy_one_page a ph = ret ph'"
  shows "phy_ready ph' \<and> (page_blocks ph' = page_blocks ph \<or>
    mset (page_blocks ph') = add_mset (a, PAGE_SIZE) (mset (page_blocks ph)))"
proof (cases "a = 0")
  case True
  with assms show ?thesis by (simp add: free_phy_one_page_def)
next
  case False
  let ?i = "unat (a div PAGE_SIZE)"
  have al: "0x200000 dvd unat a" "a < max_phy_addr ph"
    using res False by (auto simp: free_phy_one_page_def kassert_def page_aligned_iff split: if_splits)
  show ?thesis
  proof (cases "phy_ok ph")
    case True
    have "0x200000 * ?i < unat (max_phy_addr ph)"
      using al page_number(1)[OF al(1)] by (simp add: word_less_nat_alt mult.commute)
    from mark_free_ok[OF True page_number(2)[OF al(1) False] this] obtain m where
      m: "test_and_set_bit ?i (pgbits ph) = ret (?i \<in> free_set ph, m)"
        "phy_ok (mark_free (?i \<in> free_set ph) m ph)"
        "free_set (mark_free (?i \<in> free_set ph) m ph) = insert ?i (free_set ph)" by blast
    have ph': "ph' = mark_free (?i \<in> free_set ph) m ph"
      using res m(1) al False
      by (auto simp: free_phy_one_page_def kassert_def page_aligned_iff mark_free_def split: if_splits)
    show ?thesis
    proof (cases "?i \<in> free_set ph")
      case True
      with m(2,3) ph' show ?thesis by (simp add: phy_ready_def page_blocks_def insert_absorb)
    next
      case new: False
      with m(3) ph' have "free_set ph = free_set ph' - {?i}" "?i \<in> free_set ph'" by auto
      from page_blocks_remove[OF this(2,1)] m(2) ph' show ?thesis
        by (simp add: phy_ready_def page_of_addr[OF al(1)])
    qed
  next
    case off: False
    then have "pgbits ph = []" using rdy by (simp add: phy_ready_def phy_off_def)
    with res False al test_and_set_bit_out[of "[]"] show ?thesis
      by (simp add: free_phy_one_page_def kassert_def page_aligned_iff)
  qed
qed

lemma kheap_acquire_law:
  assumes ok: "kheap_ok s" and res: "kheap_acquire q s = ret (r, s')"
  shows "kheap_ok s' \<and> (separated (live @ kspace s) \<longrightarrow>
    separated ((if r = 0 then [] else [(r, kreq_len q)]) @ live @ kspace s'))"
proof (cases q)
  case (Req_4k sz)
  with ok res alloc_kheap_4k_sound[of s sz r s' live] show ?thesis by auto
next
  case (Req_small sz)
  with ok res alloc_kheap_small_sound[of s sz r s' live] show ?thesis by auto
next
  case Req_page
  with res obtain ph where ph: "alloc_phy_page (phy s) = ret (r, ph)" "s' = s\<lparr>phy := ph\<rparr>"
    by (auto simp: kbind_eq_ret)
  have rdy: "phy_ready (phy s)" using ok by (simp add: kheap_ok_def)
  note pg = alloc_phy_page_ready[OF rdy ph(1)]
  show ?thesis
  proof (cases "r = 0")
    case True
    with pg ok ph show ?thesis by (simp add: kheap_ok_def kspace_def)
  next
    case False
    with pg have "mset (live @ kspace s) = mset ((r, PAGE_SIZE) # live @ kspace s')"
      by (simp add: kspace_def ph(2))
    from separated_mset[OF this] False Req_page pg ok ph show ?thesis by (simp add: kheap_ok_def)
  qed
qed

lemma kheap_release_law:
  assumes ok: "kheap_ok s" and res: "kheap_release f s = ret s'"
  shows "kheap_ok s' \<and> mset (kspace s') \<subseteq># add_mset (kfree_block f) (mset (kspace s))"
proof (cases f)
  case (Free_4k a sz)
  from ok show ?thesis
    by (cases rule: free_kheap_4k_cases[where addr = a and sz = sz])
      (use res Free_4k in \<open>auto simp: kspace_def ins_hole_mset\<close>)
next
  case (Free_small a sz)
  from ok show ?thesis
    by (cases rule: free_kheap_small_cases[where addr = a and sz = sz])
      (use res Free_small in \<open>auto simp: kspace_def\<close>)
next
  case (Free_page a)
  with res obtain ph where ph: "free_phy_one_page a (phy s) = ret ph" "s' = s\<lparr>phy := ph\<rparr>"
    by (auto simp: kbind_eq_ret)
  have "phy_ready (phy s)" using ok by (simp add: kheap_ok_def)
  from free_phy_one_page_ready[OF this ph(1)] ok Free_page ph(2) show ?thesis
    by (auto simp: kheap_ok_def kspace_def)
qed

interpretation kh: block_source kheap_ok kspace kheap_acquire kreq_len kheap_release kfree_block
proof unfold_locales
  fix s q r s' live
  assume "kheap_ok s" "kheap_acquire q s = ret (r, s')"
  then show "kheap_ok s'"
    and "separated (live @ kspace s) \<Longrightarrow>
      separated ((if r = 0 then [] else [(r, kreq_len q)]) @ live @ kspace s')"
    using kheap_acquire_law[of s q r s' live] by blast+
next
  fix s f s' live
  assume "kheap_ok s" "kheap_release f s = ret s'"
  note law = kheap_release_law[OF this]
  then show "kheap_ok s'" by simp
  from law obtain xs where "add_mset (kfree_block f) (mset (kspace s)) = mset (kspace s') + mset xs"
    by (metis ex_mset mset_subset_eq_exists_conv)
  then have "mset (kfree_block f # live @ kspace s) = mset ((live @ kspace s') @ xs)" by simp
  then show "separated (kfree_block f # live @ kspace s) \<Longrightarrow> separated (live @ kspace s')"
    using separated_mset separated_append by blast
qed

section \<open>When the heap grows and when it cannot\<close>

lemma fit_new_page:
  assumes "\<forall>h \<in> set hs. snd h < sz" "sz \<le> PAGE_SIZE"
  shows "\<exists>hs'. fit (\<lambda>x. x = 0) sz (ins_hole (a, PAGE_SIZE) hs) = Some (a, hs')"
proof -
  have tail: "\<exists>hs'. fit (\<lambda>x. x = 0) sz (ins_tail (a, PAGE_SIZE) zs) = Some (a, hs')"
    if "\<forall>h \<in> set zs. snd h < sz" for zs
    using that assms(2) by (induction zs) (auto simp: not_less)
  show ?thesis
  proof (cases hs)
    case (Cons y ys)
    then show ?thesis using assms tail[of ys] by (cases y) (auto simp: not_less)
  qed (use assms(2) in \<open>auto simp: not_less\<close>)
qed

lemma alloc_kheap_4k_grows_ok:
  assumes ok: "kheap_ok s" and none: "\<forall>h \<in> set (holes_4k s). snd h < align_4k sz"
    and sz: "align_4k sz \<le> PAGE_SIZE" and room: "length (holes_4k s) < MAX_HEAP_HOLE"
    and page: "alloc_phy_page (phy s) = ret (a, ph)" "a \<noteq> 0"
  shows "\<exists>s'. alloc_kheap_4k sz s = ret (a, s') \<and> kheap_ok s' \<and> phy s' = ph \<and>
    fit (\<lambda>x. x = 0) (align_4k sz) (ins_hole (a, PAGE_SIZE) (holes_4k s)) = Some (a, holes_4k s')"
proof -
  let ?z = "align_4k sz" and ?s = "s\<lparr>spin_4k := 1\<rparr>"
  have "fit (\<lambda>x. x = 0) ?z (holes_4k s) = None" using none by (simp add: fit_None_iff)
  then have ff: "first_fit (nodes (p4k s)) ?z (phead (p4k s)) = ret None"
    using ok first_fit_none[of MAX_HEAP_HOLE "p4k s" "\<lambda>x. x = 0" ?z] by (simp add: kheap_ok_def)
  then have inv: "grow_inv ?z None ?s" using ok by (simp add: grow_inv_def kheap_ok_def)
  have rdy: "phy_ready (phy s)" using ok by (simp add: kheap_ok_def)
  have al: "a AND 0xfff = 0" using alloc_phy_page_ready[OF rdy page(1)] page(2) page_aligned_4k by blast
  have "kheap_ok (?s\<lparr>spin_4k := 0, phy := ph\<rparr>)"
    using ok alloc_phy_page_ready[OF rdy page(1)] by (simp add: kheap_ok_def)
  from free_kheap_4k_ok[OF this al PAGE_SIZE_aligned_4k] room
  have nostop: "free_kheap_4k a PAGE_SIZE (?s\<lparr>spin_4k := 0, phy := ph\<rparr>) \<noteq> halt f" for f by auto
  have "alloc_phy_page (phy ?s) = ret (a, ph)" using page by simp
  from inv this page(2) obtain s2 p2 where
    s2: "free_kheap_4k a PAGE_SIZE (?s\<lparr>spin_4k := 0, phy := ph\<rparr>) = ret s2"
      "spin_4k s2 = 0" "first_fit (nodes (p4k s2)) ?z (phead (p4k s2)) = ret p2"
      "grow_inv ?z p2 (s2\<lparr>spin_4k := 1\<rparr>)" "phy s2 = ph"
      "holes_4k s2 = ins_hole (a, PAGE_SIZE) (holes_4k s)"
    using nostop by (cases rule: grow_4k_turn) auto
  obtain hs' where f: "fit (\<lambda>x. x = 0) ?z (holes_4k s2) = Some (a, hs')"
    using fit_new_page[OF none sz] s2(6) by auto
  have "pool_ok MAX_HEAP_HOLE (p4k s2)" using s2(4) by (simp add: grow_inv_def kheap_ok_def)
  from first_fit_carve[OF this f] s2(3) obtain q where q: "p2 = Some q" by auto
  have "grow_4k ?z None ?s = ret (Some q, s2\<lparr>spin_4k := 1\<rparr>)"
    using page s2 q by (subst grow_4k.simps) simp
  with alloc_finish[OF s2(4)[unfolded q]] f s2(5,6) show ?thesis
    by (auto simp: alloc_kheap_4k_unfold[OF ok ff])
qed

text \<open>No page is left that the search would find.\<close>

definition drained :: "phymem \<Rightarrow> bool" where
  "drained ph \<longleftrightarrow> (\<forall>k < pmax ph. k < length (pgbits ph) \<longrightarrow> pgbits ph ! k = 0)"

lemma grow_4k_too_big:
  assumes "grow_4k sz p s = Some r" "grow_inv sz p s" "\<forall>h \<in> set (holes_4k s). snd h < sz" "PAGE_SIZE < sz"
  shows "case r of Inl f \<Rightarrow> True
     | Inr (found, s') \<Rightarrow> found = None \<and> (\<exists>ph. alloc_phy_page ph = ret (0, phy s') \<and> drained ph)"
  using assms(1-3)
proof (induction rule: grow_4k_rule)
  case (found q s)
  then have "fit (\<lambda>x. x = 0) sz (holes_4k s) = None" by (simp add: fit_None_iff)
  then show ?case using found(1) first_fit_none[of MAX_HEAP_HOLE "p4k s"]
    by (auto simp: grow_inv_def kheap_ok_def)
next
  case (out s ph)
  have "phy_ready (phy s)" using out by (simp add: grow_inv_def kheap_ok_def)
  from alloc_phy_page_ready[OF this out(2)] have "drained (phy s)" by (auto simp: drained_def)
  with out show ?case by auto
next
  case (fault s f)
  then show ?case by simp
next
  case (turn s a ph s2 p2 r)
  have "set (ins_hole (a, PAGE_SIZE) (holes_4k s)) = insert (a, PAGE_SIZE) (set (holes_4k s))"
    by (metis ins_hole_mset set_mset_add_mset_insert set_mset_mset)
  with turn assms(4) show ?case by auto
qed

section \<open>Properties\<close>

text \<open>
  C5 (safety). However the kernel's calls to the 4k heap, the small heap and the page allocator
  are interleaved, two blocks that are held at the same time never overlap, as long as the calls
  return and every block given back is one that is held.
\<close>

theorem kheap_blocks_apart:
  assumes "block_run kheap_acquire kreq_len kheap_release kfree_block s0 live0 s live"
    and "kheap_ok s0" and "separated (live0 @ kspace s0)" and "i < j" and "j < length live"
  shows "apart (live ! i) (live ! j)"
  using assms by (rule kh.run_apart)

definition demo_heap :: kheap where
  "demo_heap = init_kheap \<lparr>p4k = init_pool 1, spin_4k = 1, psmall = init_pool 1, spin_small = 1,
     phy = demo_mem 5\<rparr>"

lemma init_kheap_ok: "phy_ready (phy s) \<Longrightarrow> kheap_ok (init_kheap s) \<and>
    holes_4k (init_kheap s) = [] \<and> holes_small (init_kheap s) = [] \<and> phy (init_kheap s) = phy s"
  using init_pool_ok[of MAX_HEAP_HOLE] init_pool_ok[of MAX_SMALL_HOLE]
  by (simp add: init_kheap_def kheap_ok_def init_spinlock_def kheap_max)

lemma demo_heap_ok: "kheap_ok demo_heap" "holes_4k demo_heap = []" "holes_small demo_heap = []"
    "phy demo_heap = demo_mem 5"
  using init_kheap_ok[of "\<lparr>p4k = init_pool 1, spin_4k = 1, psmall = init_pool 1, spin_small = 1,
     phy = demo_mem 5\<rparr>"]
  by (simp_all add: demo_heap_def phy_ready_def demo_mem_ok)

lemma demo_heap_space: "kspace demo_heap = [(0xA00000, 0x200000)]"
  by (simp add: kspace_def demo_heap_ok page_blocks_def demo_mem_free PAGE_SIZE_def)

lemma demo_heap_start: "separated ([(0x100000, 0x3000)] @ kspace demo_heap)"
  by (simp add: demo_heap_space separated_def apart_def blk_end_def)

lemma demo_heap_freed:
  "\<exists>s. free_kheap_4k 0x100000 0x3000 demo_heap = ret s \<and> kheap_ok s \<and>
     holes_4k s = [(0x100000, 0x3000)] \<and> holes_small s = [] \<and> phy s = demo_mem 5"
  using free_kheap_4k_ok[OF demo_heap_ok(1), of "0x100000" "0x3000"] demo_heap_ok
  by (auto simp: MAX_HEAP_HOLE_def)

theorem kheap_blocks_apart_witness:
  "\<exists>s live. block_run kheap_acquire kreq_len kheap_release kfree_block demo_heap [(0x100000, 0x3000)] s live \<and>
     live = [(0x101000, 0x2000), (0x100000, 0x1000)] \<and> apart (live ! 0) (live ! 1)"
proof -
  obtain s1 where s1: "free_kheap_4k 0x100000 0x3000 demo_heap = ret s1" "kheap_ok s1"
    "holes_4k s1 = [(0x100000, 0x3000)]" using demo_heap_freed by blast
  obtain s2 where s2: "alloc_kheap_4k 0x1000 s1 = ret (0x100000, s2)" "kheap_ok s2"
    "holes_4k s2 = [(0x101000, 0x2000)]"
    using alloc_kheap_4k_fit[OF s1(2), of "0x1000" "0x100000" "[(0x101000, 0x2000)]"] s1(3)
    by (auto simp: align_4k_def)
  obtain s3 where s3: "alloc_kheap_4k 0x1801 s2 = ret (0x101000, s3)"
    using alloc_kheap_4k_fit[OF s2(2), of "0x1801" "0x101000" "[]"] s2(3) by (auto simp: align_4k_def)
  let ?run = "block_run kheap_acquire kreq_len kheap_release kfree_block demo_heap [(0x100000, 0x3000)]"
  have "?run demo_heap ([] @ kfree_block (Free_4k 0x100000 0x3000) # [])"
    by (simp add: block_run.start)
  then have "?run s1 ([] @ [])" by (rule block_run.gave) (simp add: s1(1))
  then have "?run s2 ((0x100000, kreq_len (Req_4k 0x1000)) # [] @ [])"
    by (rule block_run.got) (simp_all add: s2(1))
  then have "?run s3 ((0x101000, kreq_len (Req_4k 0x1801)) # (0x100000, kreq_len (Req_4k 0x1000)) # [] @ [])"
    by (rule block_run.got) (simp_all add: s3)
  then have run: "?run s3 [(0x101000, 0x2000), (0x100000, 0x1000)]" by (simp add: align_4k_def)
  then show ?thesis
    using kheap_blocks_apart[OF run demo_heap_ok(1) demo_heap_start, of 0 1] by fastforce
qed

text \<open>
  C6 (refinement). A request that some hole can serve returns the lowest address at which a hole is
  large enough. The hole list stays in address order without overlaps, and it shrinks by exactly
  the rounded size: nothing is lost.
\<close>

theorem alloc_kheap_4k_lowest:
  assumes ok: "kheap_ok s" and srt: "sorted (map fst (holes_4k s))" and sep: "separated (holes_4k s)"
    and nz: "\<forall>h \<in> set (holes_4k s). snd h \<noteq> 0"
    and h: "h \<in> set (holes_4k s)" "align_4k sz \<le> snd h"
  shows "\<exists>r s'. alloc_kheap_4k sz s = ret (r, s') \<and> kheap_ok s' \<and> r \<in> fst ` set (holes_4k s) \<and>
     (\<forall>h' \<in> set (holes_4k s). align_4k sz \<le> snd h' \<longrightarrow> r \<le> fst h') \<and>
     sorted (map fst (holes_4k s')) \<and> separated ((r, align_4k sz) # holes_4k s') \<and>
     total (holes_4k s') + unat (align_4k sz) = total (holes_4k s)"
proof -
  have "fit (\<lambda>x. x = 0) (align_4k sz) (holes_4k s) \<noteq> None"
    using h by (auto simp: fit_None_iff not_less intro!: bexI[of _ h])
  then obtain r hs where f: "fit (\<lambda>x. x = 0) (align_4k sz) (holes_4k s) = Some (r, hs)" by auto
  from alloc_kheap_4k_fit[OF ok f] obtain s' where
    s': "alloc_kheap_4k sz s = ret (r, s')" "kheap_ok s'" "holes_4k s' = hs" by blast
  have "total hs + unat (align_4k sz) = total (holes_4k s)"
    using fit_total[OF f, of 0] by simp
  moreover have "r \<le> fst h'" if "h' \<in> set (holes_4k s)" "align_4k sz \<le> snd h'" for h'
    using fit_lowest[OF f srt that(1)] that(2) by (simp add: not_less)
  ultimately show ?thesis
    using s' fit_sorted[OF f srt sep _ nz] fit_separated[OF f sep] by auto
qed

theorem alloc_kheap_4k_lowest_witness:
  "\<exists>s r s'. kheap_ok s \<and> holes_4k s = [(0x100000, 0x3000)] \<and> alloc_kheap_4k 0x1001 s = ret (r, s') \<and>
     r \<in> {0x100000} \<and> total (holes_4k s') + 0x2000 = 0x3000"
proof -
  obtain s where s: "kheap_ok s" "holes_4k s = [(0x100000, 0x3000)]" using demo_heap_freed by blast
  have "sorted (map fst (holes_4k s))" "separated (holes_4k s)" "\<forall>h \<in> set (holes_4k s). snd h \<noteq> 0"
    "(0x100000, 0x3000) \<in> set (holes_4k s)" "align_4k 0x1001 \<le> snd (0x100000 :: u64, 0x3000)"
    by (simp_all add: s(2) separated_def blk_end_def align_4k_def)
  from alloc_kheap_4k_lowest[OF s(1) this] s show ?thesis
    by (simp add: align_4k_def total_def) blast
qed

text \<open>
  A request of at most a page that no hole can serve is served from the next
  physical page, as long as there is one and a node is left to describe the rest of it: the result
  is the address of that page.
\<close>

theorem alloc_kheap_4k_grows:
  assumes "kheap_ok s" and "\<forall>h \<in> set (holes_4k s). snd h < align_4k sz"
    and "align_4k sz \<le> PAGE_SIZE" and "length (holes_4k s) < MAX_HEAP_HOLE"
    and "alloc_phy_page (phy s) = ret (a, ph)" and "a \<noteq> 0"
  shows "\<exists>s'. alloc_kheap_4k sz s = ret (a, s') \<and> kheap_ok s' \<and> phy s' = ph"
  using alloc_kheap_4k_grows_ok[OF assms] by blast

theorem alloc_kheap_4k_grows_witness:
  "\<exists>s'. alloc_kheap_4k 0x5000 demo_heap = ret (0xA00000, s') \<and> pages (phy s') = 0"
  using alloc_kheap_4k_grows[of demo_heap "0x5000" "0xA00000"] demo_heap_ok demo_mem_alloc
  by (simp add: align_4k_def PAGE_SIZE_def MAX_HEAP_HOLE_def) fastforce

text \<open>
  Holes are never merged, so a request of more than a page that no hole can serve
  cannot succeed by growing: it moves the physical pages into the heap one after the other until
  the heap has no node left and the kernel stops, or no page is left and the request fails. It
  never returns a block, even if two adjacent pages could serve it.
\<close>

theorem alloc_kheap_4k_too_big:
  assumes ok: "kheap_ok s" and none: "\<forall>h \<in> set (holes_4k s). snd h < align_4k sz"
    and big: "PAGE_SIZE < align_4k sz" and res: "alloc_kheap_4k sz s = ret (r, s')"
  shows "r = 0 \<and> (\<exists>ph. alloc_phy_page ph = ret (0, phy s') \<and> drained ph)"
proof -
  from ok obtain p where p: "first_fit (nodes (p4k s)) (align_4k sz) (phead (p4k s)) = ret p"
    "grow_inv (align_4k sz) p (s\<lparr>spin_4k := 1\<rparr>)" by (rule kheap_ok_start)
  have none': "\<forall>h \<in> set (holes_4k (s\<lparr>spin_4k := 1\<rparr>)). snd h < align_4k sz" using none by simp
  show ?thesis
  proof (cases "grow_4k (align_4k sz) p (s\<lparr>spin_4k := 1\<rparr>)" rule: kres_cases)
    case (val y)
    with grow_4k_too_big[OF val p(2) none' big] res show ?thesis
      by (auto simp: alloc_kheap_4k_unfold[OF ok p(1)])
  qed (use res in \<open>simp_all add: alloc_kheap_4k_unfold[OF ok p(1)]\<close>)
qed

theorem alloc_kheap_4k_too_big_witness:
  "\<exists>s'. alloc_kheap_4k 0x400000 demo_heap = ret (0, s') \<and>
     (\<exists>ph. alloc_phy_page ph = ret (0, phy s') \<and> drained ph)"
proof -
  let ?h = "demo_heap\<lparr>spin_4k := 1\<rparr>" and ?ph = "(demo_mem 5)\<lparr>pgbits := [0, 0, 0], pages := 0\<rparr>"
  have al: "align_4k 0x400000 = 0x400000" by (simp add: align_4k_def)
  have ff: "first_fit (nodes (p4k s)) 0x400000 (phead (p4k s)) = ret None"
    if "kheap_ok s" "\<forall>h \<in> set (holes_4k s). snd h < 0x400000" for s
    using that first_fit_none[of MAX_HEAP_HOLE "p4k s" "\<lambda>x. x = 0" "0x400000"]
    by (simp add: kheap_ok_def fit_None_iff)
  have "phy_ready ?ph" using alloc_phy_page_ready[OF _ demo_mem_alloc] demo_mem_ok by (simp add: phy_ready_def)
  then have "kheap_ok (?h\<lparr>spin_4k := 0, phy := ?ph\<rparr>)" using demo_heap_ok(1) by (simp add: kheap_ok_def)
  from free_kheap_4k_ok[OF this, of "0xA00000" PAGE_SIZE] demo_heap_ok(2) PAGE_SIZE_aligned_4k
  obtain s2 where s2: "free_kheap_4k 0xA00000 PAGE_SIZE (?h\<lparr>spin_4k := 0, phy := ?ph\<rparr>) = ret s2"
      "kheap_ok s2" "phy s2 = ?ph" "holes_4k s2 = [(0xA00000, PAGE_SIZE)]"
    by (auto simp: MAX_HEAP_HOLE_def)
  have ff2: "first_fit (nodes (p4k s2)) 0x400000 (phead (p4k s2)) = ret None"
    using ff[OF s2(2)] s2(4) by (simp add: PAGE_SIZE_def)
  have l2: "spin_4k s2 = 0" using s2(2) by (simp add: kheap_ok_def)
  have stop: "grow_4k 0x400000 None (s2\<lparr>spin_4k := 1\<rparr>) = ret (None, s2\<lparr>spin_4k := 0, phy := ?ph\<rparr>)"
    using s2(3) by (subst grow_4k.simps) (simp add: alloc_step_empty)
  have "grow_4k 0x400000 None ?h = ret (None, s2\<lparr>spin_4k := 0, phy := ?ph\<rparr>)"
    using demo_mem_alloc demo_heap_ok(4) s2 stop ff2 l2 by (subst grow_4k.simps) simp
  then have "alloc_kheap_4k 0x400000 demo_heap = ret (0, s2\<lparr>spin_4k := 0, phy := ?ph\<rparr>)"
    using alloc_kheap_4k_unfold[OF demo_heap_ok(1), of "0x400000" None] ff[OF demo_heap_ok(1)] demo_heap_ok(2)
    by (simp add: al)
  moreover from alloc_kheap_4k_too_big[OF demo_heap_ok(1) _ _ this]
  have "\<exists>ph. alloc_phy_page ph = ret (0, ?ph) \<and> drained ph"
    using demo_heap_ok(2) by (simp add: al PAGE_SIZE_def)
  ultimately show ?thesis by simp
qed

text \<open>The alignment of the holes.\<close>

definition aligned_holes :: "block list \<Rightarrow> bool" where
  "aligned_holes hs \<longleftrightarrow> (\<forall>h \<in> set hs. fst h AND 0xfff = 0 \<and> snd h AND 0xfff = 0)"

lemma aligned_holes_Cons [simp]:
  "aligned_holes (h # hs) \<longleftrightarrow> fst h AND 0xfff = 0 \<and> snd h AND 0xfff = 0 \<and> aligned_holes hs"
  by (auto simp: aligned_holes_def)

lemma aligned_4k_add: "a AND (0xfff :: u64) = 0 \<Longrightarrow> b AND 0xfff = 0 \<Longrightarrow> (a + b) AND 0xfff = 0"
  unfolding aligned_4k_iff by (simp add: unat_word_ariths dvd_mod)

lemma aligned_4k_sub: "a AND (0xfff :: u64) = 0 \<Longrightarrow> b AND 0xfff = 0 \<Longrightarrow> \<not> a < b \<Longrightarrow> (a - b) AND 0xfff = 0"
  unfolding aligned_4k_iff by (simp add: unat_sub not_less)

lemma align_4k_aligned: "align_4k sz AND 0xfff = 0"
  using align_up_dvd[of 12 sz] by (simp add: aligned_4k_iff align_4k_up)

lemma fit_aligned:
  assumes "fit dr sz hs = Some (r, hs')" "aligned_holes hs" "sz AND 0xfff = 0"
  shows "r AND 0xfff = 0 \<and> aligned_holes hs'"
  using assms(1,2)
proof (induction hs arbitrary: hs')
  case Nil
  then show ?case by simp
next
  case (Cons b hs)
  obtain a s where b: "b = (a, s)" by (cases b)
  show ?case
  proof (cases "s < sz")
    case True
    with Cons b show ?thesis by auto
  next
    case False
    with Cons.prems b aligned_4k_add[of a sz] aligned_4k_sub[of s sz] assms(3) show ?thesis
      by (auto split: if_splits)
  qed
qed

lemma ins_hole_aligned:
  "aligned_holes (ins_hole b hs) \<longleftrightarrow> fst b AND 0xfff = 0 \<and> snd b AND 0xfff = 0 \<and> aligned_holes hs"
proof -
  have "set (ins_hole b hs) = insert b (set hs)"
    by (metis ins_hole_mset set_mset_add_mset_insert set_mset_mset)
  then show ?thesis by (auto simp: aligned_holes_def)
qed

lemma grow_4k_aligned:
  assumes "grow_4k sz p s = Some r" "grow_inv sz p s" "aligned_holes (holes_4k s)"
  shows "case r of Inl f \<Rightarrow> True | Inr (found, s') \<Rightarrow> aligned_holes (holes_4k s')"
  using assms
proof (induction rule: grow_4k_rule)
  case (turn s a ph s2 p2 r)
  have "phy_ready (phy s)" using turn(1) by (simp add: grow_inv_def kheap_ok_def)
  from alloc_phy_page_ready[OF this turn(2)] turn(3) have "a AND 0xfff = 0"
    using page_aligned_4k by blast
  with turn PAGE_SIZE_aligned_4k show ?case by (simp add: ins_hole_aligned)
qed simp_all

lemma alloc_kheap_4k_keeps_aligned:
  assumes ok: "kheap_ok s" and al: "aligned_holes (holes_4k s)" and res: "alloc_kheap_4k sz s = ret (r, s')"
  shows "r AND 0xfff = 0 \<and> aligned_holes (holes_4k s')"
proof -
  from ok obtain p where p: "first_fit (nodes (p4k s)) (align_4k sz) (phead (p4k s)) = ret p"
    "grow_inv (align_4k sz) p (s\<lparr>spin_4k := 1\<rparr>)" by (rule kheap_ok_start)
  note unf = alloc_kheap_4k_unfold[OF ok p(1)]
  show ?thesis
  proof (cases "grow_4k (align_4k sz) p (s\<lparr>spin_4k := 1\<rparr>)" rule: kres_cases)
    case (val y)
    obtain found s1 where y: "y = (found, s1)" by (cases y)
    have al1: "aligned_holes (holes_4k s1)" using grow_4k_aligned[OF val p(2)] al y by simp
    show ?thesis
    proof (cases found)
      case None
      with al1 res val y show ?thesis by (simp add: unf)
    next
      case (Some q)
      then have "grow_inv (align_4k sz) (Some q) s1"
        using grow_4k_sound[OF val p(2)] y by (simp add: grow_post_def)
      from alloc_finish[OF this] res val y Some
      have "fit (\<lambda>x. x = 0) (align_4k sz) (holes_4k s1) = Some (r, holes_4k s')" by (auto simp: unf)
      from fit_aligned[OF this al1 align_4k_aligned] show ?thesis .
    qed
  qed (use res in \<open>simp_all add: unf\<close>)
qed

text \<open>
  If the holes of the 4k heap are 4 KB aligned in address and size, they stay so
  under every request, and every block handed out is 4 KB aligned.
\<close>

theorem alloc_kheap_4k_aligned:
  assumes ok: "kheap_ok s" and al: "aligned_holes (holes_4k s)" and res: "alloc_kheap_4k sz s = ret (r, s')"
  shows "r AND 0xfff = 0 \<and> aligned_holes (holes_4k s')"
  using assms by (rule alloc_kheap_4k_keeps_aligned)

theorem alloc_kheap_4k_aligned_witness:
  "\<exists>s s'. alloc_kheap_4k 0x801 s = ret (0x100000, s') \<and> aligned_holes (holes_4k s') \<and>
     holes_4k s' = [(0x101000, 0x2000)]"
proof -
  obtain s where s: "kheap_ok s" "holes_4k s = [(0x100000, 0x3000)]" using demo_heap_freed by blast
  obtain s' where s': "alloc_kheap_4k 0x801 s = ret (0x100000, s')" "holes_4k s' = [(0x101000, 0x2000)]"
    using alloc_kheap_4k_fit[OF s(1), of "0x801" "0x100000" "[(0x101000, 0x2000)]"] s(2)
    by (auto simp: align_4k_def)
  have "aligned_holes (holes_4k s)" by (simp add: s(2) aligned_holes_def)
  from alloc_kheap_4k_aligned[OF s(1) this s'(1)] s' show ?thesis by blast
qed

lemma alloc_kheap_small_unit:
  assumes ok: "kheap_ok s" and sz: "sz < 0x1000" and none: "\<forall>h \<in> set (holes_small s). snd h < sz"
    and room: "length (holes_small s) < MAX_SMALL_HOLE"
    and unit: "alloc_kheap_4k 0x1000 s = ret (a, s1)" "a \<noteq> 0" "a AND 0xfff = 0"
  shows "\<exists>s'. alloc_kheap_small sz s = ret (a, s') \<and> kheap_ok s' \<and> p4k s' = p4k s1 \<and> phy s' = phy s1 \<and>
     holes_small s' = (if 0x1000 - sz \<le> 16 then holes_small s else (a + sz, 0x1000 - sz) # holes_small s)"
proof -
  let ?s = "s\<lparr>spin_small := 1\<rparr>"
  have sp: "pool_ok MAX_SMALL_HOLE (psmall s)" "?s\<lparr>spin_small := 0\<rparr> = s" using ok by (simp_all add: kheap_ok_def)
  have ff: "first_fit (nodes (psmall s)) sz (phead (psmall s)) = ret None"
    using first_fit_none[OF sp(1), of "\<lambda>x. x \<le> 16" sz] none by (simp add: fit_None_iff)
  then have inv: "small_inv sz None ?s" using ok sp(2) by (simp add: small_inv_def)
  have s1: "kheap_ok s1" "psmall s1 = psmall s" using alloc_kheap_4k_sound[OF ok unit(1)] by auto
  have unit': "alloc_kheap_4k 0x1000 (?s\<lparr>spin_small := 0\<rparr>) = ret (a, s1)" using unit(1) sp(2) by simp
  have "\<exists>s2. free_kheap_small a 0x1000 s1 = ret s2"
    using free_kheap_small_ok[OF s1(1) unit(3), of "0x1000"] s1(2) room by auto
  with inv unit' unit(2) obtain s2 p2 where
    s2: "free_kheap_small a 0x1000 s1 = ret s2" "spin_small s2 = 0"
      "first_fit (nodes (psmall s2)) sz (phead (psmall s2)) = ret p2" "small_inv sz p2 (s2\<lparr>spin_small := 1\<rparr>)"
      "holes_small s2 = (a, 0x1000) # holes_small s" "p4k s2 = p4k s1" "phy s2 = phy s1"
    by (cases rule: grow_small_turn) auto
  let ?hs = "if 0x1000 - sz \<le> 16 then holes_small s else (a + sz, 0x1000 - sz) # holes_small s"
  have f: "fit (\<lambda>x. x \<le> 16) sz (holes_small s2) = Some (a, ?hs)" using sz s2(5) order_less_not_sym[OF sz] by simp
  have "pool_ok MAX_SMALL_HOLE (psmall s2)" using s2(4) by (simp add: small_inv_def kheap_ok_def)
  from first_fit_carve[OF this f] s2(3) obtain q where q: "p2 = Some q" by auto
  have "grow_small sz None ?s = ret (Some q, s2\<lparr>spin_small := 1\<rparr>)"
    using unit s2 q sp(2) by (subst grow_small.simps) simp
  with small_finish[OF s2(4)[unfolded q]] f s2(6,7) show ?thesis
    by (auto simp: alloc_kheap_small_unfold[OF ok ff sz])
qed

lemma alloc_kheap_small_first:
  assumes "kheap_ok s" "holes_small s = []" "sz < 0x1000" "alloc_kheap_4k 0x1000 s = ret (a, s1)"
    "a \<noteq> 0" "a AND 0xfff = 0"
  shows "\<exists>s'. alloc_kheap_small sz s = ret (a, s')"
  using alloc_kheap_small_unit[OF assms(1,3) _ _ assms(4-6)] assms(2) by (auto simp: MAX_SMALL_HOLE_def)

text \<open>
  A small request that no hole of the small heap can serve takes one 4 KB unit
  from the 4k heap and returns its start; the rest of the unit becomes the first hole of the small
  heap, or is given up when it is at most 16 bytes.
\<close>

theorem alloc_kheap_small_grows:
  assumes ok: "kheap_ok s" and sz: "sz < 0x1000" and none: "\<forall>h \<in> set (holes_small s). snd h < sz"
    and room: "length (holes_small s) < MAX_SMALL_HOLE"
    and unit: "alloc_kheap_4k 0x1000 s = ret (a, s1)" "a \<noteq> 0" "a AND 0xfff = 0"
  shows "\<exists>s'. alloc_kheap_small sz s = ret (a, s') \<and> kheap_ok s' \<and> p4k s' = p4k s1 \<and> phy s' = phy s1 \<and>
     holes_small s' = (if 0x1000 - sz \<le> 16 then holes_small s else (a + sz, 0x1000 - sz) # holes_small s)"
  using assms by (rule alloc_kheap_small_unit)

theorem alloc_kheap_small_grows_witness:
  "\<exists>s s'. alloc_kheap_small 0xff8 s = ret (0x100000, s') \<and> holes_small s' = [] \<and>
     holes_4k s' = [(0x101000, 0x2000)]"
proof -
  obtain s where s: "kheap_ok s" "holes_4k s = [(0x100000, 0x3000)]" "holes_small s = []"
    using demo_heap_freed by blast
  obtain s1 where s1: "alloc_kheap_4k 0x1000 s = ret (0x100000, s1)" "holes_4k s1 = [(0x101000, 0x2000)]"
    using alloc_kheap_4k_fit[OF s(1), of "0x1000" "0x100000" "[(0x101000, 0x2000)]"] s(2)
    by (auto simp: align_4k_def)
  have "length (holes_small s) < MAX_SMALL_HOLE" unfolding s(3) by (simp add: MAX_SMALL_HOLE_def)
  from alloc_kheap_small_grows[OF s(1) _ _ this s1(1), of "0xff8"] s(3) s1(2) show ?thesis by fastforce
qed

lemma init_phy_bits_ok:
  assumes "64 * 0x200000 \<le> unat m"
  shows "phy_ok (init_phy_bits m) \<and> free_set (init_phy_bits m) = {}"
proof -
  let ?b = "unat m div 0x200000"
  have b: "unat (m div PAGE_SIZE) = ?b" by (simp add: unat_div)
  have lt: "?b < 2 ^ 43" using unsigned_less[where ?'b = 64 and ?'a = nat, of m]
    by (simp add: less_mult_imp_div_less)
  have "unat (m div PAGE_SIZE div 8 + 8) = ?b div 8 + 8"
  proof -
    have "unat (m div PAGE_SIZE div 8) = ?b div 8" by (simp only: unat_div b) simp
    moreover have "?b div 8 + 8 < 2 ^ 64" using lt by simp
    ultimately show ?thesis by (simp add: unat_word_ariths(1))
  qed
  then have len: "unat ((m div PAGE_SIZE div 8 + 8) div 8) = Suc (?b div 64)"
    by (simp add: unat_div div_add_self2 flip: div_mult2_eq)
  have mx: "unat (m div PAGE_SIZE div 64) = ?b div 64" by (simp add: unat_div b)
  have fs: "free_set (init_phy_bits m) = {}"
    by (auto simp: free_set_def init_phy_bits_def Let_def bits_of_def)
  have "1 \<le> ?b div 64" using assms by (simp add: div_le_mono less_eq_div_iff_mult_less_eq)
  then show ?thesis using fs
    by (simp add: phy_ok_def) (simp add: init_phy_bits_def Let_def len mx)
qed

lemma kalloc_sound: "kheap_ok s \<Longrightarrow> kalloc sz s = ret (r, s') \<Longrightarrow> kheap_ok s'"
  using alloc_kheap_4k_sound alloc_kheap_small_sound by (metis kalloc_def)

text \<open>
  On a machine with at least 128 MB, setting up the page allocator leaves the heap
  and the page allocator in states that satisfy their invariants, with no page free yet.
\<close>

theorem init_phy_mem_ready:
  assumes "kheap_ok s" and "64 * 0x200000 \<le> unat (max_phy_addr (phy s))" and "init_phy_mem s = ret s'"
  shows "kheap_ok s' \<and> phy_ok (phy s') \<and> free_set (phy s') = {}"
proof -
  let ?m = "max_phy_addr (phy s)"
  from assms(3) obtain p s1 where "kalloc (?m div PAGE_SIZE div 8 + 8) s = ret (p, s1)"
    "s' = s1\<lparr>phy := init_phy_bits ?m\<rparr>" by (auto simp: init_phy_mem_def Let_def kbind_eq_ret)
  with kalloc_sound[OF assms(1)] init_phy_bits_ok[OF assms(2)] show ?thesis
    by (simp add: kheap_ok_def phy_ready_def)
qed

text \<open>The heap before the page allocator is set up, with one block of low memory.\<close>

definition boot_heap :: kheap where
  "boot_heap = init_kheap \<lparr>p4k = init_pool 1, spin_4k = 1, psmall = init_pool 1, spin_small = 1,
     phy = \<lparr>pgbits = [], pmax = 0, pnow = 0, nowbit = 0, maxbits = 0, pages = 0,
             max_phy_addr = 0x10000000\<rparr>\<rparr>"

lemma boot_heap_ok: "kheap_ok boot_heap" "holes_4k boot_heap = []" "holes_small boot_heap = []"
    "max_phy_addr (phy boot_heap) = 0x10000000"
  using init_kheap_ok[of "\<lparr>p4k = init_pool 1, spin_4k = 1, psmall = init_pool 1, spin_small = 1,
     phy = \<lparr>pgbits = [], pmax = 0, pnow = 0, nowbit = 0, maxbits = 0, pages = 0,
             max_phy_addr = 0x10000000\<rparr>\<rparr>"]
  by (simp_all add: boot_heap_def phy_ready_def phy_off_def)

theorem init_phy_mem_ready_witness:
  "\<exists>s s'. free_kheap_4k 0x100000 0x3000 boot_heap = ret s \<and> init_phy_mem s = ret s' \<and>
     phy_ok (phy s') \<and> free_set (phy s') = {}"
proof -
  obtain s where s: "free_kheap_4k 0x100000 0x3000 boot_heap = ret s" "kheap_ok s"
      "psmall s = psmall boot_heap" "phy s = phy boot_heap" "holes_4k s = [(0x100000, 0x3000)]"
    using free_kheap_4k_ok[OF boot_heap_ok(1), of "0x100000" "0x3000"] boot_heap_ok
    by (auto simp: MAX_HEAP_HOLE_def)
  have small: "holes_small s = []" using s(3) boot_heap_ok(3) by simp
  obtain s1 where s1: "alloc_kheap_4k 0x1000 s = ret (0x100000, s1)"
    using alloc_kheap_4k_fit[OF s(2), of "0x1000" "0x100000" "[(0x101000, 0x2000)]"] s(5)
    by (auto simp: align_4k_def)
  have m: "max_phy_addr (phy s) = 0x10000000" using s(4) boot_heap_ok(4) by simp
  have "\<exists>s'. alloc_kheap_small 24 s = ret (0x100000, s')"
    using alloc_kheap_small_first[OF s(2) small _ s1] by simp
  then obtain s' where s': "init_phy_mem s = ret s'"
    by (auto simp: init_phy_mem_def Let_def m kalloc_def MAX_SMALL_HEAP_def PAGE_SIZE_def)
  from init_phy_mem_ready[OF s(2) _ s'] s(1) s' m show ?thesis by auto
qed

end
