(* ===== verification/Pgtable.thy ===== *)
theory Pgtable
  imports Kheap "HOL-Library.Sublist"
begin

text \<open>
  The page tables of arch/x86_64/pgtable.c: a three level tree with 2 MB leaves, in memory that the
  model keeps as a function from the address of a 64-bit word to the word. The tables beyond the
  static ones come from the 4k heap. The theory proves that mapping a page changes the mapping of
  that page and of no other, that tables never overlap, and what the boot tables map.
\<close>

section \<open>State and operations\<close>

definition PTE_P :: u64 where "PTE_P = 0x001"
definition PTE_W :: u64 where "PTE_W = 0x002"
definition PTE_U :: u64 where "PTE_U = 0x004"
definition PTE_PWT :: u64 where "PTE_PWT = 0x008"
definition PTE_PCD :: u64 where "PTE_PCD = 0x010"
definition PTE_PS :: u64 where "PTE_PS = 0x080"
definition IO_MEM_BASE :: u64 where "IO_MEM_BASE = 0xfffffff800000000"
definition OK :: int where "OK = 0"
definition E_NOMEM :: int where "E_NOMEM = 1"

text \<open>
  Memory, the address of the static table \<^verbatim>\<open>pml4\<close>, the register that points to the current table,
  and the heap.
\<close>

record pgt =
  mem :: "u64 \<Rightarrow> u64"
  pml4_a :: u64
  cr3 :: u64
  kh :: kheap

definition pml4_index :: "u64 \<Rightarrow> u64" where
  "pml4_index v = drop_bit 39 v AND 511"

definition pdp_index :: "u64 \<Rightarrow> u64" where
  "pdp_index v = drop_bit 30 v AND 511"

definition pd_index :: "u64 \<Rightarrow> u64" where
  "pd_index v = drop_bit 21 v AND 511"

definition memset_page :: "u64 \<Rightarrow> (u64 \<Rightarrow> u64) \<Rightarrow> u64 \<Rightarrow> u64" where
  "memset_page p m = (\<lambda>a. if a - p < 4096 then 0 else m a)"

text \<open>
  The table below entry \<open>e\<close>; when there is none, a new zeroed table from the heap is stored there.
  Both levels of \<^verbatim>\<open>map_page_p2v\<close> do this. \<open>None\<close> is the out of memory return.
\<close>

definition next_table :: "u64 \<Rightarrow> pgt \<Rightarrow> (u64 option \<times> pgt) kres" where
  "next_table e s =
     (let t = mem s e AND NOT 0xfff in
      if t \<noteq> 0 then ret (Some t, s)
      else kbind (alloc_kheap_4k 4096 (kh s)) (\<lambda>(p, h).
        kbind (kassert (p AND 0xfff = 0) ''map_page_p2v: table'') (\<lambda>_.
          if p = 0 then ret (None, s\<lparr>kh := h\<rparr>)
          else ret (Some p, s\<lparr>mem := (memset_page p (mem s))(e := p OR PTE_P OR PTE_W OR PTE_U), kh := h\<rparr>))))"

definition map_page_p2v :: "u64 \<Rightarrow> u64 \<Rightarrow> u64 \<Rightarrow> pgt \<Rightarrow> (int \<times> pgt) kres" where
  "map_page_p2v paddr vaddr flag s =
     kbind (kassert (paddr AND 0xfff = 0) ''map_page_p2v: paddr'') (\<lambda>_.
     kbind (kassert (flag AND NOT 0xfff = 0) ''map_page_p2v: flag'') (\<lambda>_.
     kbind (next_table (pml4_a s + 8 * pml4_index vaddr) s) (\<lambda>(pdp, s1).
       case pdp of
         None \<Rightarrow> ret (E_NOMEM, s1)
       | Some pdp \<Rightarrow>
           kbind (next_table (pdp + 8 * pdp_index vaddr) s1) (\<lambda>(pd, s2).
             case pd of
               None \<Rightarrow> ret (E_NOMEM, s2)
             | Some pd \<Rightarrow> ret (OK, s2\<lparr>mem := (mem s2)(pd + 8 * pd_index vaddr := paddr OR flag)\<rparr>)))))"

definition map_page_p2v_rw :: "u64 \<Rightarrow> u64 \<Rightarrow> pgt \<Rightarrow> (int \<times> pgt) kres" where
  "map_page_p2v_rw paddr vaddr s = map_page_p2v paddr vaddr (PTE_P OR PTE_W OR PTE_PS) s"

text \<open>The address of the entry that maps an address, 0 if a table on the way is missing.\<close>

definition get_pte_with_addr :: "u64 \<Rightarrow> pgt \<Rightarrow> u64" where
  "get_pte_with_addr addr s =
     (let pml4base = cr3 s AND NOT 0xfff;
          pdp = mem s (pml4base + 8 * pml4_index addr) AND NOT 0xfff
      in if pdp = 0 then 0
         else let pd = mem s (pdp + 8 * pdp_index addr) AND NOT 0xfff
              in if pd = 0 then 0 else pd + 8 * pd_index addr)"

text \<open>\<^verbatim>\<open>for (added = 0; added <= size; added += PAGE_SIZE)\<close>; the results of the calls are ignored.\<close>

partial_function (option) ioremap_loop :: "u64 \<Rightarrow> u64 \<Rightarrow> u64 \<Rightarrow> pgt \<Rightarrow> pgt kres" where
  "ioremap_loop added sz paddr s =
     (if added \<le> sz
      then kbind (map_page_p2v paddr (paddr + IO_MEM_BASE) (PTE_P OR PTE_W OR PTE_PWT OR PTE_PCD OR PTE_PS) s)
        (\<lambda>(r, s1). ioremap_loop (added + PAGE_SIZE) sz (paddr + PAGE_SIZE) s1)
      else ret s)"

definition ioremap_nocache :: "u64 \<Rightarrow> u64 \<Rightarrow> pgt \<Rightarrow> (u64 \<times> pgt) kres" where
  "ioremap_nocache addr sz s =
     (let paddr = addr AND NOT (PAGE_SIZE - 1) in
      kbind (ioremap_loop 0 (sz + (addr - paddr)) paddr s) (\<lambda>s1. ret (addr + IO_MEM_BASE, s1)))"

text \<open>The addresses of the static tables, which the linker chooses.\<close>

record boot_tables =
  a_pdp :: u64
  a_pd :: "u64 list"

text \<open>
  \<^verbatim>\<open>(i + n * PD_PER_PTE) * PAGE_SIZE | PTE_PS | PTE_W | PTE_P\<close> is computed in \<^verbatim>\<open>int\<close>, since all its
  operands are, and widened to 64 bits with its sign; the product wraps as the machine's 32-bit
  multiplication does.
\<close>

definition boot_pde :: "nat \<Rightarrow> u64" where
  "boot_pde k = scast ((of_nat k * 0x200000 :: u32) OR 0x80 OR 0x2 OR 0x1)"

fun init_pds :: "u64 list \<Rightarrow> nat \<Rightarrow> (u64 \<Rightarrow> u64) \<Rightarrow> u64 \<Rightarrow> u64" where
  "init_pds pds 0 m = m"
| "init_pds pds (Suc n) m =
     fold (\<lambda>t m. m(pds ! t + 8 * of_nat n := boot_pde (n + t * 512))) [0..<4] (init_pds pds n m)"

text \<open>Memory above 4 GB, \<^verbatim>\<open>for (; addr + PAGE_SIZE < __max_phy_mem_addr; addr += PAGE_SIZE)\<close>.\<close>

partial_function (option) init_high :: "u64 \<Rightarrow> u64 \<Rightarrow> pgt \<Rightarrow> pgt kres" where
  "init_high mx addr s =
     (if addr + PAGE_SIZE < mx
      then kbind (map_page_p2v addr addr (PTE_PS OR PTE_P OR PTE_W) s) (\<lambda>(r, s1).
        if r \<noteq> OK then halt (Panic ''Not enough init heap memory!'')
        else init_high mx (addr + PAGE_SIZE) s1)
      else ret s)"

definition init_pml4 :: "boot_tables \<Rightarrow> u64 \<Rightarrow> pgt \<Rightarrow> pgt kres" where
  "init_pml4 bt mx s =
     kbind (kassert (pml4_a s AND 0xfff = 0) ''pml4'') (\<lambda>_.
     kbind (kassert (a_pdp bt AND 0xfff = 0) ''first_pdp'') (\<lambda>_.
     kbind (kassert (a_pd bt ! 0 AND 0xfff = 0) ''first_pd'') (\<lambda>_.
       let m0 = memset_page (a_pdp bt) (memset_page (pml4_a s) (mem s));
           m1 = m0(pml4_a s := a_pdp bt OR PTE_P OR PTE_W);
           m2 = fold (\<lambda>t m. m(a_pdp bt + 8 * of_nat t := a_pd bt ! t OR PTE_P OR PTE_W)) [0..<4] m1;
           s1 = s\<lparr>mem := init_pds (a_pd bt) 512 m2\<rparr>
       in kbind (if mx > 0x100000000 then init_high mx 0x100000000 s1 else ret s1) (\<lambda>s2.
            ret (s2\<lparr>cr3 := pml4_a s2\<rparr>)))))"

section \<open>The mapping as the hardware sees it\<close>

text \<open>
  A table is named by the indices on the way to it, the last one first. \<open>raw s (i # p)\<close> is entry \<open>i\<close> of
  table \<open>p\<close> and \<open>tab s p\<close> the address of table \<open>p\<close>; both are 0 below a missing table.
\<close>

fun raw :: "pgt \<Rightarrow> u64 list \<Rightarrow> u64" where
  "raw s [] = pml4_a s"
| "raw s (i # p) = (if raw s p AND NOT 0xfff = 0 then 0 else mem s ((raw s p AND NOT 0xfff) + 8 * i))"

abbreviation tab :: "pgt \<Rightarrow> u64 list \<Rightarrow> u64" where
  "tab s p \<equiv> raw s p AND NOT 0xfff"

definition path :: "u64 list \<Rightarrow> bool" where
  "path p \<longleftrightarrow> length p \<le> 2 \<and> (\<forall>i \<in> set p. i < 512)"

text \<open>The leaf entry for an address, 0 where nothing is mapped.\<close>

definition pde_of :: "pgt \<Rightarrow> u64 \<Rightarrow> u64" where
  "pde_of s v = raw s [pd_index v, pdp_index v, pml4_index v]"

text \<open>
  The invariant: the heap is fine, no table is reached on two ways, and no table overlaps memory
  that the heap can still hand out.
\<close>

definition pt_ok :: "pgt \<Rightarrow> bool" where
  "pt_ok s \<longleftrightarrow> kheap_ok (kh s) \<and> aligned_holes (holes_4k (kh s)) \<and> pml4_a s AND 0xfff = 0 \<and> pml4_a s \<noteq> 0 \<and>
     inj_on (tab s) {p. path p \<and> tab s p \<noteq> 0} \<and>
     (\<forall>p. path p \<and> tab s p \<noteq> 0 \<longrightarrow> separated ((tab s p, 0x1000) # kspace (kh s)))"

section \<open>Addresses of entries\<close>

lemma index_lt [simp]: "pml4_index v < 512" "pdp_index v < 512" "pd_index v < 512"
proof -
  have "x AND 511 < (512 :: u64)" for x :: u64
  proof -
    have "x AND 511 = x AND mask 9" by (simp add: mask_eq_exp_minus_1)
    then have "unat (x AND 511) = unat x mod 2 ^ 9" by (simp add: unat_and_mask)
    then show ?thesis by (simp add: word_less_nat_alt)
  qed
  then show "pml4_index v < 512" "pdp_index v < 512" "pd_index v < 512"
    by (simp_all add: pml4_index_def pdp_index_def pd_index_def)
qed

lemma tab_aligned: "tab s p AND 0xfff = 0"
  by (rule bit_eqI) (simp add: bit_simps)

lemma aligned_page: "t AND 0xfff = 0 \<Longrightarrow> t AND NOT 0xfff = (t :: u64)"
  unfolding mask12 using mask_split[of t 12] by simp

lemma entry_parts:
  assumes "t AND 0xfff = (0 :: u64)" "i < 512"
  shows "(t + 8 * i) AND NOT 0xfff = t" "(t + 8 * i) AND 0xfff = 8 * i"
proof -
  have "unat (8 * i) < 2 ^ 12"
    using assms(2) by (auto simp: word_less_nat_alt unat_word_ariths)
  then have low: "(8 * i) AND mask 12 = 8 * i" by (rule below_mask)
  show "(t + 8 * i) AND NOT 0xfff = t" "(t + 8 * i) AND 0xfff = 8 * i"
    using mask_add[OF _ low, of t] assms(1) by (simp_all only: mask12)
qed

lemma entry_inj:
  assumes "t AND 0xfff = (0 :: u64)" "t' AND 0xfff = 0" "i < 512" "i' < 512" "t + 8 * i = t' + 8 * i'"
  shows "t = t' \<and> i = i'"
proof -
  have "t = t'" using entry_parts(1)[OF assms(1,3)] entry_parts(1)[OF assms(2,4)] assms(5) by metis
  moreover have "8 * i = 8 * i'" using entry_parts(2)[OF assms(1,3)] entry_parts(2)[OF assms(2,4)] assms(5) by metis
  then have "8 * unat i = 8 * unat i'"
    using assms(3,4) by (simp add: word_less_nat_alt word_unat_eq_iff unat_word_ariths)
  ultimately show ?thesis by (simp add: word_unat_eq_iff)
qed

lemma memset_page_eq:
  assumes "p AND 0xfff = 0"
  shows "memset_page p m a = (if a AND NOT 0xfff = p then 0 else m a)"
proof -
  have "a - p < 4096 \<longleftrightarrow> a AND NOT (mask 12) = p"
  proof
    assume "a AND NOT (mask 12) = p"
    then have "a - p = a AND mask 12" using mask_split[of a 12] by (metis add_diff_cancel_left')
    then show "a - p < 4096" by (simp add: word_less_nat_alt unat_and_mask)
  next
    assume "a - p < 4096"
    then have "(a - p) AND mask 12 = a - p" by (intro below_mask) (simp add: word_less_nat_alt)
    from mask_add(1)[OF _ this, of p] assms show "a AND NOT (mask 12) = p"
      by (simp add: mask12)
  qed
  then show ?thesis unfolding mask12 by (simp add: memset_page_def)
qed

section \<open>Writing entries\<close>

definition valid :: "u64 list \<Rightarrow> bool" where
  "valid q \<longleftrightarrow> length q \<le> 3 \<and> (\<forall>i \<in> set q. i < 512)"

lemma valid_Cons: "valid (k # q) \<longleftrightarrow> k < 512 \<and> path q"
  by (auto simp: valid_def path_def)

lemma path_valid: "path q \<Longrightarrow> valid q"
  by (auto simp: valid_def path_def)

lemma raw_store:
  fixes w :: u64
  assumes inj: "inj_on (tab s) {p. path p \<and> tab s p \<noteq> 0}" and p: "path p" "tab s p \<noteq> 0" "i < 512"
  defines "s' \<equiv> s\<lparr>mem := (mem s)(tab s p + 8 * i := w)\<rparr>"
  shows "valid q \<Longrightarrow> \<not> suffix (i # p) q \<Longrightarrow> raw s' q = raw s q" and "raw s' (i # p) = w"
proof -
  show other: "raw s' q = raw s q" if "valid q" "\<not> suffix (i # p) q" for q
    using that
  proof (induction q)
    case Nil
    then show ?case by (simp add: s'_def)
  next
    case (Cons k q)
    then have IH: "raw s' q = raw s q" and kq: "k < 512" "path q"
      by (auto simp: valid_Cons path_valid suffix_Cons)
    show ?case
    proof (cases "tab s q = 0")
      case False
      have "tab s q + 8 * k \<noteq> tab s p + 8 * i"
      proof
        assume "tab s q + 8 * k = tab s p + 8 * i"
        from entry_inj[OF tab_aligned tab_aligned kq(1) p(3) this] have "tab s q = tab s p" "k = i" by auto
        with inj kq(2) p False have "q = p" by (auto dest: inj_onD)
        with \<open>k = i\<close> Cons.prems(2) show False by simp
      qed
      then show ?thesis using IH False by (simp add: s'_def)
    qed (simp add: IH)
  qed
  have "\<not> suffix (i # p) p" by (auto dest: suffix_length_le)
  from other[OF path_valid[OF p(1)] this] show "raw s' (i # p) = w"
    using p(2) by (simp add: s'_def)
qed

lemma raw_memset:
  assumes n: "n AND 0xfff = 0" and fresh: "\<forall>p. path p \<and> tab s p \<noteq> 0 \<longrightarrow> tab s p \<noteq> n" and "valid q"
  shows "raw (s\<lparr>mem := memset_page n (mem s)\<rparr>) q = raw s q"
  using \<open>valid q\<close>
proof (induction q)
  case (Cons k q)
  then have kq: "k < 512" "path q" by (auto simp: valid_Cons)
  then have "(tab s q + 8 * k) AND NOT 0xfff = tab s q" using entry_parts(1)[OF tab_aligned] by blast
  with Cons.IH path_valid[OF kq(2)] fresh kq(2) show ?case
    by (auto simp: memset_page_eq[OF n])
qed simp

text \<open>
  A new table: the entry that pointed nowhere points to a zeroed page, and everything else looks as
  before.
\<close>

lemma raw_new_table:
  assumes inj: "inj_on (tab s) {p. path p \<and> tab s p \<noteq> 0}" and p: "path (i # p)" "tab s p \<noteq> 0"
    and none: "tab s (i # p) = 0" and n: "n AND 0xfff = 0" "n \<noteq> 0" "w AND NOT 0xfff = n"
    and fresh: "\<forall>p. path p \<and> tab s p \<noteq> 0 \<longrightarrow> tab s p \<noteq> n"
  defines "s' \<equiv> s\<lparr>mem := (memset_page n (mem s))(tab s p + 8 * i := w)\<rparr>"
  shows "valid q \<Longrightarrow> q \<noteq> i # p \<Longrightarrow> raw s' q = raw s q" and "raw s' (i # p) = w"
proof -
  let ?s1 = "s\<lparr>mem := memset_page n (mem s)\<rparr>"
  have same: "raw ?s1 q = raw s q" if "valid q" for q using raw_memset[OF n(1) fresh that] .
  have pp: "path p" "i < 512" using p(1) by (auto simp: path_def)
  have tabs: "path q \<Longrightarrow> tab ?s1 q = tab s q" for q using same path_valid by simp
  have "{p. path p \<and> tab ?s1 p \<noteq> 0} = {p. path p \<and> tab s p \<noteq> 0}" using tabs by auto
  then have inj1: "inj_on (tab ?s1) {p. path p \<and> tab ?s1 p \<noteq> 0}"
    using inj tabs by (simp add: inj_on_def)
  have s': "s' = ?s1\<lparr>mem := (mem ?s1)(tab ?s1 p + 8 * i := w)\<rparr>" using tabs[OF pp(1)] by (simp add: s'_def)
  have p1: "tab ?s1 p \<noteq> 0" using p(2) tabs[OF pp(1)] by simp
  note st = raw_store[where w = w, OF inj1 pp(1) p1 pp(2), folded s']
  show new: "raw s' (i # p) = w" using st(2) .
  show "raw s' q = raw s q" if q: "valid q" "q \<noteq> i # p" for q
  proof (cases "suffix (i # p) q")
    case False
    with st(1)[OF q(1)] same[OF q(1)] show ?thesis by simp
  next
    case True
    then obtain us where us: "q = us @ i # p" "us \<noteq> []" using q(2) by (auto simp: suffix_def)
    have zero: "raw s (us @ i # p) = 0" if "us \<noteq> []" for us
      using that
    proof (induction us)
      case (Cons a us)
      then have "tab s (us @ i # p) = 0" using none by (cases us) auto
      then show ?case by simp
    qed simp
    have first: "raw s' (k # i # p) = 0" if "k < 512" for k
    proof -
      have "(n + 8 * k) AND NOT 0xfff = n" using entry_parts(1)[OF n(1) that] .
      moreover have "tab s p \<noteq> n" using fresh pp(1) p(2) by simp
      then have "n + 8 * k \<noteq> tab s p + 8 * i"
        using entry_inj[OF n(1) tab_aligned that pp(2)] by metis
      ultimately show ?thesis using new n by (simp add: s'_def memset_page_eq[OF n(1)])
    qed
    have "raw s' (vs @ i # p) = 0" if "vs \<noteq> []" "\<forall>k \<in> set vs. k < 512" for vs
      using that
    proof (induction vs)
      case (Cons v vs)
      then show ?case using first[of v] by (cases vs) auto
    qed simp
    with us q(1) zero show ?thesis by (auto simp: valid_def)
  qed
qed

section \<open>Mapping a page\<close>

lemma raw_kh [simp]: "raw (s\<lparr>kh := h\<rparr>) q = raw s q"
  by (induction q) auto

lemma raw_mem_kh [simp]: "raw (s\<lparr>mem := m, kh := h\<rparr>) q = raw (s\<lparr>mem := m\<rparr>) q"
  by (induction q) auto

lemma table_entry_word: "n AND 0xfff = 0 \<Longrightarrow> (n OR PTE_P OR PTE_W OR PTE_U) AND NOT 0xfff = n"
proof -
  assume n: "n AND 0xfff = 0"
  have "(n OR 7) AND NOT (mask 12) = (n AND NOT (mask 12)) OR (7 AND NOT (mask 12))"
    by (rule bit_eqI) (auto simp: bit_simps)
  moreover have "(7 :: u64) AND NOT (mask 12) = 0" by (simp add: mask_eq_exp_minus_1)
  moreover have "PTE_P OR PTE_W OR PTE_U = 7" by (simp add: PTE_P_def PTE_W_def PTE_U_def)
  ultimately show ?thesis using aligned_page[OF n] by (simp add: mask12)
qed

lemma separated_apart: "separated ((a, 0x1000) # (b, 0x1000) # xs) \<Longrightarrow> a \<noteq> b"
  by (auto simp: separated_Cons apart_def blk_end_def)

lemma next_table_new:
  assumes ok: "pt_ok s" and p: "path (i # p)" "tab s p \<noteq> 0" and none: "tab s (i # p) = 0"
    and al: "alloc_kheap_4k 4096 (kh s) = ret (n, h)" "n \<noteq> 0"
  defines "s' \<equiv> s\<lparr>mem := (memset_page n (mem s))(tab s p + 8 * i := n OR PTE_P OR PTE_W OR PTE_U), kh := h\<rparr>"
  shows "n AND 0xfff = 0 \<and> pt_ok s' \<and> (\<forall>q. valid q \<and> q \<noteq> i # p \<longrightarrow> raw s' q = raw s q) \<and> tab s' (i # p) = n"
proof -
  have kok: "kheap_ok (kh s)" "aligned_holes (holes_4k (kh s))" using ok by (auto simp: pt_ok_def)
  have n: "n AND 0xfff = 0" "aligned_holes (holes_4k h)"
    using alloc_kheap_4k_keeps_aligned[OF kok al(1)] by auto
  have hok: "kheap_ok h" using alloc_kheap_4k_sound[OF kok(1) al(1)] by simp
  have sep: "separated ((n, 0x1000) # (tab s q, 0x1000) # kspace h)" if "path q" "tab s q \<noteq> 0" for q
    using alloc_kheap_4k_sound[OF kok(1) al(1), of "[(tab s q, 0x1000)]"] that ok al(2)
    by (auto simp: pt_ok_def align_4k_def)
  then have fresh: "\<forall>q. path q \<and> tab s q \<noteq> 0 \<longrightarrow> tab s q \<noteq> n" using separated_apart by blast
  have inj: "inj_on (tab s) {p. path p \<and> tab s p \<noteq> 0}" using ok by (simp add: pt_ok_def)
  note new = raw_new_table[OF inj p none n(1) al(2) table_entry_word[OF n(1)] fresh]
  have other: "raw s' q = raw s q" if "valid q" "q \<noteq> i # p" for q using new(1)[OF that] by (simp add: s'_def)
  have tn: "tab s' (i # p) = n" using new(2) table_entry_word[OF n(1)] by (simp only: s'_def raw_mem_kh)
  have tabs: "tab s' q = (if q = i # p then n else tab s q)" if "path q" for q
    using tn other path_valid[OF that] by simp
  have "inj_on (tab s') {q. path q \<and> tab s' q \<noteq> 0}"
    using inj fresh tabs none by (auto simp: inj_on_def split: if_splits)
  moreover have "separated ((tab s' q, 0x1000) # kspace h)" if "path q" "tab s' q \<noteq> 0" for q
    using sep[of q] sep[of p] p that tabs[OF that(1)]
    by (auto simp: separated_Cons path_def split: if_splits)
  ultimately have "pt_ok s'" using ok hok n(2) by (auto simp: pt_ok_def s'_def)
  with n(1) other tn show ?thesis by blast
qed

lemma next_table_spec:
  assumes ok: "pt_ok s" and p: "path (i # p)" "tab s p \<noteq> 0"
    and res: "next_table (tab s p + 8 * i) s = ret (r, s')"
  shows "pt_ok s' \<and> pml4_a s' = pml4_a s \<and> cr3 s' = cr3 s \<and>
    (\<forall>q. valid q \<and> q \<noteq> i # p \<longrightarrow> raw s' q = raw s q) \<and>
    (\<forall>t. r = Some t \<longrightarrow> t \<noteq> 0 \<and> tab s' (i # p) = t)"
proof (cases "tab s (i # p) = 0")
  case False
  with p res ok show ?thesis by (auto simp: next_table_def Let_def split: if_splits)
next
  case True
  then have e: "mem s (tab s p + 8 * i) AND NOT 0xfff = 0" using p by simp
  from res obtain n h where al: "alloc_kheap_4k 4096 (kh s) = ret (n, h)"
    unfolding next_table_def Let_def using e by (auto simp: kbind_eq_ret)
  show ?thesis
  proof (cases "n = 0")
    case True
    have kok: "kheap_ok (kh s)" "aligned_holes (holes_4k (kh s))" using ok by (auto simp: pt_ok_def)
    have "s' = s\<lparr>kh := h\<rparr>" "r = None" using res al e True by (auto simp: next_table_def kassert_def)
    moreover have "separated ((tab s q, 0x1000) # kspace h)" if "path q" "tab s q \<noteq> 0" for q
      using alloc_kheap_4k_sound[OF kok(1) al, of "[(tab s q, 0x1000)]"] that ok True by (auto simp: pt_ok_def)
    ultimately show ?thesis
      using ok alloc_kheap_4k_sound[OF kok(1) al] alloc_kheap_4k_keeps_aligned[OF kok al]
      by (auto simp: pt_ok_def)
  next
    case n: False
    note new = next_table_new[OF ok p True al n]
    then have "s' = s\<lparr>mem := (memset_page n (mem s))(tab s p + 8 * i := n OR PTE_P OR PTE_W OR PTE_U), kh := h\<rparr>"
      "r = Some n" using res al e n by (auto simp: next_table_def kassert_def)
    with new n show ?thesis by simp
  qed
qed

declare raw.simps(2) [simp del]

lemma pml4_tab:
  assumes "pt_ok s"
  shows "tab s [] = pml4_a s" "pml4_a s \<noteq> 0" "path []"
  using assms aligned_page[of "pml4_a s"] by (auto simp: pt_ok_def path_def)

lemma path_singles: "i < 512 \<Longrightarrow> path [i]" "i < 512 \<Longrightarrow> j < 512 \<Longrightarrow> path [j, i]"
  by (auto simp: path_def)

lemma leaf_store:
  fixes w :: u64
  assumes ok: "pt_ok s" and p: "path p" "length p = 2" "tab s p \<noteq> 0" "k < 512"
  defines "s' \<equiv> s\<lparr>mem := (mem s)(tab s p + 8 * k := w)\<rparr>"
  shows "pt_ok s' \<and> (\<forall>q. valid q \<longrightarrow> raw s' q = (if q = k # p then w else raw s q))"
proof -
  have inj: "inj_on (tab s) {p. path p \<and> tab s p \<noteq> 0}" using ok by (simp add: pt_ok_def)
  note st = raw_store[where w = w, OF inj p(1,3,4), folded s'_def]
  have all: "raw s' q = (if q = k # p then w else raw s q)" if "valid q" for q
  proof (cases "suffix (k # p) q")
    case True
    then have "q = k # p"
      using that p(2) suffix_length_le[OF True] by (auto simp: valid_def suffix_def)
    with st(2) show ?thesis by simp
  qed (use st(1)[OF that] in auto)
  have "tab s' q = tab s q" if "path q" for q
    using all[OF path_valid[OF that]] that p(2) by (auto simp: path_def)
  moreover from this have "{q. path q \<and> tab s' q \<noteq> 0} = {q. path q \<and> tab s q \<noteq> 0}" by auto
  ultimately have "pt_ok s'" using ok by (auto simp: pt_ok_def s'_def inj_on_def)
  with all show ?thesis by blast
qed

text \<open>The effect of a call on the leaf entries.\<close>

lemma map_page_p2v_leaves:
  assumes ok: "pt_ok s" and res: "map_page_p2v paddr va flag s = ret (r, s')"
  shows "pt_ok s' \<and> pml4_a s' = pml4_a s \<and> cr3 s' = cr3 s \<and> (r = OK \<or> r = E_NOMEM) \<and>
    (\<forall>q. valid q \<and> length q = 3 \<longrightarrow> raw s' q =
      (if r = OK \<and> q = [pd_index va, pdp_index va, pml4_index va] then paddr OR flag else raw s q)) \<and>
    (r = OK \<longrightarrow> tab s' [pdp_index va, pml4_index va] \<noteq> 0)"
proof -
  let ?i = "pml4_index va" and ?j = "pdp_index va" and ?k = "pd_index va"
  have [simp]: "OK \<noteq> E_NOMEM" "E_NOMEM \<noteq> OK" by (simp_all add: OK_def E_NOMEM_def)
  have pths: "path [?i]" "path [?j, ?i]" using path_singles index_lt by blast+
  note root = pml4_tab[OF ok]
  from res obtain pdp s1 where n1: "next_table (pml4_a s + 8 * ?i) s = ret (pdp, s1)"
    and r1: "pdp = None \<Longrightarrow> r = E_NOMEM \<and> s' = s1"
    and c1: "\<And>t. pdp = Some t \<Longrightarrow> kbind (next_table (t + 8 * ?j) s1) (\<lambda>(pd, s2).
             case pd of None \<Rightarrow> ret (E_NOMEM, s2)
             | Some pd \<Rightarrow> ret (OK, s2\<lparr>mem := (mem s2)(pd + 8 * ?k := paddr OR flag)\<rparr>)) = ret (r, s')"
    unfolding map_page_p2v_def by (auto simp: kbind_eq_ret kassert_def split: if_splits option.splits)
  have n1': "next_table (tab s [] + 8 * ?i) s = ret (pdp, s1)" using n1 root(1) by simp
  have "tab s [] \<noteq> 0" using root by simp
  note sp1 = next_table_spec[OF ok pths(1) this n1']
  show ?thesis
  proof (cases pdp)
    case None
    with r1 sp1 show ?thesis by auto
  next
    case (Some t)
    then have t: "tab s1 [?i] = t" "t \<noteq> 0" "pt_ok s1" using sp1 by auto
    from c1[OF Some] obtain pd s2 where n2: "next_table (t + 8 * ?j) s1 = ret (pd, s2)"
      and r2: "pd = None \<Longrightarrow> r = E_NOMEM \<and> s' = s2"
      and r3: "\<And>u. pd = Some u \<Longrightarrow> r = OK \<and> s' = s2\<lparr>mem := (mem s2)(u + 8 * ?k := paddr OR flag)\<rparr>"
      by (auto simp: kbind_eq_ret split: option.splits)
    have n2': "next_table (tab s1 [?i] + 8 * ?j) s1 = ret (pd, s2)" using n2 t by simp
    have "tab s1 [?i] \<noteq> 0" using t by simp
    note sp2 = next_table_spec[OF t(3) pths(2) this n2']
    have same: "raw s2 q = raw s q" if "valid q" "length q = 3" for q
    proof -
      have "q \<noteq> [?i]" "q \<noteq> [?j, ?i]" using that(2) by auto
      with that(1) sp1 sp2 show ?thesis by simp
    qed
    show ?thesis
    proof (cases pd)
      case None
      with r2 sp1 sp2 same show ?thesis by auto
    next
      case (Some u)
      then have u: "tab s2 [?j, ?i] = u" "u \<noteq> 0" "pt_ok s2" using sp2 by auto
      have u0: "tab s2 [?j, ?i] \<noteq> 0" using u by simp
      have s': "s' = s2\<lparr>mem := (mem s2)(tab s2 [?j, ?i] + 8 * ?k := paddr OR flag)\<rparr>" "r = OK"
        using r3[OF Some] u(1) by auto
      note ls = leaf_store[OF u(3) pths(2) _ u0 index_lt(3)[of va], where w = "paddr OR flag", folded s'(1)]
      have "raw s' [?j, ?i] = raw s2 [?j, ?i]"
        using ls path_valid[OF pths(2)] by simp
      with ls s' u0 sp1 sp2 same show ?thesis by auto
    qed
  qed
qed

text \<open>The number of the 2 MB page of an address, in the 48 bits that the tables translate.\<close>

definition page_no :: "u64 \<Rightarrow> u64" where
  "page_no v = drop_bit 21 v AND mask 27"

lemma index_bits:
  "bit (pml4_index v) n \<longleftrightarrow> n < 9 \<and> bit v (39 + n)"
  "bit (pdp_index v) n \<longleftrightarrow> n < 9 \<and> bit v (30 + n)"
  "bit (pd_index v) n \<longleftrightarrow> n < 9 \<and> bit v (21 + n)"
  "bit (page_no v) n \<longleftrightarrow> n < 27 \<and> bit v (21 + n)"
proof -
  have m: "(511 :: u64) = mask 9" by (simp add: mask_eq_exp_minus_1)
  show "bit (pml4_index v) n \<longleftrightarrow> n < 9 \<and> bit v (39 + n)"
    "bit (pdp_index v) n \<longleftrightarrow> n < 9 \<and> bit v (30 + n)"
    "bit (pd_index v) n \<longleftrightarrow> n < 9 \<and> bit v (21 + n)"
    "bit (page_no v) n \<longleftrightarrow> n < 27 \<and> bit v (21 + n)"
    unfolding pml4_index_def pdp_index_def pd_index_def page_no_def m
    by (auto simp: bit_and_iff bit_drop_bit_eq bit_mask_iff)
qed

lemma page_no_indices:
  "page_no v = page_no v' \<longleftrightarrow>
   [pd_index v, pdp_index v, pml4_index v] = [pd_index v', pdp_index v', pml4_index v']" (is "?l = ?r")
proof
  assume ?l
  then have b: "bit v (21 + n) = bit v' (21 + n)" if "n < 27" for n
    using that index_bits(4)[of v n] index_bits(4)[of v' n] by simp
  have "bit v (30 + n) = bit v' (30 + n)" "bit v (39 + n) = bit v' (39 + n)" if "n < 9" for n
    using that b[of "9 + n"] b[of "18 + n"] by (simp_all add: add.assoc[symmetric])
  then show ?r using b by (auto intro!: bit_eqI simp: index_bits)
next
  assume r: ?r
  show ?l
  proof (rule bit_eqI)
    fix n :: nat
    consider "n < 9" | "9 \<le> n" "n < 18" | "18 \<le> n" "n < 27" | "27 \<le> n" by linarith
    then show "bit (page_no v) n = bit (page_no v') n"
    proof cases
      case 1
      then show ?thesis using r index_bits(3)[of v n] index_bits(3)[of v' n] by (simp add: index_bits(4))
    next
      case 2
      then have "n - 9 < 9" by linarith
      with 2 show ?thesis using r index_bits(2)[of v "n - 9"] index_bits(2)[of v' "n - 9"]
        by (simp add: index_bits(4))
    next
      case 3
      then have "n - 18 < 9" by linarith
      with 3 show ?thesis using r index_bits(1)[of v "n - 18"] index_bits(1)[of v' "n - 18"]
        by (simp add: index_bits(4))
    qed (simp add: index_bits(4))
  qed
qed

lemma leaf_valid: "valid [pd_index v, pdp_index v, pml4_index v]"
  by (simp add: valid_def)

lemma get_pte_leaf:
  assumes "pt_ok s" "cr3 s = pml4_a s" "tab s [pdp_index v, pml4_index v] \<noteq> 0"
  shows "get_pte_with_addr v s \<noteq> 0 \<and> mem s (get_pte_with_addr v s) = pde_of s v"
proof -
  let ?pd = "tab s [pdp_index v, pml4_index v]"
  have root: "cr3 s AND NOT 0xfff = tab s []" "tab s [] \<noteq> 0" using pml4_tab[OF assms(1)] assms(2) by auto
  have l1: "raw s [pml4_index v] = mem s (tab s [] + 8 * pml4_index v)" using root by (simp add: raw.simps(2))
  then have t1: "tab s [pml4_index v] \<noteq> 0" using assms(3) by (auto simp: raw.simps(2)[of s "pdp_index v"])
  have l2: "raw s [pdp_index v, pml4_index v] = mem s (tab s [pml4_index v] + 8 * pdp_index v)"
    using t1 by (simp add: raw.simps(2)[of s "pdp_index v"])
  have pte: "get_pte_with_addr v s = ?pd + 8 * pd_index v"
    using root l1 l2 t1 assms(3) by (simp add: get_pte_with_addr_def Let_def)
  have "?pd + 8 * pd_index v \<noteq> 0"
    using entry_parts(1)[OF tab_aligned[of s "[pdp_index v, pml4_index v]"] index_lt(3)[of v]] assms(3) by auto
  with pte assms(3) show ?thesis by (simp add: pde_of_def raw.simps(2)[of s "pd_index v"])
qed

section \<open>Properties\<close>

text \<open>
  C7 (functional). Mapping a page sets the entry of that 2 MB page and leaves the mapping of every
  other address as it was; when the heap has no memory for a table, no mapping changes. Either way
  the tables stay a tree that overlaps nothing the heap can hand out.
\<close>

theorem map_page_p2v_exact:
  assumes "pt_ok s" and "map_page_p2v paddr va flag s = ret (r, s')"
  shows "pt_ok s' \<and>
    (r = OK \<and> (\<forall>v. pde_of s' v = (if page_no v = page_no va then paddr OR flag else pde_of s v)) \<or>
     r = E_NOMEM \<and> (\<forall>v. pde_of s' v = pde_of s v))"
proof -
  note lv = map_page_p2v_leaves[OF assms]
  have "pde_of s' v = (if r = OK \<and> page_no v = page_no va then paddr OR flag else pde_of s v)" for v
    using lv leaf_valid[of v] by (auto simp: pde_of_def page_no_indices)
  moreover have "OK \<noteq> E_NOMEM" by (simp add: OK_def E_NOMEM_def)
  ultimately show ?thesis using lv by auto
qed

text \<open>A table tree with nothing but its root, for the concrete instances.\<close>

definition demo_pgt :: "kheap \<Rightarrow> pgt" where
  "demo_pgt h = \<lparr>mem = (\<lambda>_. 0), pml4_a = 0x8000, cr3 = 0x8000, kh = h\<rparr>"

lemma demo_pgt_raw: "raw (demo_pgt h) q = (if q = [] then 0x8000 else 0)"
  by (induction q) (auto simp: demo_pgt_def raw.simps)

lemma demo_pgt_root: "tab (demo_pgt h) [] = 0x8000"
  by (simp add: demo_pgt_def)

lemma demo_heap_freed_space:
  "\<exists>s. free_kheap_4k 0x100000 0x3000 demo_heap = ret s \<and> kheap_ok s \<and>
     holes_4k s = [(0x100000, 0x3000)] \<and> kspace s = [(0x100000, 0x3000), (0xA00000, 0x200000)]"
proof -
  obtain s where s: "free_kheap_4k 0x100000 0x3000 demo_heap = ret s" "kheap_ok s"
      "holes_4k s = [(0x100000, 0x3000)]" "holes_small s = []" "phy s = demo_mem 5"
    using demo_heap_freed by blast
  then have "kspace s = [(0x100000, 0x3000), (0xA00000, 0x200000)]"
    by (simp add: kspace_def page_blocks_def demo_mem_free PAGE_SIZE_def)
  with s show ?thesis by blast
qed

lemma demo_pgt_ok:
  assumes "kheap_ok h" "holes_4k h = [(0x100000, 0x3000)]"
    "kspace h = [(0x100000, 0x3000), (0xA00000, 0x200000)]"
  shows "pt_ok (demo_pgt h)"
proof -
  have only: "p = []" if "tab (demo_pgt h) p \<noteq> 0" for p
    using that by (simp add: demo_pgt_raw split: if_splits)
  then have "inj_on (tab (demo_pgt h)) {p. path p \<and> tab (demo_pgt h) p \<noteq> 0}"
    by (simp only: inj_on_def mem_Collect_eq) blast
  moreover have "separated ((0x8000, 0x1000) # kspace h)"
    unfolding assms(3) by (simp add: separated_def apart_def blk_end_def)
  then have "\<forall>p. path p \<and> tab (demo_pgt h) p \<noteq> 0 \<longrightarrow> separated ((tab (demo_pgt h) p, 0x1000) # kspace h)"
    using only by (metis (no_types, lifting) demo_pgt_root)
  moreover have "aligned_holes (holes_4k h)" by (simp add: assms(2) aligned_holes_def)
  ultimately show ?thesis using assms(1) by (simp add: pt_ok_def demo_pgt_def)
qed

lemma demo_map:
  assumes "kheap_ok h" "holes_4k h = [(0x100000, 0x3000)]" "pa AND 0xfff = 0"
  shows "\<exists>s'. map_page_p2v pa 0x40000000 0x83 (demo_pgt h) = ret (OK, s') \<and> phy (kh s') = phy h"
proof -
  obtain h1 where h1: "alloc_kheap_4k 4096 h = ret (0x100000, h1)" "kheap_ok h1" "holes_4k h1 = [(0x101000, 0x2000)]"
    "phy h1 = phy h" using alloc_kheap_4k_fit[OF assms(1), of "4096" "0x100000" "[(0x101000, 0x2000)]"] assms(2)
    by (auto simp: align_4k_def)
  obtain h2 where h2: "alloc_kheap_4k 4096 h1 = ret (0x101000, h2)" "phy h2 = phy h1"
    using alloc_kheap_4k_fit[OF h1(2), of "4096" "0x101000" "[(0x102000, 0x1000)]"] h1(3)
    by (auto simp: align_4k_def)
  have "pml4_index 0x40000000 = 0" "pdp_index 0x40000000 = 1" "pd_index 0x40000000 = 0" by code_simp+
  then show ?thesis using h1(1,4) h2 assms(3)
    by (simp add: map_page_p2v_def next_table_def demo_pgt_def kassert_def memset_page_def)
qed

theorem map_page_p2v_exact_witness:
  "\<exists>h s'. map_page_p2v 0xA00000 0x40000000 0x83 (demo_pgt h) = ret (OK, s') \<and> pt_ok s' \<and>
     pde_of s' 0x40012345 = 0xA00083 \<and> pde_of s' 0x40200000 = 0"
proof -
  obtain h where h: "kheap_ok h" "holes_4k h = [(0x100000, 0x3000)]"
    "kspace h = [(0x100000, 0x3000), (0xA00000, 0x200000)]" using demo_heap_freed_space by blast
  obtain s' where s': "map_page_p2v 0xA00000 0x40000000 0x83 (demo_pgt h) = ret (OK, s')"
    using demo_map[OF h(1,2), of "0xA00000"] by auto
  have pg: "page_no 0x40012345 = page_no 0x40000000" "page_no 0x40200000 \<noteq> page_no 0x40000000" by code_simp+
  have "OK \<noteq> E_NOMEM" by (simp add: OK_def E_NOMEM_def)
  with map_page_p2v_exact[OF demo_pgt_ok[OF h] s'] have "pt_ok s'"
    and all: "\<And>v. pde_of s' v = (if page_no v = page_no 0x40000000 then 0xA00000 OR 0x83 else pde_of (demo_pgt h) v)"
    by blast+
  moreover have "pde_of s' 0x40012345 = 0xA00083" unfolding all by (simp add: pg)
  moreover have "pde_of s' 0x40200000 = 0" unfolding all by (simp add: pg pde_of_def demo_pgt_raw)
  ultimately have "pt_ok s' \<and> pde_of s' 0x40012345 = 0xA00083 \<and> pde_of s' 0x40200000 = 0" by blast
  with s' show ?thesis by blast
qed

lemma map_page_p2v_lookup:
  assumes "pt_ok s" and "cr3 s = pml4_a s" and "map_page_p2v paddr va flag s = ret (OK, s')"
    and "page_no v = page_no va"
  shows "get_pte_with_addr v s' \<noteq> 0 \<and> mem s' (get_pte_with_addr v s') = paddr OR flag"
proof -
  note lv = map_page_p2v_leaves[OF assms(1,3)]
  have ix: "pd_index v = pd_index va" "pdp_index v = pdp_index va" "pml4_index v = pml4_index va"
    using assms(4) by (auto simp: page_no_indices)
  then have "pde_of s' v = paddr OR flag" using lv leaf_valid[of v] by (simp add: pde_of_def)
  moreover have "get_pte_with_addr v s' \<noteq> 0 \<and> mem s' (get_pte_with_addr v s') = pde_of s' v"
    using lv assms(2) ix by (intro get_pte_leaf) auto
  ultimately show ?thesis by simp
qed

text \<open>
  After a page has been mapped in the current table, looking up any address of the
  page finds an entry, and the entry holds the frame and the flags that were given.
\<close>

theorem map_then_get_pte:
  assumes "pt_ok s" and "cr3 s = pml4_a s" and "map_page_p2v paddr va flag s = ret (OK, s')"
    and "page_no v = page_no va"
  shows "get_pte_with_addr v s' \<noteq> 0 \<and> mem s' (get_pte_with_addr v s') = paddr OR flag"
  using assms by (rule map_page_p2v_lookup)

theorem map_then_get_pte_witness:
  "\<exists>h s'. map_page_p2v 0xA00000 0x40000000 0x83 (demo_pgt h) = ret (OK, s') \<and>
     mem s' (get_pte_with_addr 0x401fffff s') = 0xA00083"
proof -
  obtain h where h: "kheap_ok h" "holes_4k h = [(0x100000, 0x3000)]"
    "kspace h = [(0x100000, 0x3000), (0xA00000, 0x200000)]" using demo_heap_freed_space by blast
  obtain s' where s': "map_page_p2v 0xA00000 0x40000000 0x83 (demo_pgt h) = ret (OK, s')"
    using demo_map[OF h(1,2), of "0xA00000"] by auto
  have pg: "page_no 0x401fffff = page_no 0x40000000" by code_simp
  have "cr3 (demo_pgt h) = pml4_a (demo_pgt h)" by (simp add: demo_pgt_def)
  from map_then_get_pte[OF demo_pgt_ok[OF h] this s' pg] s' show ?thesis by auto
qed

section \<open>The boot tables\<close>

lemma init_pds_step:
  assumes "length pds = 4"
  shows "init_pds pds (Suc n) m =
    (init_pds pds n m)(pds ! 0 + 8 * of_nat n := boot_pde n, pds ! 1 + 8 * of_nat n := boot_pde (n + 512),
       pds ! 2 + 8 * of_nat n := boot_pde (n + 1024), pds ! 3 + 8 * of_nat n := boot_pde (n + 1536))"
proof -
  have "[0..<4] = [0, 1, 2, 3 :: nat]" by code_simp
  then show ?thesis by simp
qed

declare init_pds.simps(2) [simp del]

lemma nth4: "t < 4 \<Longrightarrow> t = 0 \<or> t = 1 \<or> t = 2 \<or> t = (3 :: nat)"
  by presburger

lemma lt_512_inj: "m < 512 \<Longrightarrow> n < 512 \<Longrightarrow> (of_nat m :: u64) = of_nat n \<Longrightarrow> m = n"
  by (simp add: word_unat_eq_iff unat_of_nat)

lemma init_pds_entry:
  assumes pds: "length pds = 4" "distinct pds" "\<forall>a \<in> set pds. a AND 0xfff = 0"
    and "n \<le> 512" "t < 4" "k < n"
  shows "init_pds pds n m (pds ! t + 8 * of_nat k) = boot_pde (k + t * 512)"
  using assms(4,6)
proof (induction n)
  case (Suc n)
  have lt: "(of_nat k :: u64) < 512" "(of_nat n :: u64) < 512"
    using Suc.prems by (simp_all add: word_less_nat_alt unat_of_nat)
  have al: "pds ! u AND 0xfff = 0" if "u < 4" for u using that pds by simp
  have ne: "pds ! t + 8 * of_nat k \<noteq> pds ! u + 8 * of_nat n" if "u < 4" "u \<noteq> t \<or> k \<noteq> n" for u
  proof
    assume "pds ! t + 8 * of_nat k = pds ! u + 8 * of_nat n"
    from entry_inj[OF al[OF assms(5)] al[OF that(1)] lt this] have "pds ! t = pds ! u" "(of_nat k :: u64) = of_nat n"
      by auto
    then have "k = n" using lt_512_inj[of k n] Suc.prems by simp
    with \<open>pds ! t = pds ! u\<close> show False
      using that pds assms(5) nth_eq_iff_index_eq[OF pds(2), of t u] by simp
  qed
  note nes = ne[of 0] ne[of 1] ne[of 2] ne[of 3]
  show ?case
  proof (cases "k = n")
    case True
    consider "t = 0" | "t = 1" | "t = 2" | "t = 3" using nth4[OF assms(5)] by blast
    then show ?thesis by cases (use True nes in \<open>simp_all add: init_pds_step[OF pds(1)]\<close>)
  next
    case False
    then have "init_pds pds (Suc n) m (pds ! t + 8 * of_nat k) = init_pds pds n m (pds ! t + 8 * of_nat k)"
      using nes unfolding init_pds_step[OF pds(1)] by simp
    with False Suc show ?thesis by simp
  qed
qed simp

lemma init_pds_frame:
  assumes pds: "length pds = 4" "\<forall>a \<in> set pds. a AND 0xfff = 0" and "n \<le> 512"
    and "\<forall>t \<in> set pds. a AND NOT 0xfff \<noteq> t"
  shows "init_pds pds n m a = m a"
  using assms(3)
proof (induction n)
  case (Suc n)
  have lt: "(of_nat n :: u64) < 512" using Suc.prems by (simp add: word_less_nat_alt unat_of_nat)
  have ne: "a \<noteq> pds ! u + 8 * of_nat n" if "u < 4" for u
  proof
    assume "a = pds ! u + 8 * of_nat n"
    moreover have "pds ! u \<in> set pds" using that pds(1) by simp
    ultimately show False using entry_parts(1)[OF _ lt, of "pds ! u"] pds(2) assms(4) by auto
  qed
  show ?case using ne[of 0] ne[of 1] ne[of 2] ne[of 3] Suc
    unfolding init_pds_step[OF pds(1)] by simp
qed simp

lemma bit_small_consts:
  "bit (0x80 :: u32) j \<longleftrightarrow> j = 7" "bit (0x2 :: u32) j \<longleftrightarrow> j = 1" "bit (0x1 :: u32) j \<longleftrightarrow> j = 0"
  using bit_exp_iff[where 'a = u32, of 7 j] bit_exp_iff[where 'a = u32, of 1 j] bit_exp_iff[where 'a = u32, of 0 j]
  by auto

lemma bit_boot_word:
  "bit ((of_nat k * 0x200000 :: u32) OR (0x80 OR (0x2 OR 0x1))) j \<longleftrightarrow>
   j < 32 \<and> (j = 0 \<or> j = 1 \<or> j = 7 \<or> 21 \<le> j \<and> bit k (j - 21))"
proof -
  have p: "(of_nat k * 0x200000 :: u32) = push_bit 21 (of_nat k)" by (simp add: push_bit_eq_mult)
  have n: "bit (of_nat k :: u32) i \<longleftrightarrow> i < 32 \<and> bit k i" for i
    using bit_of_nat_iff[where 'a = u32, of k i] by simp
  show ?thesis
    unfolding p by (simp only: bit_or_iff bit_small_consts bit_push_bit_iff n) auto
qed

lemma bit_boot_pde:
  "bit (boot_pde k) n \<longleftrightarrow>
    n = 0 \<or> n = 1 \<or> n = 7 \<or> 21 \<le> n \<and> n < 32 \<and> bit k (n - 21) \<or> 32 \<le> n \<and> n < 64 \<and> bit k 10"
proof (cases "n < 32")
  case True
  then have "min 31 n = n" by simp
  with True show ?thesis
    unfolding boot_pde_def bit_signed_iff bit_boot_word by auto
next
  case False
  then have "min 31 n = 31" by simp
  with False show ?thesis
    unfolding boot_pde_def bit_signed_iff bit_boot_word by auto
qed

text \<open>The value of an entry: the address of frame \<open>k\<close>, with the upper half set from 2 GB on.\<close>

lemma boot_pde_value:
  assumes "k < 2048"
  shows "boot_pde k = (of_nat k * 0x200000 OR 0x83) OR (if k < 1024 then 0 else 0xFFFFFFFF00000000)"
proof (rule bit_eqI)
  fix n :: nat
  assume "possible_bit TYPE(u64) n"
  then have n: "n < 64" by simp
  have p: "(of_nat k * 0x200000 :: u64) = push_bit 21 (of_nat k)" by (simp add: push_bit_eq_mult)
  have kb: "bit k j \<Longrightarrow> j < 11" for j
  proof (rule ccontr)
    assume "bit k j" "\<not> j < 11"
    then have "2 ^ 11 \<le> (2 :: nat) ^ j" by (intro power_increasing) auto
    with \<open>bit k j\<close> assms show False by (simp add: bit_iff_odd)
  qed
  have "k div 1024 = (if k < 1024 then 0 else 1)" using assms by (auto intro: div_nat_eqI)
  then have k10: "bit k 10 \<longleftrightarrow> \<not> k < 1024" by (simp add: bit_iff_odd)
  have c: "bit (0x83 :: u64) n \<longleftrightarrow> n = 0 \<or> n = 1 \<or> n = 7"
  proof -
    have "(0x83 :: u64) = 2 ^ 7 OR (2 ^ 1 OR 2 ^ 0)" by simp
    then show ?thesis by (simp only: bit_or_iff bit_exp_iff) (use n in auto)
  qed
  have h: "bit (0xFFFFFFFF00000000 :: u64) n \<longleftrightarrow> 32 \<le> n"
  proof -
    have "(0xFFFFFFFF00000000 :: u64) = push_bit 32 (mask 32)" by (simp add: mask_eq_exp_minus_1)
    then show ?thesis using n by (simp only: bit_push_bit_iff bit_mask_iff) auto
  qed
  have f: "bit (push_bit 21 (of_nat k) :: u64) n \<longleftrightarrow> 21 \<le> n \<and> bit k (n - 21)"
    using n bit_of_nat_iff[where 'a = u64, of k "n - 21"] by (simp only: bit_push_bit_iff) auto
  have "bit k (n - 21) \<Longrightarrow> n < 32" using kb[of "n - 21"] by linarith
  then show "bit (boot_pde k) n = bit ((of_nat k * 0x200000 OR 0x83) OR (if k < 1024 then 0 else 0xFFFFFFFF00000000) :: u64) n"
    unfolding p bit_boot_pde bit_or_iff c f k10 using n h by auto
qed

lemma unat_index:
  "unat (pml4_index v) = unat v div 2 ^ 39 mod 512" "unat (pdp_index v) = unat v div 2 ^ 30 mod 512"
  "unat (pd_index v) = unat v div 2 ^ 21 mod 512"
proof -
  have "unat (drop_bit n v AND 511) = unat v div 2 ^ n mod 512" for n
  proof -
    have "(511 :: u64) = mask 9" by (simp add: mask_eq_exp_minus_1)
    then have "unat (drop_bit n v AND 511) = drop_bit n (unat v) mod 2 ^ 9"
      by (simp only: unat_and_mask unat_drop_bit_eq)
    then show ?thesis by (simp add: drop_bit_eq_div)
  qed
  then show "unat (pml4_index v) = unat v div 2 ^ 39 mod 512" "unat (pdp_index v) = unat v div 2 ^ 30 mod 512"
    "unat (pd_index v) = unat v div 2 ^ 21 mod 512"
    by (simp_all only: pml4_index_def pdp_index_def pd_index_def)
qed

text \<open>The static tables are where the linker put them: in pages of their own.\<close>

definition boot_layout :: "boot_tables \<Rightarrow> pgt \<Rightarrow> bool" where
  "boot_layout bt s \<longleftrightarrow> length (a_pd bt) = 4 \<and> distinct (pml4_a s # a_pdp bt # a_pd bt) \<and>
     (\<forall>a \<in> set (pml4_a s # a_pdp bt # a_pd bt). a AND 0xfff = 0 \<and> a \<noteq> 0)"

definition boot_mem :: "boot_tables \<Rightarrow> pgt \<Rightarrow> u64 \<Rightarrow> u64" where
  "boot_mem bt s =
     init_pds (a_pd bt) 512
       (fold (\<lambda>t m. m(a_pdp bt + 8 * of_nat t := a_pd bt ! t OR PTE_P OR PTE_W)) [0..<4]
         ((memset_page (a_pdp bt) (memset_page (pml4_a s) (mem s)))(pml4_a s := a_pdp bt OR PTE_P OR PTE_W)))"

lemma init_pml4_low:
  assumes "boot_layout bt s" "mx \<le> 0x100000000"
  shows "init_pml4 bt mx s = ret (s\<lparr>mem := boot_mem bt s, cr3 := pml4_a s\<rparr>)"
proof -
  have "a_pd bt ! 0 \<in> set (a_pd bt)" using assms(1) by (simp add: boot_layout_def)
  moreover have "\<not> mx > 0x100000000" using assms(2) by simp
  ultimately show ?thesis using assms(1)
    by (simp add: init_pml4_def kassert_def boot_layout_def boot_mem_def Let_def)
qed

lemma table_word3: "n AND 0xfff = 0 \<Longrightarrow> (n OR PTE_P OR PTE_W) AND NOT 0xfff = n"
proof -
  assume n: "n AND 0xfff = 0"
  have "(n OR 3) AND NOT (mask 12) = (n AND NOT (mask 12)) OR (3 AND NOT (mask 12))"
    by (rule bit_eqI) (auto simp: bit_simps)
  moreover have "(3 :: u64) AND NOT (mask 12) = 0" by (simp add: mask_eq_exp_minus_1)
  moreover have "PTE_P OR PTE_W = 3" by (simp add: PTE_P_def PTE_W_def)
  ultimately show ?thesis using aligned_page[OF n] by (simp add: mask12)
qed

lemma boot_mem_upper:
  assumes lay: "boot_layout bt s"
  shows "boot_mem bt s (pml4_a s) AND NOT 0xfff = a_pdp bt"
    "t < 4 \<Longrightarrow> boot_mem bt s (a_pdp bt + 8 * of_nat t) AND NOT 0xfff = a_pd bt ! t"
proof -
  let ?P = "a_pdp bt" and ?pds = "a_pd bt"
  have l: "length ?pds = 4" "\<forall>a \<in> set ?pds. a AND 0xfff = 0" and ap: "?P AND 0xfff = 0" "pml4_a s AND 0xfff = 0"
    and dis: "pml4_a s \<noteq> ?P" "pml4_a s \<notin> set ?pds" "?P \<notin> set ?pds"
    using lay by (auto simp: boot_layout_def)
  let ?m1 = "(memset_page ?P (memset_page (pml4_a s) (mem s)))(pml4_a s := ?P OR PTE_P OR PTE_W)"
  have up: "[0..<4] = [0, 1, 2, 3 :: nat]" by code_simp
  have lt: "(of_nat t :: u64) < 512" if "t < 4" for t using that by (simp add: word_less_nat_alt unat_of_nat)
  have pg: "(?P + 8 * of_nat t) AND NOT 0xfff = ?P" if "t < 4" for t using entry_parts(1)[OF ap(1) lt[OF that]] .
  have frame: "boot_mem bt s a = fold (\<lambda>t m. m(?P + 8 * of_nat t := ?pds ! t OR PTE_P OR PTE_W)) [0..<4] ?m1 a"
    if "a AND NOT 0xfff \<notin> set ?pds" for a
    unfolding boot_mem_def using init_pds_frame[OF l, of 512 a] that by blast
  have "pml4_a s \<noteq> ?P + 8 * of_nat t" if "t < 4" for t using pg[OF that] aligned_page[OF ap(2)] dis(1) by metis
  from this[of 0] this[of 1] this[of 2] this[of 3]
  have "boot_mem bt s (pml4_a s) = ?P OR PTE_P OR PTE_W"
    using frame[of "pml4_a s"] aligned_page[OF ap(2)] dis(2) by (simp add: up)
  then show "boot_mem bt s (pml4_a s) AND NOT 0xfff = ?P" using table_word3[OF ap(1)] by simp
  assume t: "t < 4"
  then have al: "?pds ! t AND 0xfff = 0" using l by simp
  have "?P + 8 * of_nat t \<noteq> ?P + 8 * of_nat u" if "u < 4" "u \<noteq> t" for u
    using entry_inj[OF ap(1) ap(1) lt[OF t] lt[OF that(1)]] lt_512_inj[of t u] t that by auto
  note ne = this[of 0] this[of 1] this[of 2] this[of 3]
  consider "t = 0" | "t = 1" | "t = 2" | "t = 3" using nth4[OF t] by blast
  then have "fold (\<lambda>t m. m(?P + 8 * of_nat t := ?pds ! t OR PTE_P OR PTE_W)) [0..<4] ?m1 (?P + 8 * of_nat t) =
      ?pds ! t OR PTE_P OR PTE_W"
    by cases (use ne in \<open>simp_all add: up\<close>)
  then show "boot_mem bt s (?P + 8 * of_nat t) AND NOT 0xfff = ?pds ! t"
    using frame[of "?P + 8 * of_nat t"] pg[OF t] dis(3) table_word3[OF al] by simp
qed

lemma boot_leaf:
  assumes lay: "boot_layout bt s" and "t < 4" "k < 512"
  shows "raw (s\<lparr>mem := boot_mem bt s, cr3 := c\<rparr>) [of_nat k, of_nat t, 0] = boot_pde (k + t * 512)"
proof -
  let ?s = "s\<lparr>mem := boot_mem bt s, cr3 := c\<rparr>"
  have l: "length (a_pd bt) = 4" "distinct (a_pd bt)" "\<forall>a \<in> set (a_pd bt). a AND 0xfff = 0"
    and nz: "pml4_a s AND NOT 0xfff = pml4_a s" "pml4_a s \<noteq> 0" "a_pdp bt \<noteq> 0" "a_pd bt ! t \<noteq> 0"
    using lay aligned_page assms(2) by (auto simp: boot_layout_def)
  have t1: "raw ?s [0] AND NOT 0xfff = a_pdp bt"
    using nz boot_mem_upper(1)[OF lay] by (simp add: raw.simps)
  have "raw ?s [of_nat t, 0] AND NOT 0xfff = a_pd bt ! t"
    using nz t1 boot_mem_upper(2)[OF lay assms(2)] by (simp add: raw.simps(2)[of ?s "of_nat t"])
  then have "raw ?s [of_nat k, of_nat t, 0] = boot_mem bt s (a_pd bt ! t + 8 * of_nat k)"
    using nz by (simp add: raw.simps(2)[of ?s "of_nat k"])
  also have "\<dots> = boot_pde (k + t * 512)"
    unfolding boot_mem_def by (rule init_pds_entry[OF l _ assms(2,3)]) simp
  finally show ?thesis .
qed

text \<open>
  With at most 4 GB of memory the boot tables map every address below 2 GB to
  itself, writable. From 2 GB to 4 GB the entries are not the identity: the index times the page
  size is computed in 32-bit signed arithmetic, so the upper half of the entry is all ones,
  including bits that must be zero and the bit that forbids execution.
\<close>

theorem init_pml4_maps:
  assumes "boot_layout bt s" and "mx \<le> 0x100000000" and "v < 0x100000000"
  shows "\<exists>s'. init_pml4 bt mx s = ret s' \<and> cr3 s' = pml4_a s \<and>
    pde_of s' v = ((v AND NOT 0x1fffff) OR 0x83) OR (if v < 0x80000000 then 0 else 0xFFFFFFFF00000000)"
proof -
  let ?s = "s\<lparr>mem := boot_mem bt s, cr3 := pml4_a s\<rparr>"
  define k t where "k = unat v div 2 ^ 21 mod 512" and "t = unat v div 2 ^ 30"
  have v: "unat v < 2 ^ 32" using assms(3) by (simp add: word_less_nat_alt)
  then have t: "t < 4" by (simp add: t_def less_mult_imp_div_less)
  have kt: "k + t * 512 = unat v div 2 ^ 21" "unat v div 2 ^ 21 < 2048"
    using v by (simp_all add: k_def t_def div_mult2_eq[of _ "2 ^ 21" 512, simplified] less_mult_imp_div_less)
  have "pml4_index v = 0" using v unat_index(1)[of v] by (simp add: unat_eq_0)
  moreover have "pdp_index v = of_nat t" "pd_index v = of_nat k"
    using unat_index(2,3)[of v] t by (simp_all add: word_unat_eq_iff unat_of_nat k_def t_def)
  ultimately have "pde_of ?s v = boot_pde (k + t * 512)"
    using boot_leaf[OF assms(1) t, of k] by (simp add: pde_of_def k_def)
  also have "\<dots> = (of_nat (unat v div 2 ^ 21) * 0x200000 OR 0x83) OR (if unat v div 2 ^ 21 < 1024 then 0 else 0xFFFFFFFF00000000)"
    unfolding kt(1) by (rule boot_pde_value[OF kt(2)])
  also have "(of_nat (unat v div 2 ^ 21) * 0x200000 :: u64) = v AND NOT 0x1fffff"
  proof -
    have "(0x1fffff :: u64) = mask 21" by (simp add: mask_eq_exp_minus_1)
    then have "unat (v AND NOT 0x1fffff) = unat v div 2 ^ 21 * 0x200000"
      using unat_and_not_mask[of v 21] by (simp add: minus_mod_eq_div_mult)
    moreover have "unat (of_nat (unat v div 2 ^ 21) * 0x200000 :: u64) = unat v div 2 ^ 21 * 0x200000"
      using kt(2) by (simp add: unat_word_ariths unat_of_nat)
    ultimately show ?thesis by (simp only: word_unat_eq_iff)
  qed
  also have "unat v div 2 ^ 21 < 1024 \<longleftrightarrow> v < 0x80000000"
    by (simp add: word_less_nat_alt div_less_iff_less_mult)
  finally show ?thesis using init_pml4_low[OF assms(1,2)] by simp
qed

theorem init_pml4_maps_witness:
  "\<exists>s'. init_pml4 \<lparr>a_pdp = 0x9000, a_pd = [0xA000, 0xB000, 0xC000, 0xD000]\<rparr> 0x10000000 (demo_pgt demo_heap) = ret s' \<and>
     pde_of s' 0xC0000000 = 0xFFFFFFFFC0000083"
proof -
  have "boot_layout \<lparr>a_pdp = 0x9000, a_pd = [0xA000, 0xB000, 0xC000, 0xD000]\<rparr> (demo_pgt demo_heap)"
    by (simp add: boot_layout_def demo_pgt_def)
  from init_pml4_maps[OF this, of "0x10000000" "0xC0000000"] show ?thesis by auto
qed

end
