(* ===== verification/Vm.thy ===== *)
theory Vm
  imports Pgtable
begin

text \<open>
  Virtual memory, kernel/vm.c: an allocator of page aligned ranges of linear addresses over a pool
  of hole nodes, and the operations that back such a range by physical pages. The theory proves
  that ranges handed out never overlap, that a failed request leaves the lock held so that the next
  one never returns, and what the release of a mapped range does to the page allocator.
\<close>

section \<open>The linear address space\<close>

definition MAX_LINEAR_HOLE :: nat where
  "MAX_LINEAR_HOLE = 10"

definition PAGE_MASK :: u64 where
  "PAGE_MASK = PAGE_SIZE - 1"

record linear =
  lpool :: pool
  spin_vm :: spinlock

definition free_linear :: "u64 \<Rightarrow> u64 \<Rightarrow> linear \<Rightarrow> linear kres" where
  "free_linear addr sz s =
     kbind (kassert (addr AND PAGE_MASK = 0 \<and> sz AND PAGE_MASK = 0) ''free_linear'') (\<lambda>_.
       case pfree (lpool s) of
         None \<Rightarrow> halt (Panic ''MAX_LINEAR_HOLE too small'')
       | Some p \<Rightarrow>
           kbind (spin_lock (spin_vm s)) (\<lambda>l.
           kbind (free_sorted p addr sz (lpool s)) (\<lambda>pl.
           kbind (spin_unlock l) (\<lambda>l'. ret \<lparr>lpool = pl, spin_vm = l'\<rparr>))))"

definition align_page :: "u64 \<Rightarrow> u64" where
  "align_page sz = (if sz AND PAGE_MASK \<noteq> 0 then (sz AND NOT PAGE_MASK) + PAGE_SIZE else sz)"

text \<open>The return on failure does not release the lock.\<close>

definition alloc_linear :: "u64 \<Rightarrow> linear \<Rightarrow> (u64 \<times> linear) kres" where
  "alloc_linear size0 s =
     (let sz = align_page size0 in
      kbind (spin_lock (spin_vm s)) (\<lambda>l.
      kbind (first_fit (nodes (lpool s)) sz (phead (lpool s))) (\<lambda>p.
        case p of
          None \<Rightarrow> ret (0, s\<lparr>spin_vm := l\<rparr>)
        | Some q \<Rightarrow>
            kbind (carve (\<lambda>x. x = 0) q sz (lpool s)) (\<lambda>(r, pl).
            kbind (spin_unlock l) (\<lambda>l'. ret (r, \<lparr>lpool = pl, spin_vm = l'\<rparr>))))))"

definition init_vm :: "u64 \<Rightarrow> u64 \<Rightarrow> linear kres" where
  "init_vm addr sz = free_linear addr sz \<lparr>lpool = init_pool MAX_LINEAR_HOLE, spin_vm = init_spinlock\<rparr>"

section \<open>Ranges backed by physical pages\<close>

record vmem =
  pt :: pgt
  lin :: linear

abbreviation phys :: "vmem \<Rightarrow> phymem" where
  "phys s \<equiv> phy (kh (pt s))"

definition set_phys :: "phymem \<Rightarrow> vmem \<Rightarrow> vmem" where
  "set_phys ph s = s\<lparr>pt := (pt s)\<lparr>kh := (kh (pt s))\<lparr>phy := ph\<rparr>\<rparr>\<rparr>"

text \<open>
  \<^verbatim>\<open>while (phsize <= size)\<close> over the size, with the address left as it is: every turn looks up and
  frees the same page.
\<close>

partial_function (option) free_vm_loop :: "u64 \<Rightarrow> u64 \<Rightarrow> u64 \<Rightarrow> vmem \<Rightarrow> vmem kres" where
  "free_vm_loop phsize addr sz s =
     (if phsize \<le> sz
      then let pte = get_pte_with_addr addr (pt s) in
        if pte = 0 then halt (Panic ''free none exist phyical memory vm'')
        else kbind (free_phy_one_page (mem (pt s) pte AND NOT PAGE_MASK) (phys s)) (\<lambda>ph.
          free_vm_loop (phsize + PAGE_SIZE) addr sz (set_phys ph s))
      else ret s)"

definition free_vm_page :: "u64 \<Rightarrow> u64 \<Rightarrow> vmem \<Rightarrow> vmem kres" where
  "free_vm_page addr sz s = free_vm_loop 0 addr sz s"

definition free_vm :: "u64 \<Rightarrow> u64 \<Rightarrow> vmem \<Rightarrow> vmem kres" where
  "free_vm addr sz s =
     kbind (free_vm_page addr sz s) (\<lambda>s1.
     kbind (free_linear addr sz (lin s1)) (\<lambda>l. ret (s1\<lparr>lin := l\<rparr>)))"

text \<open>
  The loop that backs a range, shared by \<^verbatim>\<open>alloc_vm\<close> and \<^verbatim>\<open>alloc_vm_stack\<close>; the result of
  \<^verbatim>\<open>map_page_p2v_rw\<close> is ignored, and when the pages run out the range freed is the one that starts
  at the page that was not mapped. The flag says whether all pages were mapped.
\<close>

partial_function (option) map_loop :: "u64 \<Rightarrow> u64 \<Rightarrow> u64 \<Rightarrow> vmem \<Rightarrow> (bool \<times> vmem) kres" where
  "map_loop phsize addr sz s =
     (if phsize \<le> sz
      then kbind (alloc_phy_page (phys s)) (\<lambda>(pg, ph).
        let s1 = set_phys ph s in
        if pg = 0
        then if phsize \<noteq> 0
          then kbind (free_vm_page addr phsize s1) (\<lambda>s2.
               kbind (free_linear addr sz (lin s2)) (\<lambda>l. ret (False, s2\<lparr>lin := l\<rparr>)))
          else ret (False, s1)
        else kbind (map_page_p2v_rw pg addr (pt s1)) (\<lambda>(r, t).
          map_loop (phsize + PAGE_SIZE) (addr + PAGE_SIZE) sz (s1\<lparr>pt := t\<rparr>)))
      else ret (True, s))"

definition alloc_vm :: "u64 \<Rightarrow> vmem \<Rightarrow> (u64 \<times> vmem) kres" where
  "alloc_vm sz s =
     kbind (alloc_linear sz (lin s)) (\<lambda>(p, l).
       if p = 0 then ret (0, s\<lparr>lin := l\<rparr>)
       else kbind (map_loop 0 p sz (s\<lparr>lin := l\<rparr>)) (\<lambda>(done_all, s1).
         ret (if done_all then p else 0, s1)))"

definition free_vm_stack :: "u64 \<Rightarrow> u64 \<Rightarrow> vmem \<Rightarrow> vmem kres" where
  "free_vm_stack addr sz s =
     kbind (free_vm_page addr sz s) (\<lambda>s1.
     kbind (free_linear (addr - PAGE_SIZE) (sz + PAGE_SIZE) (lin s1)) (\<lambda>l. ret (s1\<lparr>lin := l\<rparr>)))"

definition alloc_vm_stack :: "u64 \<Rightarrow> vmem \<Rightarrow> (u64 \<times> vmem) kres" where
  "alloc_vm_stack sz s =
     kbind (alloc_linear (sz + PAGE_SIZE) (lin s)) (\<lambda>(p, l).
       if p = 0 then ret (0, s\<lparr>lin := l\<rparr>)
       else kbind (map_loop 0 (p + PAGE_SIZE) sz (s\<lparr>lin := l\<rparr>)) (\<lambda>(done_all, s1).
         ret (if done_all then p + PAGE_SIZE else 0, s1)))"

section \<open>The linear space as a source of blocks\<close>

abbreviation lholes :: "linear \<Rightarrow> block list" where
  "lholes s \<equiv> holes MAX_LINEAR_HOLE (lpool s)"

text \<open>
  A state is fine when its pool is; the lock may be held, in which case no call returns.
\<close>

definition linear_ok :: "linear \<Rightarrow> bool" where
  "linear_ok s \<longleftrightarrow> pool_ok MAX_LINEAR_HOLE (lpool s) \<and> (spin_vm s = 0 \<or> spin_vm s = 1)"

lemma alloc_linear_locked: "spin_vm s = 1 \<Longrightarrow> alloc_linear sz s = None"
  by (simp add: alloc_linear_def Let_def)

lemma free_linear_locked:
  "spin_vm s = 1 \<Longrightarrow> free_linear a sz s = None \<or> (\<exists>f. free_linear a sz s = halt f)"
  by (auto simp: free_linear_def kassert_def split: option.splits)

lemma alloc_linear_none:
  assumes "linear_ok s" "spin_vm s = 0" "\<forall>h \<in> set (lholes s). snd h < align_page sz"
  shows "alloc_linear sz s = ret (0, s\<lparr>spin_vm := 1\<rparr>)"
proof -
  have "pool_ok MAX_LINEAR_HOLE (lpool s)" "fit (\<lambda>x. x = 0) (align_page sz) (lholes s) = None"
    using assms by (auto simp: linear_ok_def fit_None_iff)
  from first_fit_none[OF this] assms(2) show ?thesis by (simp add: alloc_linear_def Let_def)
qed

lemma alloc_linear_fit:
  assumes "linear_ok s" "spin_vm s = 0" "fit (\<lambda>x. x = 0) (align_page sz) (lholes s) = Some (r, hs)"
  shows "\<exists>s'. alloc_linear sz s = ret (r, s') \<and> linear_ok s' \<and> spin_vm s' = 0 \<and> lholes s' = hs"
proof -
  have "pool_ok MAX_LINEAR_HOLE (lpool s)" using assms(1) by (simp add: linear_ok_def)
  from first_fit_carve[OF this assms(3)] obtain p pl where
    "first_fit (nodes (lpool s)) (align_page sz) (phead (lpool s)) = ret (Some p)"
    "carve (\<lambda>x. x = 0) p (align_page sz) (lpool s) = ret (r, pl)" "pool_ok MAX_LINEAR_HOLE pl"
    "holes MAX_LINEAR_HOLE pl = hs" by blast
  with assms(2) show ?thesis by (auto simp: alloc_linear_def Let_def linear_ok_def)
qed

lemma alloc_linear_cases:
  assumes "linear_ok s" "alloc_linear sz s = ret (r, s')"
  shows "linear_ok s' \<and> (r = 0 \<and> lholes s' = lholes s \<or>
    fit (\<lambda>x. x = 0) (align_page sz) (lholes s) = Some (r, lholes s'))"
proof -
  have l: "spin_vm s = 0" using assms alloc_linear_locked[of s sz] by (auto simp: linear_ok_def)
  show ?thesis
  proof (cases "fit (\<lambda>x. x = 0) (align_page sz) (lholes s)")
    case None
    then have "\<forall>h \<in> set (lholes s). snd h < align_page sz" by (simp add: fit_None_iff)
    from alloc_linear_none[OF assms(1) l this] assms show ?thesis by (auto simp: linear_ok_def)
  next
    case (Some x)
    obtain r' hs where "x = (r', hs)" by (cases x)
    with alloc_linear_fit[OF assms(1) l] Some assms(2) show ?thesis by fastforce
  qed
qed

lemma free_linear_cases:
  assumes "linear_ok s" "free_linear a sz s = ret s'"
  shows "linear_ok s' \<and> spin_vm s' = 0 \<and> lholes s' = ins_hole (a, sz) (lholes s)"
proof -
  have l: "spin_vm s = 0" using assms free_linear_locked[of s a sz] by (auto simp: linear_ok_def)
  from assms(2) obtain p where p: "pfree (lpool s) = Some p"
    by (auto simp: free_linear_def kassert_def split: option.splits if_splits)
  have "pool_ok MAX_LINEAR_HOLE (lpool s)" using assms(1) by (simp add: linear_ok_def)
  from free_sorted_ok[OF this p, of a sz] obtain pl where
    "free_sorted p a sz (lpool s) = ret pl" "pool_ok MAX_LINEAR_HOLE pl"
    "holes MAX_LINEAR_HOLE pl = ins_hole (a, sz) (lholes s)" by blast
  with assms(2) l p show ?thesis
    by (auto simp: free_linear_def kassert_def linear_ok_def split: if_splits)
qed

interpretation li: block_source linear_ok lholes alloc_linear align_page
  "\<lambda>b. free_linear (fst b) (snd b)" "\<lambda>b. b"
proof unfold_locales
  fix s :: linear and q r s' live
  assume a: "linear_ok s" "alloc_linear q s = ret (r, s')"
  from alloc_linear_cases[OF a] show "linear_ok s'" by simp
  assume sep: "separated (live @ lholes s)"
  from alloc_linear_cases[OF a] have "separated (live @ lholes s') \<and> (r \<noteq> 0 \<longrightarrow> separated ((r, align_page q) # live @ lholes s'))"
    using sep fit_live[OF _ sep, of "\<lambda>x. x = 0" "align_page q" r "lholes s'"] by (auto simp: separated_Cons)
  then show "separated ((if r = 0 then [] else [(r, align_page q)]) @ live @ lholes s')" by simp
next
  fix s :: linear and f s' live
  assume a: "linear_ok s" "free_linear (fst f) (snd f) s = ret s'"
  note c = free_linear_cases[OF a]
  then show "linear_ok s'" by simp
  from c have "mset (f # live @ lholes s) = mset (live @ lholes s')" by (simp add: ins_hole_mset)
  then show "separated (f # live @ lholes s) \<Longrightarrow> separated (live @ lholes s')" by (rule separated_mset)
qed

section \<open>Properties\<close>

text \<open>
  C8 (safety). Ranges of linear addresses that are held at the same time never overlap, whatever
  the order of requests and releases.
\<close>

theorem linear_blocks_apart:
  assumes "block_run alloc_linear align_page (\<lambda>b. free_linear (fst b) (snd b)) (\<lambda>b. b) s0 live0 s live"
    and "linear_ok s0" and "separated (live0 @ lholes s0)" and "i < j" and "j < length live"
  shows "apart (live ! i) (live ! j)"
  using assms by (rule li.run_apart)

lemma init_vm_ok:
  assumes "addr AND PAGE_MASK = 0" "sz AND PAGE_MASK = 0"
  shows "\<exists>s. init_vm addr sz = ret s \<and> linear_ok s \<and> spin_vm s = 0 \<and> lholes s = [(addr, sz)]"
proof -
  let ?s = "\<lparr>lpool = init_pool MAX_LINEAR_HOLE, spin_vm = init_spinlock\<rparr>"
  have ok: "pool_ok MAX_LINEAR_HOLE (init_pool MAX_LINEAR_HOLE)" "holes MAX_LINEAR_HOLE (init_pool MAX_LINEAR_HOLE) = []"
    using init_pool_ok[of MAX_LINEAR_HOLE] by (simp_all add: MAX_LINEAR_HOLE_def)
  then have "linear_ok ?s" by (simp add: linear_ok_def init_spinlock_def)
  have p: "pfree (init_pool MAX_LINEAR_HOLE) = Some 0" by (simp add: init_pool_def)
  from free_sorted_ok[OF ok(1) p, of addr sz] obtain pl where "free_sorted 0 addr sz (init_pool MAX_LINEAR_HOLE) = ret pl" by blast
  then have "\<exists>s. init_vm addr sz = ret s"
    using assms p by (simp add: init_vm_def free_linear_def kassert_def init_spinlock_def)
  with free_linear_cases[OF \<open>linear_ok ?s\<close>, of addr sz] ok(2) show ?thesis
    by (auto simp: init_vm_def)
qed

lemma demo_linear:
  "\<exists>s. init_vm 0x40000000 0x400000 = ret s \<and> linear_ok s \<and> spin_vm s = 0 \<and> lholes s = [(0x40000000, 0x400000)]"
  by (rule init_vm_ok) (simp_all add: PAGE_MASK_def PAGE_SIZE_def)

lemma align_page_consts: "align_page 1 = 0x200000" "align_page 0x200000 = 0x200000" "align_page 0x600000 = 0x600000"
  by (simp_all add: align_page_def PAGE_MASK_def PAGE_SIZE_def)

theorem linear_blocks_apart_witness:
  "\<exists>s0 s live. block_run alloc_linear align_page (\<lambda>b. free_linear (fst b) (snd b)) (\<lambda>b. b) s0 [] s live \<and>
     live = [(0x40200000, 0x200000), (0x40000000, 0x200000)] \<and> apart (live ! 0) (live ! 1)"
proof -
  obtain s0 where s0: "linear_ok s0" "spin_vm s0 = 0" "lholes s0 = [(0x40000000, 0x400000)]" using demo_linear by blast
  obtain s1 where s1: "alloc_linear 1 s0 = ret (0x40000000, s1)" "linear_ok s1" "spin_vm s1 = 0"
      "lholes s1 = [(0x40200000, 0x200000)]"
    using alloc_linear_fit[OF s0(1,2), of 1 "0x40000000" "[(0x40200000, 0x200000)]"] s0(3)
    by (auto simp: align_page_consts)
  obtain s2 where s2: "alloc_linear 0x200000 s1 = ret (0x40200000, s2)"
    using alloc_linear_fit[OF s1(2,3), of "0x200000" "0x40200000" "[]"] s1(4) by (auto simp: align_page_consts)
  let ?run = "block_run alloc_linear align_page (\<lambda>b. free_linear (fst b) (snd b)) (\<lambda>b. b) s0 []"
  have "?run s0 []" by (rule block_run.start)
  then have "?run s1 [(0x40000000, align_page 1)]" by (rule block_run.got) (simp_all add: s1(1))
  then have "?run s2 [(0x40200000, align_page 0x200000), (0x40000000, align_page 1)]"
    by (rule block_run.got) (simp_all add: s2)
  then have run: "?run s2 [(0x40200000, 0x200000), (0x40000000, 0x200000)]" by (simp add: align_page_consts)
  have "separated ([] @ lholes s0)" by (simp add: s0(3) separated_def blk_end_def)
  from linear_blocks_apart[OF run s0(1) this, of 0 1] run show ?thesis by fastforce
qed

text \<open>
  A request that no hole can serve returns 0 with the lock held: every later request,
  of whatever size, spins for ever.
\<close>

theorem alloc_linear_deadlock:
  assumes "linear_ok s" and "spin_vm s = 0" and "\<forall>h \<in> set (lholes s). snd h < align_page sz"
  shows "\<exists>s'. alloc_linear sz s = ret (0, s') \<and> lholes s' = lholes s \<and> alloc_linear sz' s' = None"
  using alloc_linear_none[OF assms] alloc_linear_locked by auto

theorem alloc_linear_deadlock_witness:
  "\<exists>s s'. init_vm 0x40000000 0x400000 = ret s \<and> alloc_linear 0x600000 s = ret (0, s') \<and>
     alloc_linear 1 s' = None"
proof -
  obtain s0 where s0: "init_vm 0x40000000 0x400000 = ret s0" "linear_ok s0" "spin_vm s0 = 0"
    "lholes s0 = [(0x40000000, 0x400000)]" using demo_linear by blast
  have "\<forall>h \<in> set (lholes s0). snd h < align_page 0x600000" by (simp add: s0(4) align_page_consts)
  from alloc_linear_deadlock[OF s0(2,3) this, of 1] s0(1) show ?thesis by blast
qed

text \<open>One release, whatever its state before, leaves at most that page free in addition.\<close>

lemma free_phy_one_page_adds:
  assumes "phy_ok ph" "free_phy_one_page a ph = ret ph'"
  shows "phy_ok ph' \<and> free_set ph' \<subseteq> insert (unat (a div PAGE_SIZE)) (free_set ph)"
proof (cases "a = 0")
  case True
  with assms show ?thesis by (auto simp: free_phy_one_page_def)
next
  case False
  let ?i = "unat (a div PAGE_SIZE)"
  have al: "0x200000 dvd unat a" "a < max_phy_addr ph"
    using assms(2) False by (auto simp: free_phy_one_page_def kassert_def page_aligned_iff split: if_splits)
  have "0x200000 * ?i < unat (max_phy_addr ph)"
    using al page_number(1)[OF al(1)] by (simp add: word_less_nat_alt mult.commute)
  from mark_free_ok[OF assms(1) page_number(2)[OF al(1) False] this] obtain m where
    m: "test_and_set_bit ?i (pgbits ph) = ret (?i \<in> free_set ph, m)"
      "phy_ok (mark_free (?i \<in> free_set ph) m ph)"
      "free_set (mark_free (?i \<in> free_set ph) m ph) = insert ?i (free_set ph)" by blast
  moreover have "ph' = mark_free (?i \<in> free_set ph) m ph"
    using assms(2) m(1) al False
    by (auto simp: free_phy_one_page_def kassert_def page_aligned_iff mark_free_def split: if_splits)
  ultimately show ?thesis by simp
qed

lemma get_pte_set_phys [simp]: "get_pte_with_addr a (pt (set_phys ph s)) = get_pte_with_addr a (pt s)"
    "mem (pt (set_phys ph s)) = mem (pt s)" "phys (set_phys ph s) = ph"
  by (simp_all add: set_phys_def get_pte_with_addr_def Let_def)

lemma free_vm_loop_same_page:
  assumes "free_vm_loop n a sz s = Some r"
  shows "\<forall>s'. r = Inr s' \<longrightarrow> phy_ok (phys s) \<longrightarrow>
    free_set (phys s') \<subseteq> insert (unat ((mem (pt s) (get_pte_with_addr a (pt s)) AND NOT PAGE_MASK) div PAGE_SIZE)) (free_set (phys s))"
  using assms
proof (rule free_vm_loop.raw_induct[rotated])
  fix loop :: "u64 \<Rightarrow> u64 \<Rightarrow> u64 \<Rightarrow> vmem \<Rightarrow> vmem kres" and n a sz s r
  let ?f = "\<lambda>s. unat ((mem (pt s) (get_pte_with_addr a (pt s)) AND NOT PAGE_MASK) div PAGE_SIZE)"
  assume IH: "\<And>n a sz s r. loop n a sz s = Some r \<Longrightarrow> \<forall>s'. r = Inr s' \<longrightarrow> phy_ok (phys s) \<longrightarrow>
      free_set (phys s') \<subseteq> insert (unat ((mem (pt s) (get_pte_with_addr a (pt s)) AND NOT PAGE_MASK) div PAGE_SIZE)) (free_set (phys s))"
    and step: "(if n \<le> sz
      then let pte = get_pte_with_addr a (pt s) in
        if pte = 0 then halt (Panic ''free none exist phyical memory vm'')
        else kbind (free_phy_one_page (mem (pt s) pte AND NOT PAGE_MASK) (phys s)) (\<lambda>ph.
          loop (n + PAGE_SIZE) a sz (set_phys ph s))
      else ret s) = Some r"
  show "\<forall>s'. r = Inr s' \<longrightarrow> phy_ok (phys s) \<longrightarrow> free_set (phys s') \<subseteq> insert (?f s) (free_set (phys s))"
  proof (intro allI impI)
    fix s' assume r: "r = Inr s'" and ok: "phy_ok (phys s)"
    show "free_set (phys s') \<subseteq> insert (?f s) (free_set (phys s))"
    proof (cases "n \<le> sz")
      case True
      with step r obtain ph where ph: "free_phy_one_page (mem (pt s) (get_pte_with_addr a (pt s)) AND NOT PAGE_MASK) (phys s) = ret ph"
        "loop (n + PAGE_SIZE) a sz (set_phys ph s) = Some r"
        by (auto simp: Let_def kbind_eq_ret split: if_splits)
      from IH[OF ph(2)] r free_phy_one_page_adds[OF ok ph(1)] show ?thesis by auto
    qed (use step r in auto)
  qed
qed

text \<open>
  Releasing a mapped range gives back one physical page however long the range is: the
  loop never advances the address, so it frees the frame of the first page over and over and the
  other frames are lost.
\<close>

theorem free_vm_page_frees_one:
  assumes "phy_ok (phys s)" and "free_vm_page addr sz s = ret s'"
  shows "free_set (phys s') \<subseteq>
    insert (unat ((mem (pt s) (get_pte_with_addr addr (pt s)) AND NOT PAGE_MASK) div PAGE_SIZE)) (free_set (phys s))"
  using assms free_vm_loop_same_page[of 0 addr sz s] by (simp add: free_vm_page_def)

theorem free_vm_page_frees_one_witness:
  "\<exists>s s'. free_vm_page 0x40000000 0x200000 s = ret s' \<and> free_set (phys s) = {5} \<and> free_set (phys s') \<subseteq> {3, 5}"
proof -
  obtain h where h: "kheap_ok h" "holes_4k h = [(0x100000, 0x3000)]" "phy h = demo_mem 5"
    "kspace h = [(0x100000, 0x3000), (0xA00000, 0x200000)]"
    using demo_heap_freed demo_heap_freed_space by fastforce
  obtain t where t: "map_page_p2v 0x600000 0x40000000 0x83 (demo_pgt h) = ret (OK, t)" "phy (kh t) = demo_mem 5"
    using demo_map[OF h(1,2), of "0x600000"] h(3) by auto
  have "cr3 (demo_pgt h) = pml4_a (demo_pgt h)" by (simp add: demo_pgt_def)
  note look = map_page_p2v_lookup[OF demo_pgt_ok[OF h(1,2,4)] this t(1) refl]
  let ?pte = "get_pte_with_addr 0x40000000 t"
  have frame: "mem t ?pte AND NOT PAGE_MASK = 0x600000" using look by (simp add: PAGE_MASK_def PAGE_SIZE_def)
  define s where "s = \<lparr>pt = t, lin = \<lparr>lpool = init_pool 1, spin_vm = 0\<rparr>\<rparr>"
  have f1: "free_phy_one_page 0x600000 (demo_mem 5) = ret ((demo_mem 5)\<lparr>pgbits := [0x28, 0, 0], pages := 2\<rparr>)"
    by code_simp
  have f2: "free_phy_one_page 0x600000 ((demo_mem 5)\<lparr>pgbits := [0x28, 0, 0], pages := 2\<rparr>) =
      ret ((demo_mem 5)\<lparr>pgbits := [0x28, 0, 0], pages := 2\<rparr>)" by code_simp
  let ?s1 = "set_phys ((demo_mem 5)\<lparr>pgbits := [0x28, 0, 0], pages := 2\<rparr>) s"
  have last: "free_vm_loop (2 * PAGE_SIZE) 0x40000000 0x200000 (set_phys ph s1) = ret (set_phys ph s1)" for ph s1
    by (subst free_vm_loop.simps) (simp add: PAGE_SIZE_def)
  have p: "get_pte_with_addr 0x40000000 (pt s) = ?pte" "mem (pt s) = mem t" "phys s = demo_mem 5"
    using t(2) by (simp_all add: s_def)
  have "free_vm_loop PAGE_SIZE 0x40000000 0x200000 ?s1 = ret (set_phys ((demo_mem 5)\<lparr>pgbits := [0x28, 0, 0], pages := 2\<rparr>) ?s1)"
    using look frame f2 p last by (subst free_vm_loop.simps) (simp add: PAGE_SIZE_def)
  then have run: "free_vm_page 0x40000000 0x200000 s = ret (set_phys ((demo_mem 5)\<lparr>pgbits := [0x28, 0, 0], pages := 2\<rparr>) ?s1)"
    unfolding free_vm_page_def using look frame f1 p by (subst free_vm_loop.simps) simp
  have "phy_ok (phys s)" using p(3) demo_mem_ok[of 5] by simp
  have five: "free_set (phys s) = {5}" using p(3) demo_mem_free[of 5] by simp
  from free_vm_page_frees_one[OF \<open>phy_ok (phys s)\<close> run] five p frame
  have "free_set (phys (set_phys ((demo_mem 5)\<lparr>pgbits := [0x28, 0, 0], pages := 2\<rparr>) ?s1)) \<subseteq> {3, 5}"
    by (simp add: PAGE_SIZE_def)
  with run five show ?thesis by blast
qed

end
