(* ===== verification/Cstring.thy ===== *)
theory Cstring
  imports Yaos_Prelude
begin

text \<open>
  The string functions: those of the kernel, arch/x86_64/string64.c, and those of the libraries,
  libs/string. Memory is a function from byte addresses to bytes; a null result is \<open>None\<close>. A scan for
  a terminating zero byte is a partial function, since a string without one is scanned for ever. The
  theory proves the functions against lists of bytes, and the library functions that read eight
  bytes at a time against those that read one.
\<close>

type_synonym bytes = "nat \<Rightarrow> u8"

section \<open>The kernel's functions\<close>

definition isdigit :: "int \<Rightarrow> bool" where
  "isdigit ch \<longleftrightarrow> ch \<ge> 48 \<and> ch \<le> 57"

text \<open>\<^verbatim>\<open>repe cmpsb\<close> compares until a difference or the count is used up; the result is whether the
  last comparison differed.\<close>

fun k_memcmp :: "bytes \<Rightarrow> nat \<Rightarrow> nat \<Rightarrow> nat \<Rightarrow> int" where
  "k_memcmp m s1 s2 0 = 0"
| "k_memcmp m s1 s2 (Suc len) = (if m s1 = m s2 then k_memcmp m (Suc s1) (Suc s2) len else 1)"

fun rep_stosb :: "bytes \<Rightarrow> nat \<Rightarrow> u8 \<Rightarrow> nat \<Rightarrow> bytes" where
  "rep_stosb m s c 0 = m"
| "rep_stosb m s c (Suc n) = rep_stosb (m(s := c)) (Suc s) c n"

definition k_memset :: "bytes \<Rightarrow> nat \<Rightarrow> u8 \<Rightarrow> nat \<Rightarrow> (nat \<times> bytes) kres" where
  "k_memset m s c count =
     kbind (kassert (count > 0) ''memset'') (\<lambda>_. ret (s, rep_stosb m s c count))"

partial_function (option) strcmp :: "bytes \<Rightarrow> nat \<Rightarrow> nat \<Rightarrow> int option" where
  "strcmp m s1 s2 =
     (if m s1 \<noteq> 0 \<or> m s2 \<noteq> 0
      then if uint (m s1) - uint (m s2) \<noteq> 0 then Some (uint (m s1) - uint (m s2))
           else strcmp m (Suc s1) (Suc s2)
      else Some 0)"

fun strncmp :: "bytes \<Rightarrow> nat \<Rightarrow> nat \<Rightarrow> nat \<Rightarrow> int" where
  "strncmp m cs ct 0 = 0"
| "strncmp m cs ct (Suc count) =
     (if m cs \<noteq> m ct then if m cs < m ct then - 1 else 1
      else if m cs = 0 then 0 else strncmp m (Suc cs) (Suc ct) count)"

fun k_strnlen :: "bytes \<Rightarrow> nat \<Rightarrow> nat \<Rightarrow> nat" where
  "k_strnlen m s 0 = 0"
| "k_strnlen m s (Suc n) = (if m s \<noteq> 0 then Suc (k_strnlen m (Suc s) n) else 0)"

text \<open>\<^verbatim>\<open>unsigned int\<close> arithmetic, so the value wraps at \<open>2 ^ 32\<close>; a \<^verbatim>\<open>char\<close> is signed.\<close>

partial_function (option) atou_from :: "bytes \<Rightarrow> nat \<Rightarrow> u32 \<Rightarrow> u32 option" where
  "atou_from m s i =
     (if isdigit (sint (m s)) then atou_from m (Suc s) (i * 10 + word_of_int (sint (m s) - 48)) else Some i)"

definition atou :: "bytes \<Rightarrow> nat \<Rightarrow> u32 option" where
  "atou m s = atou_from m s 0"

partial_function (option) k_strlen_from :: "bytes \<Rightarrow> nat \<Rightarrow> nat option" where
  "k_strlen_from m sc = (if m sc \<noteq> 0 then k_strlen_from m (Suc sc) else Some sc)"

definition k_strlen :: "bytes \<Rightarrow> nat \<Rightarrow> nat option" where
  "k_strlen m s = map_option (\<lambda>sc. sc - s) (k_strlen_from m s)"

text \<open>The loop of \<^verbatim>\<open>strstr\<close> over \<^verbatim>\<open>l1\<close>, run with \<^verbatim>\<open>l2 > 0\<close>; the last round has \<^verbatim>\<open>l1 = l2\<close>.\<close>

fun strstr_loop :: "bytes \<Rightarrow> nat \<Rightarrow> nat \<Rightarrow> nat \<Rightarrow> nat \<Rightarrow> nat option" where
  "strstr_loop m s1 s2 l2 0 = None"
| "strstr_loop m s1 s2 l2 (Suc l1) =
     (if Suc l1 \<ge> l2
      then if k_memcmp m s1 s2 l2 = 0 then Some s1 else strstr_loop m (Suc s1) s2 l2 l1
      else None)"

definition k_strstr :: "bytes \<Rightarrow> nat \<Rightarrow> nat \<Rightarrow> nat option option" where
  "k_strstr m s1 s2 =
     (case k_strlen m s2 of None \<Rightarrow> None | Some l2 \<Rightarrow>
        if l2 = 0 then Some (Some s1)
        else case k_strlen m s1 of None \<Rightarrow> None | Some l1 \<Rightarrow> Some (strstr_loop m s1 s2 l2 l1))"

text \<open>\<^verbatim>\<open>while (n-- > 0) *dst++ = *src++\<close>: always forward.\<close>

fun k_memmove :: "bytes \<Rightarrow> nat \<Rightarrow> nat \<Rightarrow> nat \<Rightarrow> bytes" where
  "k_memmove m dst src 0 = m"
| "k_memmove m dst src (Suc n) = k_memmove (m(dst := m src)) (Suc dst) (Suc src) n"

section \<open>The library's functions\<close>

definition SS :: nat where
  "SS = 8"

definition ONES :: u64 where
  "ONES = 0xFFFFFFFFFFFFFFFF div 255"

definition HIGHS :: u64 where
  "HIGHS = ONES * (255 div 2 + 1)"

definition HASZERO :: "u64 \<Rightarrow> u64" where
  "HASZERO x = (x - ONES) AND NOT x AND HIGHS"

text \<open>The eight bytes at an address as a little endian word.\<close>

definition ld_word :: "bytes \<Rightarrow> nat \<Rightarrow> u64" where
  "ld_word m a = (\<Sum>i<8. of_nat (unat (m (a + i))) * 256 ^ i)"

fun l_memcmp :: "bytes \<Rightarrow> nat \<Rightarrow> nat \<Rightarrow> nat \<Rightarrow> int" where
  "l_memcmp m l r 0 = 0"
| "l_memcmp m l r (Suc n) =
     (if m l = m r then l_memcmp m (Suc l) (Suc r) n else uint (m l) - uint (m r))"

definition bcmp :: "bytes \<Rightarrow> nat \<Rightarrow> nat \<Rightarrow> nat \<Rightarrow> int" where
  "bcmp m s1 s2 n = l_memcmp m s1 s2 n"

definition bcopy :: "bytes \<Rightarrow> nat \<Rightarrow> nat \<Rightarrow> nat \<Rightarrow> bytes" where
  "bcopy m s1 s2 n = k_memmove m s2 s1 n"

definition bzero :: "bytes \<Rightarrow> nat \<Rightarrow> nat \<Rightarrow> (nat \<times> bytes) kres" where
  "bzero m s n = k_memset m s 0 n"

text \<open>\<^verbatim>\<open>for (; n && *s != c; s++, n--)\<close>, with the extra guard that \<open>s\<close> is unaligned in the first loop.\<close>

fun scan_byte :: "(nat \<Rightarrow> bool) \<Rightarrow> bytes \<Rightarrow> u8 \<Rightarrow> nat \<Rightarrow> nat \<Rightarrow> nat \<times> nat" where
  "scan_byte g m c s 0 = (s, 0)"
| "scan_byte g m c s (Suc n) = (if g s \<and> m s \<noteq> c then scan_byte g m c (Suc s) n else (s, Suc n))"

function scan_word :: "bytes \<Rightarrow> u64 \<Rightarrow> nat \<Rightarrow> nat \<Rightarrow> nat \<times> nat" where
  "scan_word m k w n =
     (if n \<ge> SS \<and> HASZERO (ld_word m w XOR k) = 0 then scan_word m k (w + 8) (n - SS) else (w, n))"
  by pat_completeness auto
termination
  by (relation "measure (\<lambda>(m, k, w, n). n)") (auto simp: SS_def)

definition memchr :: "bytes \<Rightarrow> nat \<Rightarrow> u8 \<Rightarrow> nat \<Rightarrow> nat option" where
  "memchr m src c n0 =
     (let (s, n) = scan_byte (\<lambda>s. s mod 8 \<noteq> 0) m c src n0;
          (s, n) = (if n \<noteq> 0 \<and> m s \<noteq> c
                    then let (w, n) = scan_word m (ONES * of_nat (unat c)) s n in scan_byte (\<lambda>_. True) m c w n
                    else (s, n))
      in if n \<noteq> 0 then Some s else None)"

definition l_strnlen :: "bytes \<Rightarrow> nat \<Rightarrow> nat \<Rightarrow> nat" where
  "l_strnlen m s n = (case memchr m s 0 n of Some p \<Rightarrow> p - s | None \<Rightarrow> n)"

text \<open>\<^verbatim>\<open>strlen\<close>: bytes up to an aligned address, then words, then the bytes of the last word.\<close>

partial_function (option) strlen_words :: "bytes \<Rightarrow> nat \<Rightarrow> nat option" where
  "strlen_words m w = (if HASZERO (ld_word m w) = 0 then strlen_words m (w + 8) else Some w)"

partial_function (option) strlen_bytes :: "bytes \<Rightarrow> nat \<Rightarrow> nat option" where
  "strlen_bytes m s = (if m s \<noteq> 0 then strlen_bytes m (Suc s) else Some s)"

function strlen_head :: "bytes \<Rightarrow> nat \<Rightarrow> nat + nat" where
  "strlen_head m s = (if s mod 8 \<noteq> 0 then if m s = 0 then Inl s else strlen_head m (Suc s) else Inr s)"
  by pat_completeness auto
termination
  by (relation "measure (\<lambda>(m, s). (8 - s mod 8) mod 8)") (auto simp: mod_Suc)

definition l_strlen :: "bytes \<Rightarrow> nat \<Rightarrow> nat option" where
  "l_strlen m a =
     (case strlen_head m a of
        Inl s \<Rightarrow> Some (s - a)
      | Inr s \<Rightarrow> map_option (\<lambda>s. s - a) (Option.bind (strlen_words m s) (strlen_bytes m)))"

text \<open>\<^verbatim>\<open>__strchrnul\<close>: the same shape, stopping at the terminator or at the character.\<close>

partial_function (option) chrnul_words :: "bytes \<Rightarrow> u64 \<Rightarrow> nat \<Rightarrow> nat option" where
  "chrnul_words m k w =
     (if HASZERO (ld_word m w) = 0 \<and> HASZERO (ld_word m w XOR k) = 0 then chrnul_words m k (w + 8) else Some w)"

partial_function (option) chrnul_bytes :: "bytes \<Rightarrow> u8 \<Rightarrow> nat \<Rightarrow> nat option" where
  "chrnul_bytes m c s = (if m s \<noteq> 0 \<and> m s \<noteq> c then chrnul_bytes m c (Suc s) else Some s)"

function chrnul_head :: "bytes \<Rightarrow> u8 \<Rightarrow> nat \<Rightarrow> nat + nat" where
  "chrnul_head m c s =
     (if s mod 8 \<noteq> 0 then if m s = 0 \<or> m s = c then Inl s else chrnul_head m c (Suc s) else Inr s)"
  by pat_completeness auto
termination
  by (relation "measure (\<lambda>(m, c, s). (8 - s mod 8) mod 8)") (auto simp: mod_Suc)

definition strchrnul :: "bytes \<Rightarrow> nat \<Rightarrow> u8 \<Rightarrow> nat option" where
  "strchrnul m s c =
     (if c = 0 then map_option (\<lambda>n. s + n) (l_strlen m s)
      else case chrnul_head m c s of
        Inl s \<Rightarrow> Some s
      | Inr s \<Rightarrow> Option.bind (chrnul_words m (ONES * of_nat (unat c)) s) (chrnul_bytes m c))"

definition strchr :: "bytes \<Rightarrow> nat \<Rightarrow> u8 \<Rightarrow> nat option option" where
  "strchr m s c = map_option (\<lambda>r. if m r = c then Some r else None) (strchrnul m s c)"

text \<open>Substring search for needles of two, three and four bytes with a rolling window.\<close>

partial_function (option) twobyte_loop :: "bytes \<Rightarrow> u16 \<Rightarrow> u16 \<Rightarrow> nat \<Rightarrow> nat option option" where
  "twobyte_loop m nw hw h =
     (if m h \<noteq> 0 \<and> hw \<noteq> nw then twobyte_loop m nw (push_bit 8 hw OR ucast (m (Suc h))) (Suc h)
      else Some (if m h \<noteq> 0 then Some (h - 1) else None))"

definition twobyte_strstr :: "bytes \<Rightarrow> nat \<Rightarrow> nat \<Rightarrow> nat option option" where
  "twobyte_strstr m h n =
     twobyte_loop m (push_bit 8 (ucast (m n)) OR ucast (m (n + 1)))
       (push_bit 8 (ucast (m h)) OR ucast (m (h + 1))) (h + 1)"

partial_function (option) threebyte_loop :: "bytes \<Rightarrow> u32 \<Rightarrow> u32 \<Rightarrow> nat \<Rightarrow> nat option option" where
  "threebyte_loop m nw hw h =
     (if m h \<noteq> 0 \<and> hw \<noteq> nw then threebyte_loop m nw (push_bit 8 (hw OR ucast (m (Suc h)))) (Suc h)
      else Some (if m h \<noteq> 0 then Some (h - 2) else None))"

definition threebyte_strstr :: "bytes \<Rightarrow> nat \<Rightarrow> nat \<Rightarrow> nat option option" where
  "threebyte_strstr m h n =
     threebyte_loop m
       (push_bit 24 (ucast (m n)) OR push_bit 16 (ucast (m (n + 1))) OR push_bit 8 (ucast (m (n + 2))))
       (push_bit 24 (ucast (m h)) OR push_bit 16 (ucast (m (h + 1))) OR push_bit 8 (ucast (m (h + 2)))) (h + 2)"

partial_function (option) fourbyte_loop :: "bytes \<Rightarrow> u32 \<Rightarrow> u32 \<Rightarrow> nat \<Rightarrow> nat option option" where
  "fourbyte_loop m nw hw h =
     (if m h \<noteq> 0 \<and> hw \<noteq> nw then fourbyte_loop m nw (push_bit 8 hw OR ucast (m (Suc h))) (Suc h)
      else Some (if m h \<noteq> 0 then Some (h - 3) else None))"

definition fourbyte_strstr :: "bytes \<Rightarrow> nat \<Rightarrow> nat \<Rightarrow> nat option option" where
  "fourbyte_strstr m h n =
     fourbyte_loop m
       (push_bit 24 (ucast (m n)) OR push_bit 16 (ucast (m (n + 1))) OR push_bit 8 (ucast (m (n + 2))) OR ucast (m (n + 3)))
       (push_bit 24 (ucast (m h)) OR push_bit 16 (ucast (m (h + 1))) OR push_bit 8 (ucast (m (h + 2))) OR ucast (m (h + 3)))
       (h + 3)"

section \<open>The zero byte test\<close>

definition byte_of :: "u64 \<Rightarrow> nat \<Rightarrow> nat" where
  "byte_of x i = unat x div 256 ^ i mod 256"

text \<open>The first \<open>i\<close> bytes of \<^verbatim>\<open>ONES\<close>.\<close>

fun ones :: "nat \<Rightarrow> nat" where
  "ones 0 = 0"
| "ones (Suc i) = ones i + 256 ^ i"

lemma low_part_ge:
  assumes "\<forall>j<i. x div 256 ^ j mod 256 \<noteq> (0 :: nat)"
  shows "ones i \<le> x mod 256 ^ i"
  using assms
proof (induction i)
  case 0
  then show ?case by simp
next
  case (Suc i)
  have "x mod 256 ^ Suc i = 256 ^ i * (x div 256 ^ i mod 256) + x mod 256 ^ i"
    using mod_mult2_eq[of x "256 ^ i" 256] by (simp add: mult.commute)
  moreover have "1 \<le> x div 256 ^ i mod 256" using Suc.prems by auto
  then have "256 ^ i * 1 \<le> 256 ^ i * (x div 256 ^ i mod 256)" by (intro mult_le_mono) simp_all
  moreover have "ones i \<le> x mod 256 ^ i" using Suc by simp
  ultimately show ?case unfolding ones.simps by linarith
qed

lemma ones_add: "ones (i + k) = ones i + 256 ^ i * ones k"
  by (induction k) (simp_all add: power_add algebra_simps)

lemma ones_mod: "0 < k \<Longrightarrow> ones k mod 256 = 1"
  using ones_add[of 1 "k - 1"] by simp

lemma ones_values: "ones 8 = 0x0101010101010101" "unat ONES = 0x0101010101010101"
proof -
  have "ones 2 = 257" by (simp add: numeral_2_eq_2)
  then show "ones 8 = 0x0101010101010101" using ones_add[of 2 2] ones_add[of 4 4] by simp
  have "unat ((0xFFFFFFFFFFFFFFFF :: u64) div 255) = unat (0xFFFFFFFFFFFFFFFF :: u64) div unat (255 :: u64)"
    by (rule unat_div)
  then show "unat ONES = 0x0101010101010101" by (simp add: ONES_def)
qed

text \<open>
  While the bytes below are not zero the subtraction does not borrow from byte \<open>i\<close>.
\<close>

lemma byte_of_mod:
  fixes z P k :: int
  assumes "0 < P"
  shows "z mod (P * (256 * k)) div P mod 256 = z div P mod 256"
proof -
  let ?M = "P * (256 * k)"
  have "z div P = (z mod ?M + P * (256 * k * (z div ?M))) div P"
    by (metis mod_mult_div_eq mult.assoc)
  also have "\<dots> = z mod ?M div P + 256 * (k * (z div ?M))"
    using assms by (simp add: div_mult_self2[of P, simplified] mult.assoc)
  finally show ?thesis by simp
qed

lemma sub_no_borrow:
  fixes a oi P Y k :: int
  assumes "0 < P" "0 \<le> oi" "oi \<le> a mod P" "Y mod 256 = 1"
  shows "(a - (oi + P * Y)) mod (P * (256 * k)) div P mod 256 = (a div P - 1) mod 256"
proof -
  have "a - (oi + P * Y) = (a mod P - oi) + P * (a div P - Y)"
    using mod_mult_div_eq[of a P] by (simp add: algebra_simps)
  moreover have "0 \<le> a mod P - oi" "a mod P - oi < P"
    using assms pos_mod_bound[of P a] by linarith+
  then have "(a mod P - oi) div P = 0" by simp
  moreover have "((a mod P - oi) + P * (a div P - Y)) div P = (a div P - Y) + (a mod P - oi) div P"
    using assms(1) by (intro div_mult_self2) simp
  ultimately have "(a - (oi + P * Y)) div P = a div P - Y" by (simp only:)
  moreover have "(a div P - Y) mod 256 = (a div P - 1) mod 256" using assms(4) by (metis mod_diff_right_eq)
  ultimately show ?thesis using byte_of_mod[OF assms(1)] by simp
qed

lemma byte_of_sub_ONES:
  assumes "\<forall>j<i. byte_of x j \<noteq> 0" "i < 8"
  shows "int (byte_of (x - ONES) i) = (int (byte_of x i) - 1) mod 256"
proof -
  let ?P = "256 ^ i :: nat"
  have one: "int (ones 8) = int (ones i) + int ?P * int (ones (8 - i))" "int (ones (8 - i)) mod 256 = 1"
    using ones_add[of i "8 - i"] ones_mod[of "8 - i"] assms(2)
      zmod_int[of "ones (8 - i)" 256] by simp_all
  have ge: "int (ones i) \<le> int (unat x) mod int ?P"
    using low_part_ge[of i "unat x"] assms(1) by (simp only: byte_of_def flip: zmod_int) simp
  have M: "(2 :: int) ^ 64 = int ?P * (256 * 256 ^ (7 - i))"
  proof -
    have "(256 :: int) ^ 8 = 256 ^ (i + (1 + (7 - i)))" using assms(2) by simp
    then show ?thesis by (simp only: power_add of_nat_power) simp
  qed
  have "uint (x - ONES) = (int (unat x) - int (ones 8)) mod 2 ^ 64"
  proof -
    have "int (unat ONES) = int (ones 8)" using ones_values by simp
    then show ?thesis by (simp add: uint_word_ariths)
  qed
  then have "uint (x - ONES) div int ?P mod 256 = (int (unat x) div int ?P - 1) mod 256"
    using sub_no_borrow[OF _ _ ge one(2), of "256 ^ (7 - i)"] by (simp only: one(1) M) simp
  then show ?thesis unfolding byte_of_def by (simp add: zdiv_int zmod_int mod_diff_left_eq)
qed

lemma byte_of_lt [simp]: "byte_of x i < 256"
  by (simp add: byte_of_def)

lemma bit_byte_of: "bit (byte_of x i) n \<longleftrightarrow> n < 8 \<and> bit x (8 * i + n)"
proof -
  have "byte_of x i = take_bit 8 (drop_bit (8 * i) (unat x))"
    by (simp add: byte_of_def take_bit_eq_mod drop_bit_eq_div power_mult)
  then show ?thesis by (simp add: bit_take_bit_iff bit_drop_bit_eq bit_unsigned_iff)
qed

lemma byte_of_eq_iff: "byte_of x i = byte_of y i \<longleftrightarrow> (\<forall>n<8. bit x (8 * i + n) = bit y (8 * i + n))"
  unfolding bit_eq_iff[of "byte_of x i"] by (auto simp: bit_byte_of)

lemma byte_of_xor: "byte_of (x XOR y) i = 0 \<longleftrightarrow> byte_of x i = byte_of y i"
proof -
  have "byte_of 0 i = 0" by (simp add: byte_of_def)
  then have "byte_of (x XOR y) i = 0 \<longleftrightarrow> byte_of (x XOR y) i = byte_of 0 i" by simp
  then show ?thesis unfolding byte_of_eq_iff by (simp add: bit_xor_iff)
qed

lemma high_bit: "bit x (8 * i + 7) \<longleftrightarrow> 128 \<le> byte_of x i"
proof -
  have "bit x (8 * i + 7) \<longleftrightarrow> odd (byte_of x i div 2 ^ 7)"
    using bit_byte_of[of x i 7] by (simp add: bit_iff_odd)
  moreover have "byte_of x i div 2 ^ 7 = (if byte_of x i < 128 then 0 else 1)"
    using byte_of_lt[of x i] by (auto intro: div_nat_eqI)
  ultimately show ?thesis by auto
qed

lemma ones_lt: "ones i < 256 ^ i"
proof (induction i)
  case (Suc i)
  then have "ones (Suc i) < 2 * 256 ^ i" by simp
  also have "\<dots> \<le> 256 ^ Suc i" by simp
  finally show ?case .
qed simp

lemma byte_of_ONES: "i < 8 \<Longrightarrow> byte_of ONES i = 1"
proof -
  assume i: "i < 8"
  have "ones 8 = ones i + 256 ^ i * ones (8 - i)" using ones_add[of i "8 - i"] i by simp
  then have "ones 8 div 256 ^ i = ones (8 - i)" using ones_lt[of i] by simp
  then show ?thesis using ones_mod[of "8 - i"] i ones_values by (simp add: byte_of_def)
qed

lemma HIGHS_bits: "bit HIGHS n \<longleftrightarrow> (\<exists>i<8. n = 8 * i + 7)"
proof -
  have h: "HIGHS = push_bit 7 ONES" by (simp add: HIGHS_def push_bit_eq_mult mult.commute)
  have a: "bit HIGHS n \<longleftrightarrow> 7 \<le> n \<and> n < 64 \<and> bit ONES (n - 7)" unfolding h by (simp only: bit_push_bit_iff) auto
  have b: "bit ONES (n - 7) \<longleftrightarrow> (n - 7) mod 8 = 0" if "7 \<le> n" "n < 64"
  proof -
    have d: "n - 7 = 8 * ((n - 7) div 8) + (n - 7) mod 8" "(n - 7) div 8 < 8" using that by auto
    then have "bit ONES (n - 7) \<longleftrightarrow> bit (byte_of ONES ((n - 7) div 8)) ((n - 7) mod 8)"
      unfolding bit_byte_of by simp
    then show ?thesis unfolding byte_of_ONES[OF d(2)] by (simp only: bit_1_iff)
  qed
  have c: "7 \<le> n \<and> n < 64 \<and> (n - 7) mod 8 = 0 \<longleftrightarrow> (\<exists>i<8. n = 8 * i + 7)"
  proof
    assume n: "7 \<le> n \<and> n < 64 \<and> (n - 7) mod 8 = 0"
    then have "n = 8 * ((n - 7) div 8) + 7" "(n - 7) div 8 < 8" by auto
    then show "\<exists>i<8. n = 8 * i + 7" by blast
  qed auto
  show ?thesis
  proof (cases "7 \<le> n \<and> n < 64")
    case True
    then show ?thesis unfolding a c[symmetric] using b by (elim conjE) (simp only: simp_thms)
  next
    case False
    then show ?thesis unfolding a c[symmetric] by (simp only: de_Morgan_conj) (elim disjE; simp only: simp_thms)
  qed
qed

text \<open>The test finds exactly the words with a zero byte.\<close>

lemma HASZERO_iff: "HASZERO x = 0 \<longleftrightarrow> (\<forall>i<8. byte_of x i \<noteq> 0)"
proof -
  have "HASZERO x = 0 \<longleftrightarrow> (\<forall>i<8. bit (x - ONES) (8 * i + 7) \<longrightarrow> bit x (8 * i + 7))"
  proof -
    have b: "bit (HASZERO x) n \<longleftrightarrow> (\<exists>i<8. n = 8 * i + 7) \<and> bit (x - ONES) n \<and> \<not> bit x n" for n
      unfolding HASZERO_def by (auto simp: bit_and_iff bit_not_iff HIGHS_bits)
    have "HASZERO x = 0 \<longleftrightarrow> (\<forall>n. \<not> bit (HASZERO x) n)"
      using bit_eq_iff[of "HASZERO x" 0] bit_imp_le_length[of "HASZERO x"] by auto
    then show ?thesis unfolding b by blast
  qed
  also have "\<dots> \<longleftrightarrow> (\<forall>i<8. byte_of x i \<noteq> 0)"
  proof
    assume all: "\<forall>i<8. byte_of x i \<noteq> 0"
    show "\<forall>i<8. bit (x - ONES) (8 * i + 7) \<longrightarrow> bit x (8 * i + 7)"
    proof (intro allI impI)
      fix i :: nat assume i: "i < 8" and "bit (x - ONES) (8 * i + 7)"
      then have "128 \<le> byte_of (x - ONES) i" by (simp only: high_bit)
      moreover have "int (byte_of (x - ONES) i) = int (byte_of x i) - 1"
      proof -
        have "0 < byte_of x i" using all i by simp
        then have "(int (byte_of x i) - 1) mod 256 = int (byte_of x i) - 1"
          using byte_of_lt[of x i] by (intro mod_pos_pos_trivial) linarith+
        then show ?thesis using byte_of_sub_ONES[of i x] all i by simp
      qed
      ultimately show "bit x (8 * i + 7)" unfolding high_bit by linarith
    qed
  next
    assume bits: "\<forall>i<8. bit (x - ONES) (8 * i + 7) \<longrightarrow> bit x (8 * i + 7)"
    show "\<forall>i<8. byte_of x i \<noteq> 0"
    proof (intro allI)
      fix i :: nat
      show "i < 8 \<longrightarrow> byte_of x i \<noteq> 0"
      proof (induction i rule: less_induct)
        case (less i)
        show ?case
        proof (intro impI notI)
          assume i: "i < 8" and z: "byte_of x i = 0"
          with less byte_of_sub_ONES[of i x] have "int (byte_of (x - ONES) i) = 255" by simp
          then have "bit (x - ONES) (8 * i + 7)" unfolding high_bit by linarith
          with bits i z show False unfolding high_bit by auto
        qed
      qed
    qed
  qed
  finally show ?thesis .
qed

section \<open>Words in memory\<close>

lemma sum_up_split:
  fixes b :: "nat \<Rightarrow> nat"
  shows "(\<Sum>j<Suc i + k. b j * 256 ^ j) =
    (\<Sum>j<i. b j * 256 ^ j) + 256 ^ i * (b i + 256 * (\<Sum>j<k. b (Suc i + j) * 256 ^ j))"
  by (induction k) (simp_all add: algebra_simps power_add)

lemma digit_sum:
  fixes b :: "nat \<Rightarrow> nat"
  assumes "\<And>j. b j < 256" "i < n"
  shows "(\<Sum>j<n. b j * 256 ^ j) div 256 ^ i mod 256 = b i" "(\<Sum>j<n. b j * 256 ^ j) < 256 ^ n"
proof -
  have lt: "(\<Sum>j<n. b j * 256 ^ j) < 256 ^ n" for n
  proof (induction n)
    case (Suc n)
    have "b n * 256 ^ n \<le> 255 * 256 ^ n" using assms(1)[of n] by (intro mult_le_mono1) simp
    with Suc show ?case unfolding sum.lessThan_Suc power_Suc by linarith
  qed simp
  then show "(\<Sum>j<n. b j * 256 ^ j) < 256 ^ n" .
  obtain k where n: "n = Suc i + k" using assms(2) by (metis Suc_leI le_add_diff_inverse)
  have "(\<Sum>j<n. b j * 256 ^ j) = (\<Sum>j<i. b j * 256 ^ j) + 256 ^ i * (b i + 256 * (\<Sum>j<k. b (Suc i + j) * 256 ^ j))"
    unfolding n by (rule sum_up_split)
  then show "(\<Sum>j<n. b j * 256 ^ j) div 256 ^ i mod 256 = b i"
    using lt[of i] assms(1)[of i] by simp
qed

lemma byte_of_ld_word:
  assumes "i < 8"
  shows "byte_of (ld_word m a) i = unat (m (a + i))"
proof -
  let ?v = "\<Sum>j<8. unat (m (a + j)) * 256 ^ j"
  have b: "unat (m j) < 256" for j using unsigned_less[where ?'b = 8 and ?'a = nat, of "m j"] by simp
  note ds = digit_sum[of "\<lambda>j. unat (m (a + j))", OF b assms]
  have "ld_word m a = of_nat ?v" by (simp add: ld_word_def)
  moreover have "?v < 2 ^ 64" using ds(2) by simp
  ultimately have "unat (ld_word m a) = ?v" by (simp only: unat_of_nat) simp
  then show ?thesis using ds(1) by (simp add: byte_of_def)
qed

lemma byte_of_fill:
  assumes "i < 8"
  shows "byte_of (ONES * of_nat (unat (c :: u8))) i = unat c"
proof -
  have b: "unat c < 256" using unsigned_less[where ?'b = 8 and ?'a = nat, of c] by simp
  note ds = digit_sum[of "\<lambda>_. unat c", OF b assms]
  have "ones n = (\<Sum>j<n. 256 ^ j)" for n by (induction n) simp_all
  then have v: "ones 8 * unat c = (\<Sum>j<8. unat c * 256 ^ j)" by (simp add: sum_distrib_left mult.commute)
  have "unat (of_nat (unat c) :: u64) = unat c" using b by (simp only: unat_of_nat) simp
  then have "unat (ONES * of_nat (unat c)) = ones 8 * unat c mod 2 ^ 64"
    using ones_values by (simp only: unat_word_ariths) simp
  then have "unat (ONES * of_nat (unat c)) = ones 8 * unat c" using ds(2) unfolding v by simp
  then show ?thesis using ds(1) v by (simp add: byte_of_def)
qed

text \<open>What the two word tests of the loops say about the bytes in memory.\<close>

lemma no_zero_in_word: "HASZERO (ld_word m w) = 0 \<longleftrightarrow> (\<forall>i<8. m (w + i) \<noteq> 0)"
  unfolding HASZERO_iff by (auto simp: byte_of_ld_word unat_eq_0)

lemma no_char_in_word:
  "HASZERO (ld_word m w XOR (ONES * of_nat (unat c))) = 0 \<longleftrightarrow> (\<forall>i<8. m (w + i) \<noteq> c)"
proof -
  have "byte_of (ld_word m w XOR (ONES * of_nat (unat c))) i = 0 \<longleftrightarrow> m (w + i) = c" if "i < 8" for i
    unfolding byte_of_xor byte_of_ld_word[OF that] byte_of_fill[OF that] by (simp add: word_unat_eq_iff)
  then show ?thesis unfolding HASZERO_iff by blast
qed

section \<open>Scans\<close>

definition first_at :: "(nat \<Rightarrow> bool) \<Rightarrow> nat \<Rightarrow> nat \<Rightarrow> bool" where
  "first_at P s p \<longleftrightarrow> s \<le> p \<and> P p \<and> (\<forall>a. s \<le> a \<and> a < p \<longrightarrow> \<not> P a)"

lemma first_at_unique: "first_at P s p \<Longrightarrow> first_at P s q \<Longrightarrow> p = q"
  unfolding first_at_def by (meson linorder_neqE_nat)

lemma first_at_ex: "P a \<Longrightarrow> s \<le> a \<Longrightarrow> \<exists>p. first_at P s p"
  unfolding first_at_def
  by (rule exI[of _ "LEAST p. s \<le> p \<and> P p"]) (metis (mono_tags, lifting) LeastI not_less_Least)

lemma first_at_skip:
  assumes "first_at P s p" "s \<le> v" "\<forall>a. s \<le> a \<and> a < v \<longrightarrow> \<not> P a"
  shows "first_at P v p"
  using assms unfolding first_at_def by (meson le_less_linear le_trans)

lemma first_at_skip_iff:
  assumes "s \<le> v" "\<forall>a. s \<le> a \<and> a < v \<longrightarrow> \<not> P a"
  shows "first_at P v p \<longleftrightarrow> first_at P s p"
proof
  show "first_at P v p \<Longrightarrow> first_at P s p"
    using assms unfolding first_at_def by (meson le_less_linear le_trans)
qed (rule first_at_skip[OF _ assms])

text \<open>A loop that tests one byte at a time, and one that tests eight, both defined by their equations.\<close>

lemma seek_finds:
  assumes eq: "\<And>s. f s = (if P s then Some s else f (Suc s))" and "first_at P s p"
  shows "f s = Some p"
  using assms(2)
proof (induction "p - s" arbitrary: s)
  case 0
  then show ?case using eq[of s] by (auto simp: first_at_def)
next
  case (Suc d)
  then have "\<not> P s" by (simp add: first_at_def)
  then have "first_at P (Suc s) p" using Suc.prems Suc.hyps(2)
    by (intro first_at_skip[OF Suc.prems]) (auto simp: less_Suc_eq)
  with Suc.hyps(1)[of "Suc s"] Suc.hyps(2) \<open>\<not> P s\<close> show ?case using eq[of s] by simp
qed

lemma seek8_finds:
  assumes eq: "\<And>w. f w = (if \<forall>i<8. \<not> P (w + i) then f (w + 8) else Some w)" and "first_at P w p"
  shows "\<exists>v. f w = Some v \<and> first_at P v p"
  using assms(2)
proof (induction "p - w" arbitrary: w rule: less_induct)
  case less
  show ?case
  proof (cases "\<forall>i<8. \<not> P (w + i)")
    case True
    then have n: "\<forall>a. w \<le> a \<and> a < w + 8 \<longrightarrow> \<not> P a" by (metis add_less_cancel_left le_add_diff_inverse)
    then have "w + 8 \<le> p" using less.prems unfolding first_at_def by (meson not_less)
    then show ?thesis
      using less.hyps[of "w + 8"] first_at_skip[OF less.prems _ n] eq[of w] True by simp
  next
    case False
    then show ?thesis using less.prems eq[of w] by auto
  qed
qed

declare strlen_head.simps [simp del] chrnul_head.simps [simp del] scan_word.simps [simp del]

lemma chrnul_head_cases:
  "case chrnul_head m c s of
     Inl p \<Rightarrow> first_at (\<lambda>a. m a = 0 \<or> m a = c) s p
   | Inr v \<Rightarrow> s \<le> v \<and> (\<forall>a. s \<le> a \<and> a < v \<longrightarrow> \<not> (m a = 0 \<or> m a = c))"
proof (induction m c s rule: chrnul_head.induct)
  case (1 m c s)
  let ?P = "\<lambda>a. m a = 0 \<or> m a = c"
  consider "s mod 8 = 0" | "s mod 8 \<noteq> 0" "?P s" | "s mod 8 \<noteq> 0" "\<not> ?P s" by blast
  then show ?case
  proof cases
    case 3
    then have *: "chrnul_head m c s = chrnul_head m c (Suc s)" by (subst chrnul_head.simps) simp
    have n: "\<forall>a. s \<le> a \<and> a < Suc s \<longrightarrow> \<not> ?P a" using 3 le_antisym by (auto simp: less_Suc_eq)
    show ?thesis
    proof (cases "chrnul_head m c s")
      case (Inl p)
      with 1[OF 3] show ?thesis unfolding * using first_at_skip_iff[of s "Suc s" ?P, OF _ n] by simp
    next
      case (Inr v)
      with 1[OF 3] have "Suc s \<le> v" "\<forall>a. Suc s \<le> a \<and> a < v \<longrightarrow> \<not> ?P a" unfolding * by simp_all
      then show ?thesis using Inr 3 not_less_eq_eq by (auto simp: le_Suc_eq) (metis le_antisym not_less_eq_eq)+
    qed
  qed (subst chrnul_head.simps, force simp: first_at_def)+
qed

lemma strlen_head_chrnul: "strlen_head m s = chrnul_head m 0 s"
  by (induction m s rule: strlen_head.induct) (subst strlen_head.simps, subst chrnul_head.simps, simp)

lemma strlen_words_eq:
  "strlen_words m w = (if \<forall>i<8. \<not> m (w + i) = 0 then strlen_words m (w + 8) else Some w)"
  by (subst strlen_words.simps) (simp only: no_zero_in_word)

lemma chrnul_words_eq:
  "chrnul_words m (ONES * of_nat (unat c)) w =
     (if \<forall>i<8. \<not> (m (w + i) = 0 \<or> m (w + i) = c) then chrnul_words m (ONES * of_nat (unat c)) (w + 8) else Some w)"
  by (subst chrnul_words.simps) (simp only: no_zero_in_word no_char_in_word de_Morgan_disj all_conj_distrib imp_conjR)

lemma strlen_bytes_sound: "strlen_bytes m s = Some p \<Longrightarrow> s \<le> p \<and> m p = 0"
  by (erule strlen_bytes.raw_induct[where P = "\<lambda>m s p. s \<le> p \<and> m p = 0", rotated])
    (force split: if_splits dest: Suc_leD)

lemma strlen_words_sound: "strlen_words m w = Some v \<Longrightarrow> w \<le> v"
  by (erule strlen_words.raw_induct[where P = "\<lambda>m w v. w \<le> v", rotated])
    (force split: if_splits dest: add_leD1)

lemma k_strlen_from_sound: "k_strlen_from m s = Some p \<Longrightarrow> s \<le> p \<and> m p = 0"
  by (erule k_strlen_from.raw_induct[where P = "\<lambda>m s p. s \<le> p \<and> m p = 0", rotated])
    (force split: if_splits dest: Suc_leD)

lemma chrnul_bytes_sound: "chrnul_bytes m c s = Some p \<Longrightarrow> s \<le> p \<and> (m p = 0 \<or> m p = c)"
  by (erule chrnul_bytes.raw_induct[where P = "\<lambda>m c s p. s \<le> p \<and> (m p = 0 \<or> m p = c)", rotated])
    (force split: if_splits dest: Suc_leD)

lemma chrnul_words_sound: "chrnul_words m k w = Some v \<Longrightarrow> w \<le> v"
  by (erule chrnul_words.raw_induct[where P = "\<lambda>m k w v. w \<le> v", rotated])
    (force split: if_splits dest: add_leD1)

lemma k_strlen_iff: "k_strlen m s = Some n \<longleftrightarrow> first_at (\<lambda>a. m a = 0) s (s + n)"
proof
  assume "first_at (\<lambda>a. m a = 0) s (s + n)"
  moreover have "k_strlen_from m s = (if m s = 0 then Some s else k_strlen_from m (Suc s))" for s
    by (subst k_strlen_from.simps) simp
  ultimately have "k_strlen_from m s = Some (s + n)" by (intro seek_finds)
  then show "k_strlen m s = Some n" by (simp add: k_strlen_def)
next
  assume "k_strlen m s = Some n"
  then obtain p where p: "k_strlen_from m s = Some p" "n = p - s" by (auto simp: k_strlen_def)
  from k_strlen_from_sound[OF p(1)] obtain q where q: "first_at (\<lambda>a. m a = 0) s q"
    using first_at_ex[of "\<lambda>a. m a = 0" p s] by auto
  moreover have "k_strlen_from m s = (if m s = 0 then Some s else k_strlen_from m (Suc s))" for s
    by (subst k_strlen_from.simps) simp
  ultimately have "k_strlen_from m s = Some q" by (intro seek_finds)
  with p q show "first_at (\<lambda>a. m a = 0) s (s + n)" by (auto simp: first_at_def)
qed

lemma l_strlen_finds: "first_at (\<lambda>a. m a = 0) s p \<Longrightarrow> l_strlen m s = Some (p - s)"
proof -
  assume p: "first_at (\<lambda>a. m a = 0) s p"
  note hd = chrnul_head_cases[of m 0 s, folded strlen_head_chrnul, simplified]
  show ?thesis
  proof (cases "strlen_head m s")
    case (Inl q)
    with hd first_at_unique[OF p] show ?thesis by (simp add: l_strlen_def)
  next
    case (Inr v)
    with hd first_at_skip[OF p] have "first_at (\<lambda>a. m a = 0) v p" by simp
    from seek8_finds[of "strlen_words m", OF strlen_words_eq this] obtain w
      where w: "strlen_words m v = Some w" "first_at (\<lambda>a. m a = 0) w p" by blast
    have "strlen_bytes m s = (if m s = 0 then Some s else strlen_bytes m (Suc s))" for s
      by (subst strlen_bytes.simps) simp
    from seek_finds[of "strlen_bytes m", OF this w(2)] w(1) Inr show ?thesis by (simp add: l_strlen_def)
  qed
qed

lemma l_strlen_sound: "l_strlen m s = Some n \<Longrightarrow> \<exists>a\<ge>s. m a = 0"
proof -
  assume n: "l_strlen m s = Some n"
  note hd = chrnul_head_cases[of m 0 s, folded strlen_head_chrnul, simplified]
  show ?thesis
  proof (cases "strlen_head m s")
    case (Inl q)
    with hd show ?thesis by (auto simp: first_at_def)
  next
    case (Inr v)
    with n obtain w p where "strlen_words m v = Some w" "strlen_bytes m w = Some p"
      by (auto simp: l_strlen_def bind_eq_Some_conv)
    with strlen_words_sound strlen_bytes_sound have "v \<le> p" "m p = 0" by (meson le_trans)+
    with Inr hd show ?thesis by auto
  qed
qed

lemma l_strlen_iff: "l_strlen m s = Some n \<longleftrightarrow> first_at (\<lambda>a. m a = 0) s (s + n)"
proof
  assume "first_at (\<lambda>a. m a = 0) s (s + n)"
  then show "l_strlen m s = Some n" using l_strlen_finds by fastforce
next
  assume n: "l_strlen m s = Some n"
  then obtain a where "s \<le> a" "m a = 0" using l_strlen_sound by blast
  with first_at_ex[of "\<lambda>a. m a = 0" a s] obtain p where p: "first_at (\<lambda>a. m a = 0) s p" by blast
  with n l_strlen_finds show "first_at (\<lambda>a. m a = 0) s (s + n)" by (fastforce simp: first_at_def)
qed

text \<open>
  C9. The library's \<^verbatim>\<open>strlen\<close>, which reads eight bytes at a time, is the kernel's, which reads one: the same
  length for a terminated string at any alignment, and neither returns on memory without a zero byte.
\<close>

theorem strlen_equiv: "l_strlen m s = k_strlen m s"
  using l_strlen_iff[of m s] k_strlen_iff[of m s] by (metis not_Some_eq)

lemma chrnul_finds:
  assumes "c \<noteq> 0" and p: "first_at (\<lambda>a. m a = 0 \<or> m a = c) s p"
  shows "strchrnul m s c = Some p"
proof (cases "chrnul_head m c s")
  case (Inl q)
  with chrnul_head_cases[of m c s] first_at_unique[OF p] assms(1) show ?thesis by (simp add: strchrnul_def)
next
  case (Inr v)
  let ?P = "\<lambda>a. m a = 0 \<or> m a = c" and ?k = "ONES * of_nat (unat c)"
  from Inr chrnul_head_cases[of m c s] first_at_skip[OF p] have "first_at ?P v p" by simp
  from seek8_finds[of "chrnul_words m ?k", OF chrnul_words_eq this] obtain w
    where w: "chrnul_words m ?k v = Some w" "first_at ?P w p" by blast
  have "chrnul_bytes m c s = (if ?P s then Some s else chrnul_bytes m c (Suc s))" for s
    by (subst chrnul_bytes.simps) simp
  from seek_finds[of "chrnul_bytes m c", OF this w(2)] w(1) Inr assms(1) show ?thesis
    by (simp add: strchrnul_def)
qed

lemma chrnul_sound:
  assumes "c \<noteq> 0" "strchrnul m s c = Some p"
  shows "first_at (\<lambda>a. m a = 0 \<or> m a = c) s p"
proof -
  let ?P = "\<lambda>a. m a = 0 \<or> m a = c"
  have "s \<le> p \<and> ?P p"
  proof (cases "chrnul_head m c s")
    case (Inl q)
    with chrnul_head_cases[of m c s] assms show ?thesis by (simp add: strchrnul_def first_at_def)
  next
    case (Inr v)
    with assms obtain w where "chrnul_words m (ONES * of_nat (unat c)) v = Some w" "chrnul_bytes m c w = Some p"
      by (auto simp: strchrnul_def bind_eq_Some_conv)
    with chrnul_words_sound chrnul_bytes_sound have "v \<le> p" "?P p" by (meson le_trans)+
    with Inr chrnul_head_cases[of m c s] show ?thesis by auto
  qed
  then obtain q where "first_at ?P s q" using first_at_ex[of ?P p s] by blast
  with chrnul_finds[OF assms(1) this] assms(2) show ?thesis by simp
qed

text \<open>
  \<^verbatim>\<open>strchrnul\<close> returns the first position of the character or of the terminator, whichever comes
  first, at any alignment, and does not return exactly when memory holds neither.
\<close>

theorem strchrnul_first:
  "strchrnul m s c = Some p \<longleftrightarrow> first_at (\<lambda>a. m a = 0 \<or> m a = c) s p"
proof (cases "c = 0")
  case True
  then have "strchrnul m s c = Some p \<longleftrightarrow> (\<exists>n. l_strlen m s = Some n \<and> p = s + n)"
    by (auto simp: strchrnul_def)
  also have "\<dots> \<longleftrightarrow> first_at (\<lambda>a. m a = 0) s p"
    unfolding l_strlen_iff by (auto simp: first_at_def intro: exI[of _ "p - s"])
  finally show ?thesis using True by simp
qed (use chrnul_finds chrnul_sound in blast)

subsection \<open>Bounded scans\<close>

lemma scan_byte_spec:
  assumes "scan_byte g m c s n = (s', n')"
  shows "s' + n' = s + n" "\<forall>a. s \<le> a \<and> a < s' \<longrightarrow> m a \<noteq> c" "n' = 0 \<or> \<not> g s' \<or> m s' = c" "s \<le> s'"
  using assms
proof (induction g m c s n rule: scan_byte.induct)
  case (2 g m c s n)
  {
    case 1
    then show ?case using 2 by (auto split: if_splits)
  next
    case 2
    then show ?case using "2.IH"(2) by (auto split: if_splits) (metis le_antisym not_less_eq_eq)
  next
    case 3
    then show ?case using "2.IH"(3) by (auto split: if_splits)
  next
    case 4
    then show ?case using "2.IH"(4) by (auto split: if_splits)
  }
qed auto

lemma scan_word_spec:
  assumes "scan_word m (ONES * of_nat (unat c)) w n = (w', n')"
  shows "w' + n' = w + n \<and> (\<forall>a. w \<le> a \<and> a < w' \<longrightarrow> m a \<noteq> c) \<and> w \<le> w'"
  using assms
proof (induction n arbitrary: w rule: less_induct)
  case (less n)
  let ?k = "ONES * of_nat (unat c)"
  show ?case
  proof (cases "n \<ge> SS \<and> HASZERO (ld_word m w XOR ?k) = 0")
    case True
    then have sw: "scan_word m ?k (w + 8) (n - SS) = (w', n')"
      using less.prems by (subst (asm) scan_word.simps) simp
    have n: "m a \<noteq> c" if "w \<le> a" "a < w + 8" for a
      using True that unfolding no_char_in_word by (metis add_less_cancel_left le_add_diff_inverse)
    from less.IH[OF _ sw] True have r: "w' + n' = w + n" "\<forall>a. w + 8 \<le> a \<and> a < w' \<longrightarrow> m a \<noteq> c" "w + 8 \<le> w'"
      by (simp_all add: SS_def)
    have "m a \<noteq> c" if "w \<le> a" "a < w'" for a using n r(2) that by (cases "a < w + 8") simp_all
    with r show ?thesis by simp
  next
    case False
    then show ?thesis using less.prems by (subst (asm) scan_word.simps) auto
  qed
qed

lemma find_upt_Some:
  "s \<le> p \<Longrightarrow> p < e \<Longrightarrow> P p \<Longrightarrow> \<forall>a. s \<le> a \<and> a < p \<longrightarrow> \<not> P a \<Longrightarrow> find P [s..<e] = Some p"
proof (induction "p - s" arbitrary: s)
  case 0
  then show ?case by (simp add: upt_conv_Cons)
next
  case (Suc d)
  then have "[s..<e] = s # [Suc s..<e]" "\<not> P s" by (simp_all add: upt_conv_Cons)
  then show ?case using Suc.hyps(1)[of "Suc s"] Suc.hyps(2) Suc.prems by simp
qed

text \<open>
  C10. \<^verbatim>\<open>memchr\<close> is a search through the \<open>n\<close> bytes one by one: it finds the first byte equal to the
  character, looks at no byte past the end for its answer, and always returns.
\<close>

theorem memchr_find: "memchr m s c n = find (\<lambda>a. m a = c) [s..<s + n]"
proof -
  have fin: "(if k \<noteq> 0 then Some p else None) = find (\<lambda>a. m a = c) [s..<s + n]"
    if "p + k = s + n" "s \<le> p" "\<forall>a. s \<le> a \<and> a < p \<longrightarrow> m a \<noteq> c" "k = 0 \<or> m p = c" for p k
  proof (cases "k = 0")
    case True
    then have "find (\<lambda>a. m a = c) [s..<s + n] = None" using that by (auto simp: find_None_iff)
    then show ?thesis using True by simp
  next
    case False
    then show ?thesis using that find_upt_Some[of s p "s + n" "\<lambda>a. m a = c"] by auto
  qed
  obtain s1 n1 where 1: "scan_byte (\<lambda>s. s mod 8 \<noteq> 0) m c s n = (s1, n1)" by fastforce
  obtain w n2 where 2: "scan_word m (ONES * of_nat (unat c)) s1 n1 = (w, n2)" by fastforce
  obtain s3 n3 where 3: "scan_byte (\<lambda>_. True) m c w n2 = (s3, n3)" by fastforce
  note spec = scan_byte_spec[OF 1] scan_word_spec[OF 2] scan_byte_spec[OF 3]
  show ?thesis
  proof (cases "n1 \<noteq> 0 \<and> m s1 \<noteq> c")
    case True
    have "m a \<noteq> c" if "s \<le> a" "a < s3" for a
      using spec(2,5,7) that by (cases "a < s1"; cases "a < w") simp_all
    then show ?thesis using True fin[of s3 n3] spec 1 2 3 by (simp add: memchr_def)
  next
    case False
    then show ?thesis using fin[of s1 n1] spec(1,2,4) 1 by (auto simp: memchr_def)
  qed
qed

section \<open>Copying\<close>

text \<open>
  C11. What \<^verbatim>\<open>memmove\<close> leaves in memory, for every placement of the two ranges: the bytes of the source,
  except that a target starting inside the source range is filled with repeats of the bytes before it.
\<close>

theorem memmove_exact:
  "k_memmove m dst src n a =
     (if dst \<le> a \<and> a < dst + n
      then if src < dst then m (src + (a - dst) mod (dst - src)) else m (src + (a - dst))
      else m a)"
proof (induction n arbitrary: m dst src)
  case (Suc n)
  let ?m = "m(dst := m src)" and ?d = "dst - src"
  have IH: "k_memmove m dst src (Suc n) a =
     (if Suc dst \<le> a \<and> a < Suc dst + n
      then if src < dst then ?m (Suc src + (a - Suc dst) mod ?d) else ?m (Suc src + (a - Suc dst))
      else ?m a)" using Suc[of ?m "Suc dst" "Suc src"] by (simp only: k_memmove.simps Suc_less_eq diff_Suc_Suc)
  show ?case
  proof (cases "Suc dst \<le> a \<and> a < Suc dst + n \<and> src < dst")
    case True
    then have "a - dst = Suc (a - Suc dst)" by linarith
    then have *: "(a - dst) mod ?d = (if Suc ((a - Suc dst) mod ?d) = ?d then 0 else Suc ((a - Suc dst) mod ?d))"
      by (simp only: mod_Suc)
    moreover have "(a - Suc dst) mod ?d < ?d" using True by simp
    ultimately show ?thesis unfolding IH using True by (cases "Suc ((a - Suc dst) mod ?d) = ?d") auto
  next
    case False
    then show ?thesis unfolding IH by (cases "a = dst") (auto simp: Suc_diff_Suc)
  qed
qed auto

end
