(* ===== verification/Timer.thy ===== *)
theory Timer
  imports Yaos_Prelude
begin

text \<open>
  Timeouts and the clock: kernel/timer.c and arch/x86_64/time.c. The timeout nodes of a processor are
  addressed by a number, those of \<^verbatim>\<open>timerbuf\<close> by their index and those from \<^verbatim>\<open>yaos_malloc\<close> by a
  number above; what \<^verbatim>\<open>yaos_malloc\<close> returns is an argument. The effect of a callback is a parameter of
  the operations that call it, and so are the answers of the CMOS clock. The theory proves that timeouts
  are kept in deadline order and all run when due, and that the clock yields the seconds since 1970.
\<close>

section \<open>Timeouts\<close>

definition ENOMEM :: int where
  "ENOMEM = - 12"

definition NR_TIMER_BUF :: nat where
  "NR_TIMER_BUF = 16"

record 'c timeout_callback =
  tc_next :: "nat option"
  deadline :: u64
  callback :: 'c

record 'c timers =
  tm_free :: "nat option"
  ptimer :: "nat option"
  tnode :: "nat \<Rightarrow> 'c timeout_callback"
  msec_count :: u64

definition set_tnext :: "nat \<Rightarrow> nat option \<Rightarrow> (nat \<Rightarrow> 'c timeout_callback) \<Rightarrow> nat \<Rightarrow> 'c timeout_callback" where
  "set_tnext i q ns = ns(i := (ns i)\<lparr>tc_next := q\<rparr>)"

text \<open>\<^verbatim>\<open>while (ptr->pnext && ptr->pnext->deadline < thedeadline) ptr = ptr->pnext\<close>\<close>

partial_function (option) timer_point :: "(nat \<Rightarrow> 'c timeout_callback) \<Rightarrow> u64 \<Rightarrow> nat \<Rightarrow> nat kres" where
  "timer_point ns d ptr =
     (case tc_next (ns ptr) of
        None \<Rightarrow> ret ptr
      | Some q \<Rightarrow> if deadline (ns q) < d then timer_point ns d q else ret ptr)"

text \<open>\<open>mal\<close> is what \<^verbatim>\<open>yaos_malloc\<close> returns, used when no free node is left.\<close>

definition set_timeout :: "nat option \<Rightarrow> u64 \<Rightarrow> 'c \<Rightarrow> ('c, 'z) timers_scheme \<Rightarrow> (int \<times> ('c, 'z) timers_scheme) kres" where
  "set_timeout mal msec pfunc s =
     (let got = (case tm_free s of
                   None \<Rightarrow> map_option (\<lambda>p. (p, s)) mal
                 | Some p \<Rightarrow> Some (p, s\<lparr>tm_free := tc_next (tnode s p)\<rparr>))
      in case got of
           None \<Rightarrow> ret (ENOMEM, s)
         | Some (p, s1) \<Rightarrow>
             let d = msec + msec_count s1;
                 ns = (tnode s1)(p := (tnode s1 p)\<lparr>deadline := d, callback := pfunc\<rparr>)
             in case ptimer s1 of
                  None \<Rightarrow> ret (0, s1\<lparr>tnode := set_tnext p None ns, ptimer := Some p\<rparr>)
                | Some h \<Rightarrow>
                    if d < deadline (ns h)
                    then ret (0, s1\<lparr>tnode := set_tnext p (Some h) ns, ptimer := Some p\<rparr>)
                    else kbind (timer_point ns d h) (\<lambda>ptr.
                      ret (0, s1\<lparr>tnode := set_tnext ptr (Some p) (set_tnext p (tc_next (ns ptr)) ns)\<rparr>)))"

text \<open>
  The loop of \<^verbatim>\<open>run_timer_softirq\<close> that collects the callbacks that are due after the one in \<open>ptr\<close>, at
  most \<open>callnr\<close> of them: the last node reached and the callbacks in the order of the list.
\<close>

fun collect :: "(nat \<Rightarrow> 'c timeout_callback) \<Rightarrow> u64 \<Rightarrow> nat \<Rightarrow> nat \<Rightarrow> nat \<times> 'c list" where
  "collect ns now ptr 0 = (ptr, [])"
| "collect ns now ptr (Suc callnr) =
     (case tc_next (ns ptr) of
        None \<Rightarrow> (ptr, [])
      | Some q \<Rightarrow>
          if deadline (ns q) \<le> now
          then let (e, cs) = collect ns now q callnr in (e, callback (ns q) # cs)
          else (ptr, []))"

text \<open>The calls, each with the count of milliseconds at that moment.\<close>

fun run_calls ::
  "('c \<Rightarrow> u64 \<Rightarrow> ('c, 'z) timers_scheme \<Rightarrow> ('c, 'z) timers_scheme kres) \<Rightarrow> 'c list \<Rightarrow> ('c, 'z) timers_scheme \<Rightarrow> ('c, 'z) timers_scheme kres" where
  "run_calls call [] s = ret s"
| "run_calls call (c # cs) s = kbind (call c (msec_count s) s) (run_calls call cs)"

partial_function (option) run_timer_softirq ::
  "('c \<Rightarrow> u64 \<Rightarrow> ('c, 'z) timers_scheme \<Rightarrow> ('c, 'z) timers_scheme kres) \<Rightarrow> ('c, 'z) timers_scheme \<Rightarrow> ('c, 'z) timers_scheme kres" where
  "run_timer_softirq call s =
     (case ptimer s of
        None \<Rightarrow> ret s
      | Some p \<Rightarrow>
          if msec_count s < deadline (tnode s p) then ret s
          else case collect (tnode s) (msec_count s) p 9 of (ptr, cs) \<Rightarrow>
            kbind (run_calls call (callback (tnode s p) # cs)
                    (s\<lparr>ptimer := tc_next (tnode s ptr), tnode := set_tnext ptr (tm_free s) (tnode s), tm_free := Some p\<rparr>)) (\<lambda>s1.
              if length cs = 9 then run_timer_softirq call s1 else ret s1))"

text \<open>The nodes of \<^verbatim>\<open>timerbuf\<close> linked into the free list, the rest of the node left as it is.\<close>

definition init_timer :: "('c, 'z) timers_scheme \<Rightarrow> ('c, 'z) timers_scheme" where
  "init_timer s =
     s\<lparr>tnode := (\<lambda>i. if i < NR_TIMER_BUF
                     then (tnode s i)\<lparr>tc_next := if i < NR_TIMER_BUF - 1 then Some (i + 1) else None\<rparr> else tnode s i),
       tm_free := Some 0, ptimer := None\<rparr>"

section \<open>The clock\<close>

text \<open>\<^verbatim>\<open>time64_t\<close> is unsigned; all but the outer arithmetic is that of \<^verbatim>\<open>unsigned int\<close>.\<close>

definition mktime64 :: "u32 \<Rightarrow> u32 \<Rightarrow> u32 \<Rightarrow> u32 \<Rightarrow> u32 \<Rightarrow> u32 \<Rightarrow> u64" where
  "mktime64 year0 mon0 day hour mi sec =
     (let mon = mon0 - 2;
          (mon, year) = (if sint mon \<le> 0 then (mon + 12, year0 - 1) else (mon, year0))
      in (((ucast (year div 4 - year div 100 + year div 400 + 367 * mon div 12 + day)
             + ucast (year * 365) - 719499) * 24 + ucast hour) * 60 + ucast mi) * 60 + ucast sec)"

record rtcdate =
  second :: u32
  minute :: u32
  hour :: u32
  day :: u32
  month :: u32
  year :: u32

text \<open>
  The CMOS clock: its answer to the \<open>n\<close>-th read, of register \<open>reg\<close>. A date read takes six reads.
\<close>

type_synonym cmos = "nat \<Rightarrow> u32 \<Rightarrow> u32"

definition fill_rtcdate :: "cmos \<Rightarrow> nat \<Rightarrow> rtcdate" where
  "fill_rtcdate cmos n =
     \<lparr>second = cmos n 0x00, minute = cmos (n + 1) 0x02, hour = cmos (n + 2) 0x04,
      day = cmos (n + 3) 0x07, month = cmos (n + 4) 0x08, year = cmos (n + 5) 0x09\<rparr>"

text \<open>Two equal reads with no update in progress between them; the second component counts the reads.\<close>

partial_function (option) cmos_stable :: "cmos \<Rightarrow> nat \<Rightarrow> (rtcdate \<times> nat) option" where
  "cmos_stable cmos n =
     (let t1 = fill_rtcdate cmos n in
      if cmos (n + 6) 0x0a AND push_bit 7 1 \<noteq> 0 then cmos_stable cmos (n + 7)
      else let t2 = fill_rtcdate cmos (n + 7) in
        if t1 = t2 then Some (t1, n + 13) else cmos_stable cmos (n + 13))"

definition bcd_conv :: "u32 \<Rightarrow> u32" where
  "bcd_conv x = drop_bit 4 x * 10 + (x AND 0xf)"

definition cmostime :: "cmos \<Rightarrow> nat \<Rightarrow> (rtcdate \<times> nat) option" where
  "cmostime cmos n =
     (let sb = cmos n 0x0b; bcd = (sb AND push_bit 2 1 = 0)
      in map_option (\<lambda>(t1, n').
           let t = (if bcd
                    then \<lparr>second = bcd_conv (second t1), minute = bcd_conv (minute t1), hour = bcd_conv (hour t1),
                          day = bcd_conv (day t1), month = bcd_conv (month t1), year = bcd_conv (year t1)\<rparr>
                    else t1)
           in (t\<lparr>year := year t + 2000\<rparr>, n')) (cmos_stable cmos (n + 1)))"

text \<open>\<^verbatim>\<open>start_time_in_sec\<close> after \<^verbatim>\<open>init_time\<close>.\<close>

definition init_time :: "cmos \<Rightarrow> nat \<Rightarrow> (u64 \<times> nat) option" where
  "init_time cmos n =
     map_option (\<lambda>(t, n'). (mktime64 (year t) (month t) (day t) (hour t) (minute t) (second t), n')) (cmostime cmos n)"

section \<open>The list of timeouts\<close>

fun ins_after :: "u64 \<times> 'c \<Rightarrow> (u64 \<times> 'c) list \<Rightarrow> (u64 \<times> 'c) list" where
  "ins_after x [] = [x]"
| "ins_after x (y # ys) = (if fst y < fst x then y # ins_after x ys else x # y # ys)"

fun ins_timer :: "u64 \<times> 'c \<Rightarrow> (u64 \<times> 'c) list \<Rightarrow> (u64 \<times> 'c) list" where
  "ins_timer x [] = [x]"
| "ins_timer x (y # ys) = (if fst x < fst y then x # y # ys else y # ins_after x ys)"

lemma set_ins_timer [simp]: "set (ins_timer x ys) = insert x (set ys)"
proof -
  have "set (ins_after x ys) = insert x (set ys)" for ys by (induction ys) auto
  then show ?thesis by (cases ys) auto
qed

lemma sorted_ins_timer: "sorted (map fst ys) \<Longrightarrow> sorted (map fst (ins_timer x ys))"
proof -
  have s: "set (ins_after x ys) = insert x (set ys)" for ys by (induction ys) auto
  have a: "sorted (map fst ys) \<Longrightarrow> sorted (map fst (ins_after x ys))" for ys
    by (induction ys) (auto simp: s)
  show "sorted (map fst ys) \<Longrightarrow> sorted (map fst (ins_timer x ys))"
    using a by (cases ys) (force simp: s)+
qed

text \<open>The next field, as the function that chains follow.\<close>

definition tnx :: "(nat \<Rightarrow> 'c timeout_callback) \<Rightarrow> nat \<Rightarrow> nat option" where
  "tnx ns p = tc_next (ns p)"

lemma tnx_apply: "tnx ns p = tc_next (ns p)"
  by (simp add: tnx_def)

text \<open>The nodes \<open>xs\<close> hold the pending timeouts, the nodes \<open>fs\<close> are free.\<close>

definition timers_ok :: "nat list \<Rightarrow> nat list \<Rightarrow> ('c, 'z) timers_scheme \<Rightarrow> bool" where
  "timers_ok xs fs s \<longleftrightarrow> chain (tnx (tnode s)) (ptimer s) xs \<and> chain (tnx (tnode s)) (tm_free s) fs
     \<and> set xs \<inter> set fs = {} \<and> sorted (map (deadline \<circ> tnode s) xs)"

definition entry :: "(nat \<Rightarrow> 'c timeout_callback) \<Rightarrow> nat \<Rightarrow> u64 \<times> 'c" where
  "entry ns p = (deadline (ns p), callback (ns p))"

abbreviation timeouts :: "('c, 'z) timers_scheme \<Rightarrow> nat list \<Rightarrow> (u64 \<times> 'c) list" where
  "timeouts s xs \<equiv> map (entry (tnode s)) xs"

lemma set_tnext_comp [simp]:
  "tnx (set_tnext i q ns) = (tnx ns)(i := q)"
  "entry (set_tnext i q ns) = entry ns"
  "deadline \<circ> set_tnext i q ns = deadline \<circ> ns"
  "deadline (set_tnext i q ns j) = deadline (ns j)"
  "callback (set_tnext i q ns j) = callback (ns j)"
  by (auto simp: set_tnext_def fun_eq_iff entry_def tnx_apply)

lemma fst_entry [simp]: "fst (entry ns p) = deadline (ns p)"
  by (simp add: entry_def)

text \<open>Where the walk of \<^verbatim>\<open>set_timeout\<close> stops, and what linking the node in there does to the list.\<close>

lemma timer_point_splits:
  assumes "chain (tnx ns) (Some h) (h # zs)"
  shows "\<exists>us v ws. h # zs = us @ v # ws \<and> timer_point ns d h = ret v \<and>
    (\<forall>x. fst x = d \<longrightarrow> map (entry ns) us @ entry ns v # x # map (entry ns) ws
       = entry ns h # ins_after x (map (entry ns) zs))"
  using assms
proof (induction zs arbitrary: h)
  case Nil
  then have "timer_point ns d h = ret h" by (subst timer_point.simps) (simp add: tnx_apply)
  then show ?case by (intro exI[of _ "[]"] exI[of _ h]) simp
next
  case (Cons q zs)
  have nx: "tc_next (ns h) = Some q" and ch: "chain (tnx ns) (Some q) (q # zs)" using Cons.prems tnx_apply[of ns h] by simp_all
  show ?case
  proof (cases "deadline (ns q) < d")
    case True
    from Cons.IH[OF ch] obtain us v ws where *: "q # zs = us @ v # ws" "timer_point ns d q = ret v"
      "\<forall>x. fst x = d \<longrightarrow> map (entry ns) us @ entry ns v # x # map (entry ns) ws = entry ns q # ins_after x (map (entry ns) zs)"
      by blast
    have "timer_point ns d h = timer_point ns d q" using nx True by (subst timer_point.simps) simp
    with *(2,3) have "timer_point ns d h = ret v \<and> (\<forall>x. fst x = d \<longrightarrow> map (entry ns) (h # us) @ entry ns v # x # map (entry ns) ws
        = entry ns h # ins_after x (map (entry ns) (q # zs)))" using True by simp
    with *(1) show ?thesis by (intro exI[of _ "h # us"] exI[of _ v] exI[of _ ws]) simp
  next
    case False
    then have "timer_point ns d h = ret h" using nx by (subst timer_point.simps) simp
    then show ?thesis using False by (intro exI[of _ "[]"] exI[of _ h] exI[of _ "q # zs"]) simp
  qed
qed

lemma chain_link_in:
  assumes "chain nx p (us @ v # ws)" "distinct (us @ v # ws)" "i \<notin> set (us @ v # ws)"
  shows "chain (nx(i := nx v, v := Some i)) p (us @ v # i # ws)"
proof -
  from assms(1) obtain r where r: "lseg nx p us r" "r = Some v" "chain nx (nx v) ws" by (auto simp: chain_append)
  have v: "v \<notin> set us" "v \<notin> set ws" "v \<noteq> i" and i: "i \<notin> set us" "i \<notin> set ws" using assms(2,3) by auto
  have "lseg (nx(i := nx v, v := Some i)) p us r" using r(1) v i by simp
  moreover have "chain (nx(i := nx v, v := Some i)) (nx v) ws" using r(3) v i by simp
  ultimately show ?thesis using r(2) v by (auto simp: chain_append)
qed

text \<open>Linking node \<open>p\<close>, which is in neither list, into the list of timeouts.\<close>

definition arm :: "nat \<Rightarrow> u64 \<Rightarrow> 'c \<Rightarrow> ('c, 'z) timers_scheme \<Rightarrow> ('c, 'z) timers_scheme kres" where
  "arm p d pfunc s1 =
     (let ns = (tnode s1)(p := (tnode s1 p)\<lparr>deadline := d, callback := pfunc\<rparr>)
      in case ptimer s1 of
           None \<Rightarrow> ret (s1\<lparr>tnode := set_tnext p None ns, ptimer := Some p\<rparr>)
         | Some h \<Rightarrow>
             if d < deadline (ns h)
             then ret (s1\<lparr>tnode := set_tnext p (Some h) ns, ptimer := Some p\<rparr>)
             else kbind (timer_point ns d h) (\<lambda>ptr.
               ret (s1\<lparr>tnode := set_tnext ptr (Some p) (set_tnext p (tc_next (ns ptr)) ns)\<rparr>)))"

lemma set_timeout_arm:
  "set_timeout mal msec c s =
     (case (case tm_free s of None \<Rightarrow> map_option (\<lambda>p. (p, s)) mal
                            | Some p \<Rightarrow> Some (p, s\<lparr>tm_free := tc_next (tnode s p)\<rparr>)) of
        None \<Rightarrow> ret (ENOMEM, s)
      | Some (p, s1) \<Rightarrow> kbind (arm p (msec + msec_count s1) c s1) (\<lambda>s2. ret (0, s2)))"
  by (simp add: set_timeout_def arm_def Let_def kbind_assoc split: option.split)

lemma arm_inserts:
  assumes ok: "timers_ok xs fs s" and p: "p \<notin> set xs \<union> set fs"
  shows "\<exists>s' xs'. arm p d c s = ret s' \<and> timers_ok xs' fs s' \<and> set xs' = insert p (set xs) \<and> distinct xs'
    \<and> timeouts s' xs' = ins_timer (d, c) (timeouts s xs) \<and> msec_count s' = msec_count s \<and> tm_free s' = tm_free s
    \<and> timers.more s' = timers.more s"
proof -
  define ns where "ns = (tnode s)(p := (tnode s p)\<lparr>deadline := d, callback := c\<rparr>)"
  have ch: "chain (tnx (tnode s)) (ptimer s) xs" "chain (tnx (tnode s)) (tm_free s) fs"
    and dj: "set xs \<inter> set fs = {}" and so: "sorted (map fst (timeouts s xs))"
    using ok by (simp_all add: timers_ok_def entry_def comp_def)
  have nx: "tnx ns = tnx (tnode s)" by (auto simp: ns_def fun_eq_iff tnx_apply)
  have es: "map (entry ns) xs = timeouts s xs" and ep: "entry ns p = (d, c)" using p by (auto simp: ns_def entry_def)
  have dx: "distinct xs" using ch(1) by (rule chain_distinct)
  have fin: ?thesis
    if a: "arm p d c s = ret s'" and f: "tm_free s' = tm_free s" "msec_count s' = msec_count s" "timers.more s' = timers.more s"
      and e: "entry (tnode s') = entry ns" and x': "set xs' = insert p (set xs)" "distinct xs'"
      and c1: "chain (tnx (tnode s')) (ptimer s') xs'" and c2: "chain (tnx (tnode s')) (tm_free s) fs"
      and m: "map (entry ns) xs' = ins_timer (d, c) (timeouts s xs)" for s' xs'
  proof -
    have "map (deadline \<circ> tnode s') xs' = map fst (timeouts s' xs')" by (simp add: entry_def)
    moreover have "timeouts s' xs' = ins_timer (d, c) (timeouts s xs)" using m e by simp
    ultimately show ?thesis using a f x' c1 c2 dj p sorted_ins_timer[OF so]
      by (intro exI[of _ s'] exI[of _ xs']) (auto simp: timers_ok_def)
  qed
  show ?thesis
  proof (cases "ptimer s")
    case None
    then show ?thesis using ch p ep nx
      by (intro fin[of "s\<lparr>tnode := set_tnext p None ns, ptimer := Some p\<rparr>" "[p]"]) (auto simp: arm_def ns_def[symmetric])
  next
    case (Some h)
    with ch(1) obtain zs where xs: "xs = h # zs" by (auto simp: chain_Some)
    show ?thesis
    proof (cases "d < deadline (ns h)")
      case True
      then have "fst (d, c) < fst (entry (tnode s) h)" using p xs by (auto simp: ns_def entry_def)
      with True Some xs ch p ep nx es dx show ?thesis
        by (intro fin[of "s\<lparr>tnode := set_tnext p (Some h) ns, ptimer := Some p\<rparr>" "p # xs"])
          (auto simp: arm_def ns_def[symmetric])
    next
      case False
      then have nl: "\<not> fst (d, c) < fst (entry (tnode s) h)" using p xs by (auto simp: ns_def entry_def)
      obtain us v ws where sp: "h # zs = us @ v # ws" "timer_point ns d h = ret v"
        "map (entry ns) us @ entry ns v # (d, c) # map (entry ns) ws = entry ns h # ins_after (d, c) (map (entry ns) zs)"
        using timer_point_splits[of ns h zs d] ch(1) xs nx Some by fastforce
      let ?s = "s\<lparr>tnode := set_tnext v (Some p) (set_tnext p (tc_next (ns v)) ns)\<rparr>"
      have "chain ((tnx ns)(p := (tnx ns) v, v := Some p)) (ptimer s) (us @ v # p # ws)"
        using ch(1) dx p sp(1) xs nx by (intro chain_link_in) auto
      moreover have "v \<notin> set fs" "p \<notin> set fs" using sp(1) xs dj p by auto
      moreover have "map (entry ns) (us @ v # p # ws) = ins_timer (d, c) (map (entry ns) xs)"
        using sp(3) ep nl es unfolding xs by simp
      moreover have "set (us @ v # p # ws) = insert p (set xs)" "distinct (us @ v # p # ws)"
        using dx p unfolding xs sp(1) by auto
      ultimately show ?thesis using False Some sp(2) ch(2) es nx
        by (intro fin[of ?s "us @ v # p # ws"]) (simp_all add: arm_def ns_def[symmetric] tnx_apply[symmetric, of ns v])
    qed
  qed
qed

lemma set_timeout_cases:
  assumes ok: "timers_ok xs fs s" and mal: "\<forall>p. mal = Some p \<longrightarrow> p \<notin> set xs \<union> set fs"
  shows "if fs = [] \<and> mal = None then set_timeout mal msec c s = ret (ENOMEM, s)
    else \<exists>s' xs' fs'. set_timeout mal msec c s = ret (0, s') \<and> timers_ok xs' fs' s'
      \<and> timeouts s' xs' = ins_timer (msec + msec_count s, c) (timeouts s xs)
      \<and> set xs' \<union> set fs' = set xs \<union> set fs \<union> (if fs = [] then {the mal} else {})"
proof (cases fs)
  case Nil
  then have f: "tm_free s = None" using ok by (simp add: timers_ok_def)
  show ?thesis
  proof (cases mal)
    case None
    then show ?thesis using Nil f by (simp add: set_timeout_def)
  next
    case (Some p)
    with mal have "p \<notin> set xs \<union> set fs" by simp
    from arm_inserts[OF ok this, of "msec + msec_count s" c] obtain s' xs'
      where *: "arm p (msec + msec_count s) c s = ret s'" "timers_ok xs' fs s'" "set xs' = insert p (set xs)"
        "timeouts s' xs' = ins_timer (msec + msec_count s, c) (timeouts s xs)" by blast
    have "set_timeout mal msec c s = ret (0, s')" using f Some *(1) by (simp add: set_timeout_arm)
    moreover have "set xs' \<union> set fs = set xs \<union> set fs \<union> {the mal}" using *(3) Some by simp
    ultimately show ?thesis using *(2,4) Nil Some by (simp only: if_True if_False option.distinct simp_thms) blast
  qed
next
  case (Cons p fs')
  define s1 where "s1 = s\<lparr>tm_free := tc_next (tnode s p)\<rparr>"
  have f: "tm_free s = Some p" "chain (tnx (tnode s)) (tc_next (tnode s p)) fs'"
    and df: "p \<notin> set fs'" using ok Cons chain_distinct[of "tnx (tnode s)" "tm_free s" fs] tnx_apply[of "tnode s" p]
    by (simp_all add: timers_ok_def)
  have "timers_ok xs fs' s1" using ok Cons f by (auto simp: timers_ok_def s1_def)
  moreover have "p \<notin> set xs \<union> set fs'" using ok Cons df by (auto simp: timers_ok_def)
  ultimately obtain s' xs'
    where *: "arm p (msec + msec_count s) c s1 = ret s'" "timers_ok xs' fs' s'" "set xs' = insert p (set xs)"
      "timeouts s' xs' = ins_timer (msec + msec_count s, c) (timeouts s1 xs)" using arm_inserts[of xs fs' s1 p] by blast
  have "set_timeout mal msec c s = ret (0, s')" using f(1) *(1) by (simp add: set_timeout_arm s1_def)
  moreover have "set xs' \<union> set fs' = set xs \<union> set fs \<union> {}" using *(3) Cons by simp
  moreover have "timeouts s1 xs = timeouts s xs" by (simp add: s1_def)
  ultimately show ?thesis using *(2,4) unfolding Cons by (simp only: if_False list.distinct simp_thms) blast
qed

text \<open>
  C12. \<^verbatim>\<open>set_timeout\<close> puts the timeout in its place in deadline order: the deadline is the delay added to the
  millisecond count modulo \<open>2 ^ 64\<close>, every other timeout keeps its place, the list stays sorted, and the node
  comes from the free list or, when that is empty, from the allocator. With neither it returns ENOMEM
  and changes nothing.
\<close>

theorem set_timeout_inserts:
  assumes "timers_ok xs fs s" and "\<forall>p. mal = Some p \<longrightarrow> p \<notin> set xs \<union> set fs"
  shows "if fs = [] \<and> mal = None then set_timeout mal msec c s = ret (ENOMEM, s)
    else \<exists>s' xs' fs'. set_timeout mal msec c s = ret (0, s') \<and> timers_ok xs' fs' s'
      \<and> timeouts s' xs' = ins_timer (msec + msec_count s, c) (timeouts s xs)
      \<and> set xs' \<union> set fs' = set xs \<union> set fs \<union> (if fs = [] then {the mal} else {})"
  using assms by (rule set_timeout_cases)

text \<open>The free list of a processor after \<^verbatim>\<open>init_timer\<close>.\<close>

lemma init_timer_ok: "timers_ok [] [0..<16] (init_timer s)"
proof -
  have "chain (tnx (tnode (init_timer s))) (if k < 16 then Some k else None) [k..<16]" if "k \<le> 16" for k
    using that
  proof (induction "16 - k" arbitrary: k)
    case (Suc d)
    then have "[k..<16] = k # [Suc k..<16]" by (simp add: upt_conv_Cons)
    moreover have "tc_next (tnode (init_timer s) k) = (if Suc k < 16 then Some (Suc k) else None)"
      using Suc by (auto simp: init_timer_def NR_TIMER_BUF_def)
    ultimately show ?case using Suc.hyps(1)[of "Suc k"] Suc.hyps(2) Suc.prems tnx_apply[of "tnode (init_timer s)" k] by simp
  qed simp
  from this[of 0] show ?thesis by (simp add: timers_ok_def init_timer_def)
qed

definition demo_timers :: "nat timers" where
  "demo_timers = init_timer \<lparr>tm_free = None, ptimer = None,
     tnode = (\<lambda>_. \<lparr>tc_next = None, deadline = 0, callback = 0\<rparr>), msec_count = 100\<rparr>"

theorem set_timeout_inserts_witness:
  "timers_ok [] [0..<16] demo_timers
   \<and> (\<exists>s' xs' fs'. set_timeout None 5 7 demo_timers = ret (0, s') \<and> timers_ok xs' fs' s'
      \<and> timeouts s' xs' = [(105, 7)])"
proof -
  have ok: "timers_ok [] [0..<16] demo_timers" unfolding demo_timers_def by (rule init_timer_ok)
  have m: "msec_count demo_timers = 100" by (simp add: demo_timers_def init_timer_def)
  from set_timeout_inserts[OF ok, of None 5 7] show ?thesis using ok m
    by (simp del: map_eq_Cons_conv) metis
qed

section \<open>Running what is due\<close>

text \<open>What \<^verbatim>\<open>collect\<close> finds on a sorted chain: the due nodes that follow, at most \<open>k\<close> of them.\<close>

lemma collect_chain:
  assumes "chain (tnx ns) (Some p) (p # zs)"
  shows "\<exists>us. us = take k (takeWhile (\<lambda>q. deadline (ns q) \<le> now) zs)
    \<and> collect ns now p k = (last (p # us), map (callback \<circ> ns) us)"
  using assms
proof (induction k arbitrary: p zs)
  case (Suc k)
  show ?case
  proof (cases zs)
    case Nil
    then show ?thesis using Suc.prems tnx_apply[of ns p] by simp
  next
    case (Cons q ys)
    then have "tc_next (ns p) = Some q" "chain (tnx ns) (Some q) (q # ys)" using Suc.prems tnx_apply[of ns p] by simp_all
    with Suc.IH[of q ys] Cons show ?thesis by (auto simp: comp_def)
  qed
qed simp

text \<open>Moving a prefix of the list of timeouts to the front of the free list.\<close>

lemma detach_prefix:
  fixes s :: "('c, 'z) timers_scheme"
  assumes ok: "timers_ok (p # us @ ws) fs s"
  defines "e \<equiv> last (p # us)"
  defines "s' \<equiv> s\<lparr>ptimer := tc_next (tnode s e), tnode := set_tnext e (tm_free s) (tnode s), tm_free := Some p\<rparr>"
  shows "timers_ok ws (p # us @ fs) s'" "timeouts s' ws = timeouts s ws"
proof -
  obtain as where as: "p # us = as @ [e]" by (metis append_butlast_last_id e_def list.distinct(1))
  let ?nx = "tnx (tnode s)"
  have ch: "chain ?nx (ptimer s) ((as @ [e]) @ ws)" and fr: "chain ?nx (tm_free s) fs"
    and dj: "set ((as @ [e]) @ ws) \<inter> set fs = {}" and so: "sorted (map (deadline \<circ> tnode s) ((as @ [e]) @ ws))"
    using ok unfolding timers_ok_def append_Cons[symmetric] append_assoc[symmetric] as by simp_all
  have d: "distinct ((as @ [e]) @ ws)" using ch by (rule chain_distinct)
  have pp: "ptimer s = Some p" using ok by (simp add: timers_ok_def)
  have a: "lseg ?nx (Some p) as (Some e)" and w: "chain ?nx (tc_next (tnode s e)) ws"
    using ch pp tnx_apply[of "tnode s" e] by (auto simp: chain_append)
  have "chain (?nx(e := tm_free s)) (Some p) (as @ e # fs)"
    using a fr d dj by (auto simp: chain_append)
  moreover have "chain (?nx(e := tm_free s)) (tc_next (tnode s e)) ws" using w d by simp
  moreover have "p # us @ fs = as @ e # fs" using as by (metis append_Cons append_assoc append_Nil)
  moreover have "set ws \<inter> set (as @ e # fs) = {}" using d dj by auto
  ultimately show "timers_ok ws (p # us @ fs) s'" using so unfolding timers_ok_def s'_def
    by (simp only:) (simp add: sorted_append comp_def)
  show "timeouts s' ws = timeouts s ws" by (simp add: s'_def)
qed

text \<open>A callback environment that only records its calls.\<close>

record 'c traced = "'c timers" +
  calls :: "('c \<times> u64) list"

definition record_call :: "'c \<Rightarrow> u64 \<Rightarrow> 'c traced \<Rightarrow> 'c traced kres" where
  "record_call c now s = ret (s\<lparr>calls := calls s @ [(c, now)]\<rparr>)"

lemma run_calls_record: "run_calls record_call cs s = ret (s\<lparr>calls := calls s @ map (\<lambda>c. (c, msec_count s)) cs\<rparr>)"
  by (induction cs arbitrary: s) (simp_all add: record_call_def)

lemma run_timer_fires_all:
  fixes s :: "'c traced"
  assumes "timers_ok xs fs s"
  shows "\<exists>s' xs' fs'. run_timer_softirq record_call s = ret s' \<and> timers_ok xs' fs' s'
    \<and> calls s' = calls s @ map (\<lambda>e. (snd e, msec_count s)) (takeWhile (\<lambda>e. fst e \<le> msec_count s) (timeouts s xs))
    \<and> timeouts s' xs' = dropWhile (\<lambda>e. fst e \<le> msec_count s) (timeouts s xs)
    \<and> set xs' \<union> set fs' = set xs \<union> set fs"
  using assms
proof (induction "length xs" arbitrary: xs fs s rule: less_induct)
  case less
  note ok = less.prems
  let ?now = "msec_count s" and ?due = "\<lambda>q. deadline (tnode s q) \<le> msec_count s"
  show ?case
  proof (cases "\<exists>p zs. xs = p # zs \<and> ?due p")
    case False
    have "run_timer_softirq record_call s = ret s"
    proof (cases xs)
      case Nil
      then show ?thesis using ok by (subst run_timer_softirq.simps) (simp add: timers_ok_def)
    next
      case (Cons p zs)
      then show ?thesis using False ok by (subst run_timer_softirq.simps) (simp add: timers_ok_def not_le)
    qed
    with False ok show ?thesis by (intro exI[of _ s] exI[of _ xs] exI[of _ fs]) (cases xs, simp_all)
  next
    case True
    then obtain p zs where xs: "xs = p # zs" and due: "?due p" by blast
    define us where "us = take 9 (takeWhile ?due zs)"
    define ws where "ws = drop (length us) zs"
    have dues: "\<forall>q \<in> set us. ?due q" unfolding us_def by (meson in_set_takeD set_takeWhileD)
    have "zs = us @ drop 9 (takeWhile ?due zs) @ dropWhile ?due zs" by (simp add: us_def flip: append_assoc)
    then have zs: "zs = us @ ws" unfolding ws_def by (metis append_eq_conv_conj)
    have pt: "ptimer s = Some p" using ok xs by (simp add: timers_ok_def)
    have "chain (tnx (tnode s)) (Some p) (p # zs)" using ok xs pt by (simp add: timers_ok_def)
    then have col: "collect (tnode s) ?now p 9 = (last (p # us), map (callback \<circ> tnode s) us)"
      using collect_chain[of "tnode s" p zs 9 ?now] by (simp add: us_def)
    define s1 where "s1 = s\<lparr>ptimer := tc_next (tnode s (last (p # us))),
      tnode := set_tnext (last (p # us)) (tm_free s) (tnode s), tm_free := Some p\<rparr>"
    define s2 where "s2 = s1\<lparr>calls := calls s @ map (\<lambda>q. (callback (tnode s q), ?now)) (p # us)\<rparr>"
    have nd: "\<not> ?now < deadline (tnode s p)" using due by simp
    have run: "run_timer_softirq record_call s = (if length us = 9 then run_timer_softirq record_call s2 else ret s2)"
      using pt nd col by (subst run_timer_softirq.simps) (simp add: run_calls_record s1_def s2_def comp_def del: run_calls.simps last.simps)
    have "timers_ok ws (p # us @ fs) s1" "timeouts s1 ws = timeouts s ws"
      using detach_prefix[of p us ws fs s] ok xs zs by (simp_all add: s1_def)
    then have ok2: "timers_ok ws (p # us @ fs) s2" "timeouts s2 ws = timeouts s ws" "msec_count s2 = ?now"
      by (simp_all add: s2_def timers_ok_def) (simp add: s1_def)
    have dd: "fst e \<le> ?now" if "e \<in> set (timeouts s us)" for e using that dues by auto
    have pre: "takeWhile (\<lambda>e. fst e \<le> ?now) (timeouts s xs) = timeouts s (p # us) @ takeWhile (\<lambda>e. fst e \<le> ?now) (timeouts s ws)"
        "dropWhile (\<lambda>e. fst e \<le> ?now) (timeouts s xs) = dropWhile (\<lambda>e. fst e \<le> ?now) (timeouts s ws)"
      using due takeWhile_append2[of "timeouts s us" "\<lambda>e. fst e \<le> ?now" "timeouts s ws", OF dd]
        dropWhile_append2[of "timeouts s us" "\<lambda>e. fst e \<le> ?now" "timeouts s ws", OF dd] unfolding xs zs by simp_all
    have c2: "calls s2 = calls s @ map (\<lambda>e. (snd e, ?now)) (timeouts s (p # us))" by (simp add: s2_def entry_def comp_def)
    show ?thesis
    proof (cases "length us = 9")
      case True
      have "length ws < length xs" using xs zs by simp
      from less.hyps[OF this ok2(1)] obtain s' xs' fs'
        where IH: "run_timer_softirq record_call s2 = ret s'" "timers_ok xs' fs' s'"
          "calls s' = calls s2 @ map (\<lambda>e. (snd e, ?now)) (takeWhile (\<lambda>e. fst e \<le> ?now) (timeouts s ws))"
          "timeouts s' xs' = dropWhile (\<lambda>e. fst e \<le> ?now) (timeouts s ws)"
          "set xs' \<union> set fs' = set ws \<union> set (p # us @ fs)" unfolding ok2(2,3) by blast
      have "run_timer_softirq record_call s = ret s'" using run True IH(1) by simp
      moreover have "set xs' \<union> set fs' = set xs \<union> set fs" using IH(5) unfolding xs zs by auto
      moreover have "calls s' = calls s @ map (\<lambda>e. (snd e, ?now)) (takeWhile (\<lambda>e. fst e \<le> ?now) (timeouts s xs))"
        using IH(3) c2 unfolding pre(1) by simp
      ultimately show ?thesis using IH(2,4) unfolding pre(2) by blast
    next
      case False
      then have "us = takeWhile ?due zs" unfolding us_def by (cases "length (takeWhile ?due zs) \<le> 9") simp_all
      then have "us @ dropWhile ?due zs = us @ ws" using zs by (metis takeWhile_dropWhile_id)
      then have "ws = dropWhile ?due zs" by simp
      then have "takeWhile (\<lambda>e. fst e \<le> ?now) (timeouts s ws) = []" "dropWhile (\<lambda>e. fst e \<le> ?now) (timeouts s ws) = timeouts s ws"
        using hd_dropWhile[of ?due zs] by (simp_all add: takeWhile_map dropWhile_map comp_def takeWhile_eq_Nil_iff) blast
      then show ?thesis using run False c2 ok2 pre xs zs
        by (intro exI[of _ s2] exI[of _ ws] exI[of _ "p # us @ fs"]) auto
    qed
  qed
qed


text \<open>Timeouts at 103 and 105 of which the first is due.\<close>

definition demo_traced :: "nat traced" where
  "demo_traced = \<lparr>tm_free = Some 2, ptimer = Some 0,
     tnode = (\<lambda>p. if p = 0 then \<lparr>tc_next = Some 1, deadline = 103, callback = 7\<rparr>
                  else if p = 1 then \<lparr>tc_next = None, deadline = 105, callback = 8\<rparr>
                  else \<lparr>tc_next = None, deadline = 0, callback = 0\<rparr>), msec_count = 104, calls = []\<rparr>"


section \<open>The calendar\<close>

definition leap :: "nat \<Rightarrow> bool" where
  "leap y \<longleftrightarrow> 4 dvd y \<and> (\<not> 100 dvd y \<or> 400 dvd y)"

definition year_days :: "nat \<Rightarrow> nat" where
  "year_days y = (if leap y then 366 else 365)"

definition month_days :: "nat \<Rightarrow> nat \<Rightarrow> nat" where
  "month_days y m = (if m = 2 then if leap y then 29 else 28 else if m \<in> {4, 6, 9, 11} then 30 else 31)"

text \<open>Days and seconds since the start of 1970 in the Gregorian calendar.\<close>

definition days_since :: "nat \<Rightarrow> nat \<Rightarrow> nat \<Rightarrow> nat" where
  "days_since y m d = (\<Sum>k = 1970..<y. year_days k) + (\<Sum>k = 1..<m. month_days y k) + (d - 1)"

definition secs_since :: "nat \<Rightarrow> nat \<Rightarrow> nat \<Rightarrow> nat \<Rightarrow> nat \<Rightarrow> nat \<Rightarrow> nat" where
  "secs_since y m d h mi s = ((days_since y m d * 24 + h) * 60 + mi) * 60 + s"

text \<open>The days of the years up to \<open>y\<close>, as the code counts them.\<close>

definition cum_days :: "nat \<Rightarrow> nat" where
  "cum_days y = 365 * y + (y div 4 - y div 100 + y div 400)"

lemma cum_days_Suc: "cum_days (Suc y) = cum_days y + year_days (Suc y)"
proof -
  define a b c where "a \<longleftrightarrow> 4 dvd Suc y" and "b \<longleftrightarrow> 100 dvd Suc y" and "c \<longleftrightarrow> 400 dvd Suc y"
  have *: "Suc y div 4 = y div 4 + (if a then 1 else 0)" "Suc y div 100 = y div 100 + (if b then 1 else 0)"
    "Suc y div 400 = y div 400 + (if c then 1 else 0)"
    by (simp_all add: div_Suc mod_eq_0_iff_dvd a_def b_def c_def)
  have "y div 100 \<le> y div 4" by (intro div_le_mono2) simp_all
  then obtain t where t: "y div 4 = y div 100 + t" by (auto simp: le_iff_add)
  have "b \<Longrightarrow> a" "c \<Longrightarrow> b"
    using dvd_trans[of 4 100 "Suc y"] dvd_trans[of 100 400 "Suc y"] by (simp_all add: a_def b_def c_def)
  then show ?thesis
    unfolding cum_days_def year_days_def leap_def * t a_def[symmetric] b_def[symmetric] c_def[symmetric]
    by (cases a; cases b; cases c) simp_all
qed

lemma sum_year_days: "1970 \<le> y \<Longrightarrow> (\<Sum>k = 1970..<y. year_days k) + 719162 = cum_days (y - 1)"
proof (induction y rule: nat_induct_at_least)
  case base
  show ?case by (simp add: cum_days_def)
next
  case (Suc y)
  then show ?case using cum_days_Suc[of "y - 1"] by simp
qed

lemma month_days_step:
  assumes "3 \<le> m" "m < 12"
  shows "367 * (m - 2) div 12 + month_days y m = 367 * (m - 1) div 12"
proof -
  have "m = 3 \<or> m = 4 \<or> m = 5 \<or> m = 6 \<or> m = 7 \<or> m = 8 \<or> m = 9 \<or> m = 10 \<or> m = 11"
    using assms by presburger
  then show ?thesis by (elim disjE) (simp_all add: month_days_def)
qed

lemma month_sum_from_3:
  "3 \<le> m \<Longrightarrow> m \<le> 12 \<Longrightarrow>
    (\<Sum>k = 1..<m. month_days y k) = 367 * (m - 2) div 12 + 29 + (if leap y then 1 else 0)"
proof (induction m rule: nat_induct_at_least)
  case base
  have "{1..<3} = {1, 2 :: nat}" by auto
  then show ?case by (simp add: month_days_def)
next
  case (Suc m)
  have "(\<Sum>k = 1..<Suc m. month_days y k) = (\<Sum>k = 1..<m. month_days y k) + month_days y m"
    using Suc.hyps by (intro sum.atLeastLessThan_Suc) simp
  moreover have "Suc m - 2 = m - 1" by simp
  ultimately show ?case using Suc month_days_step[of m y] by (simp only:) simp
qed

lemma days_since_code:
  assumes "1970 \<le> y" "1 \<le> m" "m \<le> 12" "1 \<le> d"
  defines "y' \<equiv> if m \<le> 2 then y - 1 else y" and "m' \<equiv> if m \<le> 2 then m + 10 else m - 2"
  shows "days_since y m d + 719499 = (y' div 4 - y' div 100 + y' div 400 + 367 * m' div 12 + d) + 365 * y'"
proof -
  define L where "L z = z div 4 - z div 100 + z div 400" for z :: nat
  have cum: "cum_days z = 365 * z + L z" for z by (simp add: cum_days_def L_def)
  note y = sum_year_days[OF assms(1), unfolded cum]
  have "days_since y m d + 719499 = (L y' + 367 * m' div 12 + d) + 365 * y'"
  proof (cases "m \<le> 2")
    case True
    then have "m = 1 \<or> m = 2" using assms(2) by auto
    moreover have "(\<Sum>k = 1..<2. month_days y k) = 31" by (simp add: numeral_2_eq_2 month_days_def)
    ultimately show ?thesis using assms(4) y unfolding days_since_def y'_def m'_def
      by (elim disjE) (simp_all only:, simp_all)
  next
    case False
    then have m: "3 \<le> m" by simp
    have "365 * (y - 1) + L (y - 1) + year_days y = 365 * y + L y"
      using cum_days_Suc[of "y - 1"] assms(1) unfolding cum by simp
    moreover have ym: "y' = y" "m' = m - 2" using False by (simp_all add: y'_def m'_def)
    moreover have "year_days y = 365 + (if leap y then 1 else 0)" by (simp add: year_days_def)
    ultimately show ?thesis using assms(4) y month_sum_from_3[OF m assms(3), of y] unfolding days_since_def ym by linarith
  qed
  then show ?thesis unfolding L_def .
qed

lemma of_nat_div32:
  "a < 2 ^ 32 \<Longrightarrow> b < 2 ^ 32 \<Longrightarrow> (of_nat a :: u32) div of_nat b = of_nat (a div b)"
  by (rule word_unat_eq_iff[THEN iffD2]) (simp add: unat_div unat_of_nat less_imp_diff_less order_le_less_trans[OF div_le_dividend])

lemma ucast_of_nat32: "a < 2 ^ 32 \<Longrightarrow> (ucast (of_nat a :: u32) :: u64) = of_nat a"
  by (rule word_unat_eq_iff[THEN iffD2]) (simp add: unsigned_ucast_eq unat_of_nat take_bit_nat_eq_self)

lemma sint_small: "0 < k \<Longrightarrow> k < 1000 \<Longrightarrow> 0 < sint (of_nat k :: u32)"
  by (simp add: signed_of_nat signed_take_bit_int_eq_self)

lemma mktime64_days:
  assumes "1970 \<le> y" "y \<le> 10000000" "1 \<le> m" "m \<le> 12" "1 \<le> d" "d \<le> 31"
    and "h < 2 ^ 32" "mi < 2 ^ 32" "s < 2 ^ 32"
  shows "mktime64 (of_nat y) (of_nat m) (of_nat d) (of_nat h) (of_nat mi) (of_nat s) = of_nat (secs_since y m d h mi s)"
proof -
  define y' m' where "y' = (if m \<le> 2 then y - 1 else y)" and "m' = (if m \<le> 2 then m + 10 else m - 2)"
  have le: "y' div 100 \<le> y' div 4" "y' \<le> 10000000" "m' \<le> 12"
    using assms(2,4) by (auto simp: y'_def m'_def intro: div_le_mono2)
  have ym: "(let mon = (of_nat m :: u32) - 2 in if sint mon \<le> 0 then (mon + 12, of_nat y - 1) else (mon, of_nat y))
      = (of_nat m' :: u32, of_nat y' :: u32)"
  proof (cases "m \<le> 2")
    case True
    then have "m = 1 \<or> m = 2" using assms(3) by auto
    moreover have "(of_nat y :: u32) - 1 = of_nat (y - 1)" using assms(1) by (simp add: of_nat_diff)
    ultimately show ?thesis by (elim disjE) (simp_all add: y'_def m'_def)
  next
    case False
    then obtain k where k: "m = k + 2" "0 < k" "k < 1000" using assms(4) by (intro that[of "m - 2"]) simp_all
    then have "(of_nat m :: u32) - 2 = of_nat k" by simp
    with sint_small[OF k(2,3)] k(1,2) show ?thesis by (simp add: y'_def m'_def)
  qed
  define N where "N = y' div 4 - y' div 100 + y' div 400 + 367 * m' div 12 + d"
  have b: "y' div 4 \<le> 2500000" "y' div 400 \<le> 25000" "367 * m' div 12 \<le> 367"
    using div_le_mono[OF le(2), of 4] div_le_mono[OF le(2), of 400] le(3) by simp_all
  have q: "(of_nat y' :: u32) div 4 = of_nat (y' div 4)" "(of_nat y' :: u32) div 100 = of_nat (y' div 100)"
    "(of_nat y' :: u32) div 400 = of_nat (y' div 400)" "367 * (of_nat m' :: u32) div 12 = of_nat (367 * m' div 12)"
    using le of_nat_div32[of y' 4] of_nat_div32[of y' 100] of_nat_div32[of y' 400] of_nat_div32[of "367 * m'" 12] by simp_all
  have n: "(of_nat y' :: u32) div 4 - of_nat y' div 100 + of_nat y' div 400 + 367 * of_nat m' div 12 + of_nat d = of_nat N"
    unfolding q N_def using le(1) by (simp add: of_nat_diff)
  have nb: "N < 2 ^ 32" unfolding N_def using b assms(6) by simp
  have c: "ucast (of_nat N :: u32) = (of_nat N :: u64)" "ucast (of_nat y' * 365 :: u32) = (of_nat (365 * y') :: u64)"
    using ucast_of_nat32[OF nb] ucast_of_nat32[of "y' * 365"] le(2) by (simp_all add: mult.commute)
  have "N + 365 * y' = days_since y m d + 719499"
    unfolding N_def y'_def m'_def by (rule days_since_code[OF assms(1,3,4,5), symmetric])
  then have dd: "(of_nat N + of_nat (365 * y') - 719499 :: u64) = of_nat (days_since y m d)"
    by (metis add_diff_cancel_right' of_nat_add of_nat_numeral)
  show ?thesis
    unfolding mktime64_def using ym assms(7-9) by (simp only: Let_def prod.case n c dd ucast_of_nat32) (simp add: secs_since_def)
qed

text \<open>
  C14. \<^verbatim>\<open>mktime64\<close> gives the seconds from the start of 1970 to a date and time of the Gregorian
  calendar, leap years included, for every year from 1970 to 10000000.
\<close>

theorem mktime64_calendar:
  assumes "1970 \<le> y" "y \<le> 10000000" "1 \<le> m" "m \<le> 12" "1 \<le> d" "d \<le> 31" "h < 24" "mi < 60" "s < 60"
  shows "mktime64 (of_nat y) (of_nat m) (of_nat d) (of_nat h) (of_nat mi) (of_nat s) = of_nat (secs_since y m d h mi s)"
  using assms by (intro mktime64_days) simp_all

theorem mktime64_calendar_witness:
  "mktime64 1970 3 1 0 0 5 = 5097605 \<and> secs_since 1970 3 1 0 0 5 = 5097605"
proof -
  have s: "secs_since 1970 3 1 0 0 5 = 5097605"
    by (simp add: secs_since_def days_since_def month_sum_from_3[simplified] leap_def)
  from mktime64_calendar[of 1970 3 1 0 0 5] s show ?thesis by simp
qed

section \<open>Reading the clock\<close>

text \<open>The two decimal digits of a number below 100, as the clock stores them.\<close>

definition to_bcd :: "nat \<Rightarrow> u32" where
  "to_bcd n = of_nat (n div 10 * 16 + n mod 10)"

lemma bcd_conv_to_bcd: "n < 100 \<Longrightarrow> bcd_conv (to_bcd n) = of_nat n"
proof -
  assume "n < 100"
  then have b: "n div 10 * 16 + n mod 10 < 2 ^ 32" and d: "n mod 10 < 16" by simp_all
  have u: "unat (to_bcd n) = n div 10 * 16 + n mod 10" using b by (simp add: to_bcd_def unat_of_nat del: of_nat_add of_nat_mult)
  have "drop_bit 4 (to_bcd n) = of_nat (n div 10)"
    using \<open>n < 100\<close> d by (intro word_unat_eq_iff[THEN iffD2]) (simp add: unat_drop_bit_eq drop_bit_eq_div unat_div u unat_of_nat)
  moreover have "to_bcd n AND 0xf = of_nat (n mod 10)"
    using unat_and_mask[of "to_bcd n" 4] d by (intro word_unat_eq_iff[THEN iffD2]) (simp add: mask_eq_exp_minus_1 u unat_of_nat)
  moreover have "of_nat (n div 10) * 10 + of_nat (n mod 10) = (of_nat n :: u32)"
    by (metis div_mult_mod_eq of_nat_add of_nat_mult of_nat_numeral)
  ultimately show ?thesis by (simp add: bcd_conv_def)
qed

text \<open>A clock whose registers hold one date in decimal digits and that is not updating them.\<close>

definition clock_at :: "cmos \<Rightarrow> nat \<Rightarrow> nat \<Rightarrow> nat \<Rightarrow> nat \<Rightarrow> nat \<Rightarrow> nat \<Rightarrow> bool" where
  "clock_at cmos y m d h mi s \<longleftrightarrow> (\<forall>n. cmos n 0x00 = to_bcd s \<and> cmos n 0x02 = to_bcd mi \<and> cmos n 0x04 = to_bcd h
     \<and> cmos n 0x07 = to_bcd d \<and> cmos n 0x08 = to_bcd m \<and> cmos n 0x09 = to_bcd y
     \<and> cmos n 0x0a AND push_bit 7 1 = 0 \<and> cmos n 0x0b AND push_bit 2 1 = 0)"

lemma init_time_clock:
  assumes "clock_at cmos y m d h mi s" "y < 100" "1 \<le> m" "m \<le> 12" "1 \<le> d" "d \<le> 31" "h < 24" "mi < 60" "s < 60"
  shows "init_time cmos n = Some (of_nat (secs_since (2000 + y) m d h mi s), n + 14)"
proof -
  define t where "t = \<lparr>second = to_bcd s, minute = to_bcd mi, hour = to_bcd h, day = to_bcd d, month = to_bcd m, year = to_bcd y\<rparr>"
  have "fill_rtcdate cmos k = t" for k using assms(1) by (simp add: fill_rtcdate_def clock_at_def t_def)
  moreover have b: "cmos k 0x0a AND push_bit 7 1 = 0" "cmos k 0x0b AND push_bit 2 1 = 0" for k
    using assms(1) unfolding clock_at_def by blast+
  ultimately have "cmos_stable cmos k = Some (t, k + 13)" for k
    by (subst cmos_stable.simps) (simp_all only: Let_def simp_thms if_True if_False)
  then have "cmostime cmos n = Some (\<lparr>second = of_nat s, minute = of_nat mi, hour = of_nat h, day = of_nat d,
      month = of_nat m, year = of_nat (2000 + y)\<rparr>, n + 14)"
    using assms(2-9) by (simp add: cmostime_def b(2)[of n, simplified] bcd_conv_to_bcd t_def Let_def add.commute)
  moreover have "mktime64 (of_nat (2000 + y)) (of_nat m) (of_nat d) (of_nat h) (of_nat mi) (of_nat s)
      = of_nat (secs_since (2000 + y) m d h mi s)" using assms(2-9) by (intro mktime64_days) simp_all
  ultimately show ?thesis by (simp add: init_time_def)
qed

text \<open>
  From a clock that holds a date of this century in decimal digits and is not in the middle of an
  update, \<^verbatim>\<open>init_time\<close> returns after 14 reads of its registers and the start time of the system is the
  number of seconds since the start of 1970.
\<close>

theorem init_time_epoch:
  assumes "clock_at cmos y m d h mi s" "y < 100" "1 \<le> m" "m \<le> 12" "1 \<le> d" "d \<le> 31" "h < 24" "mi < 60" "s < 60"
  shows "init_time cmos n = Some (of_nat (secs_since (2000 + y) m d h mi s), n + 14)"
  using assms by (rule init_time_clock)

definition demo_cmos :: cmos where
  "demo_cmos n reg = (if reg = 9 then 0x15 else if reg \<in> {7, 8} then 0x12 else 0)"

theorem init_time_epoch_witness:
  "clock_at demo_cmos 15 12 12 0 0 0 \<and> init_time demo_cmos 0 = Some (of_nat (secs_since 2015 12 12 0 0 0), 14)"
proof -
  have "clock_at demo_cmos 15 12 12 0 0 0" by (simp add: clock_at_def demo_cmos_def to_bcd_def)
  with init_time_epoch[of demo_cmos 15 12 12 0 0 0 0] show ?thesis by simp
qed

end
