(* ===== verification/Tasklet.thy ===== *)
theory Tasklet
  imports Bitops
begin

text \<open>
  Softirqs and tasklets: kernel/tasklet.c and include/yaos/tasklet.h, as one processor runs them. The
  softirq handlers, the tasklet functions and the wake-up of the tasklet thread are parameters. A list of
  tasklets has a head and a pointer to the field where the next tasklet will be written, which is the
  head itself or the next field of the last tasklet. The theory proves that softirqs are handled in
  order of their number and a bounded number of times, and that the lists are first in, first out.
\<close>

section \<open>State\<close>

definition HI_SOFTIRQ :: nat where "HI_SOFTIRQ = 0"
definition TIMER_SOFTIRQ :: nat where "TIMER_SOFTIRQ = 1"
definition TASKLET_SOFTIRQ :: nat where "TASKLET_SOFTIRQ = 6"
definition NR_SOFTIRQS :: nat where "NR_SOFTIRQS = 10"
definition TASKLET_STATE_SCHED :: nat where "TASKLET_STATE_SCHED = 0"
definition TASKLET_STATE_RUN :: nat where "TASKLET_STATE_RUN = 1"
definition MAX_SOFTIRQ_TIME :: u64 where "MAX_SOFTIRQ_TIME = 2"
definition MAX_SOFTIRQ_RESTART :: nat where "MAX_SOFTIRQ_RESTART = 10"

record 'f tasklet_struct =
  tk_next :: "nat option"
  tk_state :: u64
  tk_count :: u64
  tk_func :: 'f
  tk_data :: u64

datatype tail = At_head | At_next nat

record tasklet_head =
  head :: "nat option"
  tail :: tail

record 'f softirqs =
  softirq_pending :: u32
  tasklet_count :: u32
  irqs_disabled :: bool
  tasklet_vec :: tasklet_head
  tasklet_hi_vec :: tasklet_head
  tk :: "nat \<Rightarrow> 'f tasklet_struct"
  now_msec :: u64

type_synonym ('f, 'z) action = "('f, 'z) softirqs_scheme \<Rightarrow> ('f, 'z) softirqs_scheme kres"

section \<open>Softirqs\<close>

definition in_tasklet :: "('f, 'z) softirqs_scheme \<Rightarrow> bool" where
  "in_tasklet s \<longleftrightarrow> sint (tasklet_count s) \<ge> 0"

definition disable_tasklet :: "('f, 'z) softirqs_scheme \<Rightarrow> ('f, 'z) softirqs_scheme" where
  "disable_tasklet s = s\<lparr>tasklet_count := tasklet_count s + 1\<rparr>"

definition enable_tasklet :: "('f, 'z) softirqs_scheme \<Rightarrow> ('f, 'z) softirqs_scheme" where
  "enable_tasklet s = s\<lparr>tasklet_count := tasklet_count s - 1\<rparr>"

text \<open>\<^verbatim>\<open>__raise_softirq_irqoff\<close>: the mask is a 64-bit value or-ed into a 32-bit field.\<close>

definition do_raise_softirq :: "nat \<Rightarrow> ('f, 'z) softirqs_scheme \<Rightarrow> ('f, 'z) softirqs_scheme" where
  "do_raise_softirq nr s = s\<lparr>softirq_pending := softirq_pending s OR ucast (push_bit nr (1 :: u64))\<rparr>"

text \<open>\<open>wake\<close> is \<^verbatim>\<open>wakeup_taskletd\<close>: what waking the tasklet thread of this processor does.\<close>

definition raise_softirq_irqoff :: "('f, 'z) action \<Rightarrow> nat \<Rightarrow> ('f, 'z) action" where
  "raise_softirq_irqoff wake nr s =
     (let s = do_raise_softirq nr s in if \<not> in_tasklet s then wake s else ret s)"

definition raise_softirq :: "('f, 'z) action \<Rightarrow> nat \<Rightarrow> ('f, 'z) action" where
  "raise_softirq wake nr s =
     kbind (raise_softirq_irqoff wake nr (s\<lparr>irqs_disabled := True\<rparr>)) (\<lambda>s'.
       ret (s'\<lparr>irqs_disabled := irqs_disabled s\<rparr>))"

definition open_softirq :: "nat \<Rightarrow> ('f, 'z) action \<Rightarrow> ('f, 'z) action option list \<Rightarrow> ('f, 'z) action option list kres" where
  "open_softirq nr act vec = aset vec nr (Some act)"

text \<open>
  The loop over the pending bits: \<open>h\<close> indexes \<^verbatim>\<open>softirq_vec\<close>. Calling an entry that was never opened
  jumps to the null address.
\<close>

function run_pending :: "('f, 'z) action option list \<Rightarrow> nat \<Rightarrow> u32 \<Rightarrow> ('f, 'z) action" where
  "run_pending vec h pending s =
     (if ffs pending = 0 then ret s
      else let b = nat (ffs pending); h = h + b - 1 in
        kbind (aget vec h) (\<lambda>act.
          case act of
            None \<Rightarrow> halt (Wild ''null softirq action'')
          | Some f \<Rightarrow> kbind (f s) (run_pending vec (h + 1) (drop_bit b pending))))"
  by pat_completeness auto
termination
proof (relation "measure (\<lambda>(vec, h, pending, s). unat pending)", simp, goal_cases)
  case (1 vec h pending s b h' act f s')
  then have "pending \<noteq> 0" "0 < b" using ffs_nonneg[of pending] ffs_zero_iff[of pending] by linarith+
  then have "0 < unat pending" "2 \<le> (2 :: nat) ^ b" using power_increasing[of 1 b "2 :: nat"] by (simp_all add: unat_gt_0)
  then have "unat pending div 2 ^ b < unat pending" by (intro div_less_dividend) simp_all
  moreover have "unat (drop_bit b pending) = unat pending div 2 ^ b"
    by (simp only: unat_drop_bit_eq) (simp add: drop_bit_eq_div)
  ultimately show ?case by (simp only: in_measure prod.case)
qed

text \<open>
  One pass and its repetition: \<open>max_restart\<close> counts down, and with bits still pending at the end the
  tasklet thread is woken.
\<close>

fun softirq_restart :: "('f, 'z) action option list \<Rightarrow> ('f, 'z) action \<Rightarrow> u64 \<Rightarrow> nat \<Rightarrow> u32 \<Rightarrow> ('f, 'z) action" where
  "softirq_restart vec wake fin 0 pending s = halt (Wild ''restart count'')"
| "softirq_restart vec wake fin (Suc max_restart) pending s =
     kbind (run_pending vec 0 pending (s\<lparr>softirq_pending := 0, irqs_disabled := False\<rparr>)) (\<lambda>s.
       let s = s\<lparr>irqs_disabled := True\<rparr>; pending = softirq_pending s in
       if pending \<noteq> 0
       then if now_msec s < fin \<and> max_restart \<noteq> 0 then softirq_restart vec wake fin max_restart pending s else wake s
       else ret s)"

definition do_softirq_now :: "('f, 'z) action option list \<Rightarrow> ('f, 'z) action \<Rightarrow> ('f, 'z) action" where
  "do_softirq_now vec wake s =
     kbind (softirq_restart vec wake (now_msec s + MAX_SOFTIRQ_TIME) MAX_SOFTIRQ_RESTART (softirq_pending s)
             (disable_tasklet s)) (\<lambda>s. ret (enable_tasklet s))"

definition irq_exit :: "('f, 'z) action option list \<Rightarrow> ('f, 'z) action \<Rightarrow> ('f, 'z) action" where
  "irq_exit vec wake s =
     (let s = s\<lparr>irqs_disabled := True\<rparr> in
      if \<not> in_tasklet s \<and> softirq_pending s \<noteq> 0 then do_softirq_now vec wake s else ret s)"

text \<open>\<^verbatim>\<open>do_softirq_own_stack\<close> switches the stack and calls \<^verbatim>\<open>__do_softirq\<close>.\<close>

definition do_softirq :: "('f, 'z) action option list \<Rightarrow> ('f, 'z) action \<Rightarrow> ('f, 'z) action" where
  "do_softirq vec wake s =
     (if in_tasklet s then ret s
      else kbind (if softirq_pending s \<noteq> 0 then do_softirq_now vec wake (s\<lparr>irqs_disabled := True\<rparr>)
                  else ret (s\<lparr>irqs_disabled := True\<rparr>))
             (\<lambda>s'. ret (s'\<lparr>irqs_disabled := irqs_disabled s\<rparr>)))"

definition run_ksoftirqd :: "('f, 'z) action option list \<Rightarrow> ('f, 'z) action \<Rightarrow> ('f, 'z) action" where
  "run_ksoftirqd vec wake s =
     (let s = s\<lparr>irqs_disabled := True\<rparr> in
      kbind (if softirq_pending s \<noteq> 0 then do_softirq_now vec wake s else ret s) (\<lambda>s. ret (s\<lparr>irqs_disabled := False\<rparr>)))"

section \<open>Tasklets\<close>

definition upd_tk :: "nat \<Rightarrow> ('f tasklet_struct \<Rightarrow> 'f tasklet_struct) \<Rightarrow> ('f, 'z) softirqs_scheme \<Rightarrow> ('f, 'z) softirqs_scheme" where
  "upd_tk t f s = s\<lparr>tk := (tk s)(t := f (tk s t))\<rparr>"

definition tasklet_init :: "nat \<Rightarrow> 'f \<Rightarrow> u64 \<Rightarrow> ('f, 'z) softirqs_scheme \<Rightarrow> ('f, 'z) softirqs_scheme" where
  "tasklet_init t fn dat s =
     upd_tk t (\<lambda>_. \<lparr>tk_next = None, tk_state = 0, tk_count = 0, tk_func = fn, tk_data = dat\<rparr>) s"

text \<open>The result and the state after \<^verbatim>\<open>test_and_set_bit\<close> and \<^verbatim>\<open>test_and_clear_bit\<close> on the state word.\<close>

definition state_test_set :: "nat \<Rightarrow> nat \<Rightarrow> ('f, 'z) softirqs_scheme \<Rightarrow> bool \<times> ('f, 'z) softirqs_scheme" where
  "state_test_set nr t s = (bit (tk_state (tk s t)) nr, upd_tk t (tk_state_update (Bit_Operations.set_bit nr)) s)"

definition state_test_clear :: "nat \<Rightarrow> nat \<Rightarrow> ('f, 'z) softirqs_scheme \<Rightarrow> bool \<times> ('f, 'z) softirqs_scheme" where
  "state_test_clear nr t s = (bit (tk_state (tk s t)) nr, upd_tk t (tk_state_update (Bit_Operations.unset_bit nr)) s)"

definition tasklet_trylock :: "nat \<Rightarrow> ('f, 'z) softirqs_scheme \<Rightarrow> bool \<times> ('f, 'z) softirqs_scheme" where
  "tasklet_trylock t s = (let (old, s) = state_test_set TASKLET_STATE_RUN t s in (\<not> old, s))"

definition tasklet_unlock :: "nat \<Rightarrow> ('f, 'z) softirqs_scheme \<Rightarrow> ('f, 'z) softirqs_scheme" where
  "tasklet_unlock t s = upd_tk t (tk_state_update (Bit_Operations.unset_bit TASKLET_STATE_RUN)) s"

text \<open>Waits while the tasklet runs; on one processor nothing changes meanwhile, so it returns at once or never.\<close>

definition tasklet_unlock_wait :: "nat \<Rightarrow> ('f, 'z) action" where
  "tasklet_unlock_wait t s = (if bit (tk_state (tk s t)) TASKLET_STATE_RUN then None else ret s)"

definition tasklet_disable_nosync :: "nat \<Rightarrow> ('f, 'z) softirqs_scheme \<Rightarrow> ('f, 'z) softirqs_scheme" where
  "tasklet_disable_nosync t s = upd_tk t (tk_count_update (\<lambda>c. c + 1)) s"

definition tasklet_disable :: "nat \<Rightarrow> ('f, 'z) action" where
  "tasklet_disable t s = tasklet_unlock_wait t (tasklet_disable_nosync t s)"

definition tasklet_enable :: "nat \<Rightarrow> ('f, 'z) softirqs_scheme \<Rightarrow> ('f, 'z) softirqs_scheme" where
  "tasklet_enable t s = upd_tk t (tk_count_update (\<lambda>c. c - 1)) s"

text \<open>
  \<^verbatim>\<open>t->next = NULL; *tail = t; tail = &(t->next)\<close> on the list that \<open>get\<close> and \<open>put\<close> select.
\<close>

definition append_tasklet ::
  "(('f, 'z) softirqs_scheme \<Rightarrow> tasklet_head) \<Rightarrow> ((tasklet_head \<Rightarrow> tasklet_head) \<Rightarrow> ('f, 'z) softirqs_scheme \<Rightarrow> ('f, 'z) softirqs_scheme)
   \<Rightarrow> nat \<Rightarrow> ('f, 'z) softirqs_scheme \<Rightarrow> ('f, 'z) softirqs_scheme" where
  "append_tasklet get put t s =
     (let s = upd_tk t (tk_next_update (\<lambda>_. None)) s;
          s = (case tail (get s) of
                 At_head \<Rightarrow> put (head_update (\<lambda>_. Some t)) s
               | At_next q \<Rightarrow> upd_tk q (tk_next_update (\<lambda>_. Some t)) s)
      in put (tail_update (\<lambda>_. At_next t)) s)"

definition do_tasklet_schedule :: "('f, 'z) action \<Rightarrow> nat \<Rightarrow> ('f, 'z) action" where
  "do_tasklet_schedule wake t s =
     kbind (raise_softirq_irqoff wake TASKLET_SOFTIRQ
             (append_tasklet tasklet_vec tasklet_vec_update t (s\<lparr>irqs_disabled := True\<rparr>))) (\<lambda>s'.
       ret (s'\<lparr>irqs_disabled := irqs_disabled s\<rparr>))"

definition do_tasklet_hi_schedule :: "('f, 'z) action \<Rightarrow> nat \<Rightarrow> ('f, 'z) action" where
  "do_tasklet_hi_schedule wake t s =
     kbind (raise_softirq_irqoff wake HI_SOFTIRQ
             (append_tasklet tasklet_hi_vec tasklet_hi_vec_update t (s\<lparr>irqs_disabled := True\<rparr>))) (\<lambda>s'.
       ret (s'\<lparr>irqs_disabled := irqs_disabled s\<rparr>))"

definition do_tasklet_hi_schedule_first :: "nat \<Rightarrow> ('f, 'z) action" where
  "do_tasklet_hi_schedule_first t s =
     kbind (kassert (irqs_disabled s) ''irqs_disabled'') (\<lambda>_.
       let s = upd_tk t (tk_next_update (\<lambda>_. head (tasklet_hi_vec s))) s;
           s = tasklet_hi_vec_update (head_update (\<lambda>_. Some t)) s
       in ret (do_raise_softirq HI_SOFTIRQ s))"

definition tasklet_schedule :: "('f, 'z) action \<Rightarrow> nat \<Rightarrow> ('f, 'z) action" where
  "tasklet_schedule wake t s =
     (let (old, s) = state_test_set TASKLET_STATE_SCHED t s in if \<not> old then do_tasklet_schedule wake t s else ret s)"

definition tasklet_hi_schedule :: "('f, 'z) action \<Rightarrow> nat \<Rightarrow> ('f, 'z) action" where
  "tasklet_hi_schedule wake t s =
     (let (old, s) = state_test_set TASKLET_STATE_SCHED t s in if \<not> old then do_tasklet_hi_schedule wake t s else ret s)"

definition tasklet_hi_schedule_first :: "nat \<Rightarrow> ('f, 'z) action" where
  "tasklet_hi_schedule_first t s =
     (let (old, s) = state_test_set TASKLET_STATE_SCHED t s in if \<not> old then do_tasklet_hi_schedule_first t s else ret s)"

text \<open>
  The loop of \<^verbatim>\<open>tasklet_action\<close> and \<^verbatim>\<open>tasklet_hi_action\<close> over the list taken off the processor; \<open>call\<close> runs
  a tasklet function on its data.
\<close>

partial_function (option) tasklet_loop ::
  "('f \<Rightarrow> u64 \<Rightarrow> ('f, 'z) action) \<Rightarrow> (('f, 'z) softirqs_scheme \<Rightarrow> tasklet_head)
   \<Rightarrow> ((tasklet_head \<Rightarrow> tasklet_head) \<Rightarrow> ('f, 'z) softirqs_scheme \<Rightarrow> ('f, 'z) softirqs_scheme) \<Rightarrow> nat
   \<Rightarrow> nat option \<Rightarrow> ('f, 'z) softirqs_scheme \<Rightarrow> ('f, 'z) softirqs_scheme kres" where
  "tasklet_loop call get put nr l s =
     (case l of
        None \<Rightarrow> ret s
      | Some t \<Rightarrow>
          let l = tk_next (tk s t);
              requeue = (\<lambda>s. do_raise_softirq nr (append_tasklet get put t (s\<lparr>irqs_disabled := True\<rparr>))\<lparr>irqs_disabled := False\<rparr>)
          in case tasklet_trylock t s of (got, s) \<Rightarrow>
            if got then
              if tk_count (tk s t) = 0 then
                case state_test_clear TASKLET_STATE_SCHED t s of (sched, s) \<Rightarrow>
                  if \<not> sched then halt (Assertion ''tasklet not scheduled'')
                  else kbind (call (tk_func (tk s t)) (tk_data (tk s t)) s) (\<lambda>s.
                    tasklet_loop call get put nr l (tasklet_unlock t s))
              else tasklet_loop call get put nr l (requeue (tasklet_unlock t s))
            else tasklet_loop call get put nr l (requeue s))"

definition take_list ::
  "(('f, 'z) softirqs_scheme \<Rightarrow> tasklet_head) \<Rightarrow> ((tasklet_head \<Rightarrow> tasklet_head) \<Rightarrow> ('f, 'z) softirqs_scheme \<Rightarrow> ('f, 'z) softirqs_scheme)
   \<Rightarrow> ('f, 'z) softirqs_scheme \<Rightarrow> nat option \<times> ('f, 'z) softirqs_scheme" where
  "take_list get put s = (head (get s), put (\<lambda>_. \<lparr>head = None, tail = At_head\<rparr>) (s\<lparr>irqs_disabled := False\<rparr>))"

definition tasklet_action :: "('f \<Rightarrow> u64 \<Rightarrow> ('f, 'z) action) \<Rightarrow> ('f, 'z) action" where
  "tasklet_action call s =
     (let (l, s) = take_list tasklet_vec tasklet_vec_update s
      in tasklet_loop call tasklet_vec tasklet_vec_update TASKLET_SOFTIRQ l s)"

definition tasklet_hi_action :: "('f \<Rightarrow> u64 \<Rightarrow> ('f, 'z) action) \<Rightarrow> ('f, 'z) action" where
  "tasklet_hi_action call s =
     (let (l, s) = take_list tasklet_hi_vec tasklet_hi_vec_update s
      in tasklet_loop call tasklet_hi_vec tasklet_hi_vec_update HI_SOFTIRQ l s)"

text \<open>The lists and handlers of a processor after \<^verbatim>\<open>softirq_init\<close> on the boot processor.\<close>

definition softirq_init :: "('f \<Rightarrow> u64 \<Rightarrow> ('f, 'z) action) \<Rightarrow> ('f, 'z) action option list \<Rightarrow> ('f, 'z) softirqs_scheme
    \<Rightarrow> (('f, 'z) action option list \<times> ('f, 'z) softirqs_scheme) kres" where
  "softirq_init call vec s =
     kbind (open_softirq TASKLET_SOFTIRQ (tasklet_action call) vec) (\<lambda>vec.
       kbind (open_softirq HI_SOFTIRQ (tasklet_hi_action call) vec) (\<lambda>vec.
         ret (vec, s\<lparr>tasklet_vec := (tasklet_vec s)\<lparr>tail := At_head\<rparr>, tasklet_hi_vec := (tasklet_hi_vec s)\<lparr>tail := At_head\<rparr>\<rparr>)))"

section \<open>The order of the handlers\<close>

declare run_pending.simps [simp del]

text \<open>The handlers with the given numbers, one after the other.\<close>

fun run_actions :: "('f, 'z) action option list \<Rightarrow> nat list \<Rightarrow> ('f, 'z) action" where
  "run_actions vec [] s = ret s"
| "run_actions vec (i # is) s =
     kbind (aget vec i) (\<lambda>act.
       case act of None \<Rightarrow> halt (Wild ''null softirq action'') | Some f \<Rightarrow> kbind (f s) (run_actions vec is))"

lemma lowest_bit_first:
  assumes "ffs p = int i + 1"
  shows "filter (bit p) [0..<32] = i # map (\<lambda>k. Suc i + k) (filter (bit (drop_bit (Suc i) p)) [0..<32])"
proof (rule sorted_distinct_set_unique)
  have low: "bit p i" "\<forall>j<i. \<not> bit p j" using assms by (simp_all add: ffs_Suc)
  have "j \<in> set (i # map (\<lambda>k. Suc i + k) (filter (bit (drop_bit (Suc i) p)) [0..<32])) \<longleftrightarrow> bit p j" for j
  proof -
    have "j \<in> (\<lambda>k. Suc i + k) ` {k. k < 32 \<and> bit p (Suc i + k)} \<longleftrightarrow> Suc i \<le> j \<and> bit p j"
      using bit_imp_le_length[of p j] by (auto simp: image_iff le_iff_add)
    then show ?thesis using low by (auto simp: bit_drop_bit_eq not_less_eq_eq intro: le_neq_implies_less)
  qed
  moreover have "j \<in> set (filter (bit p) [0..<32]) \<longleftrightarrow> bit p j" for j using bit_imp_le_length[of p j] by auto
  ultimately show "set (filter (bit p) [0..<32]) = set (i # map (\<lambda>k. Suc i + k) (filter (bit (drop_bit (Suc i) p)) [0..<32]))"
    by blast
qed (auto simp: sorted_wrt_filter sorted_map sorted_filter[where f = "\<lambda>x. x", simplified] distinct_map inj_on_def)

lemma run_pending_actions:
  "run_pending vec h p s = run_actions vec (map (\<lambda>k. h + k) (filter (bit p) [0..<32])) s"
proof (induction vec h p s rule: run_pending.induct)
  case (1 vec h p s)
  show ?case
  proof (cases "ffs p = 0")
    case True
    then show ?thesis by (subst run_pending.simps) simp
  next
    case False
    then obtain i where i: "ffs p = int i + 1" using ffs_nonneg[of p] by (metis add.commute nat_0_le zero_less_imp_eq_int order_le_neq_trans of_nat_Suc Suc_pred)
    have "run_pending vec (Suc (h + i)) (drop_bit (Suc i) p) s' =
        run_actions vec (map (\<lambda>k. Suc (h + i) + k) (filter (bit (drop_bit (Suc i) p)) [0..<32])) s'"
      if "aget vec (h + i) = ret (Some f)" "f s = ret s'" for f s'
      using "1.IH"[OF False, of "Suc i" "h + i" "Some f" f s'] that i by (simp add: nat_add_distrib)
    then show ?thesis unfolding lowest_bit_first[OF i] using False i
      by (subst run_pending.simps) (auto simp: nat_add_distrib Let_def comp_def add.assoc intro!: kbind_cong split: option.split)
  qed
qed

text \<open>
  One pass over the pending softirqs runs the handler of every set bit exactly once, in the order of
  their numbers, whatever the handlers do to the state; a bit with no handler stops the machine there.
\<close>

theorem softirq_order: "run_pending vec 0 p s = run_actions vec (filter (bit p) [0..<32]) s"
  by (simp add: run_pending_actions)

lemma run_actions_returns:
  assumes "\<forall>f. Some f \<in> set vec \<longrightarrow> (\<forall>s. f s \<noteq> None)"
  shows "run_actions vec is s \<noteq> None"
proof (induction "is" arbitrary: s)
  case (Cons i "is")
  show ?case
  proof (cases "i < length vec")
    case True
    show ?thesis
    proof (cases "vec ! i")
      case (Some f)
      with True assms have "f s \<noteq> None" by (metis nth_mem)
      then show ?thesis using True Some Cons by (cases "f s" rule: kres_cases) auto
    qed (use True in simp)
  qed (simp add: aget_def)
qed simp

lemma softirq_restart_returns:
  assumes "\<forall>f. Some f \<in> set vec \<longrightarrow> (\<forall>s. f s \<noteq> None)" "\<forall>s. wake s \<noteq> None"
  shows "softirq_restart vec wake fin n pending s \<noteq> None"
proof (induction n arbitrary: pending s)
  case (Suc n)
  let ?r = "run_pending vec 0 pending (s\<lparr>softirq_pending := 0, irqs_disabled := False\<rparr>)"
  have "?r \<noteq> None" unfolding run_pending_actions using run_actions_returns[OF assms(1)] by blast
  then show ?case using Suc assms(2) by (cases ?r rule: kres_cases) (auto simp: Let_def)
qed simp



section \<open>The lists of tasklets\<close>

text \<open>The next field, as the function that chains follow.\<close>

definition tknx :: "(nat \<Rightarrow> 'f tasklet_struct) \<Rightarrow> nat \<Rightarrow> nat option" where
  "tknx m t = tk_next (m t)"

text \<open>The list with head and tail \<open>l\<close> holds the tasklets \<open>xs\<close>, first to last.\<close>

definition queue_ok :: "(nat \<Rightarrow> 'f tasklet_struct) \<Rightarrow> nat list \<Rightarrow> tasklet_head \<Rightarrow> bool" where
  "queue_ok m xs l \<longleftrightarrow> chain (tknx m) (head l) xs \<and> tail l = (if xs = [] then At_head else At_next (last xs))"

lemma tknx_other [simp]:
  "tknx (m(t := tk_state_update f (m t))) = tknx m"
  "tknx (m(t := tk_next_update (\<lambda>_. q) (m t))) = (tknx m)(t := q)"
  by (auto simp: tknx_def fun_eq_iff)

lemma queue_ok_cong: "tknx m = tknx m' \<Longrightarrow> queue_ok m xs l = queue_ok m' xs l"
  by (simp add: queue_ok_def)

text \<open>
  The two lists of a processor as one interface: how \<open>get\<close> and \<open>put\<close> act on the rest of the state.
\<close>

locale tasklet_list =
  fixes get :: "('f, 'z) softirqs_scheme \<Rightarrow> tasklet_head"
    and put :: "(tasklet_head \<Rightarrow> tasklet_head) \<Rightarrow> ('f, 'z) softirqs_scheme \<Rightarrow> ('f, 'z) softirqs_scheme"
  assumes get_put [simp]: "get (put f s) = f (get s)"
    and tk_put [simp]: "tk (put f s) = tk s"
    and get_tk [simp]: "get (s\<lparr>tk := m\<rparr>) = get s"
    and get_irqs [simp]: "get (s\<lparr>irqs_disabled := b\<rparr>) = get s"
    and get_pending [simp]: "get (s\<lparr>softirq_pending := p\<rparr>) = get s"
begin

lemma append_tk: "tk (append_tasklet get put t s) =
    (let m = (tk s)(t := (tk s t)\<lparr>tk_next := None\<rparr>)
     in case tail (get s) of At_head \<Rightarrow> m | At_next q \<Rightarrow> m(q := (m q)\<lparr>tk_next := Some t\<rparr>))"
  by (auto simp: append_tasklet_def upd_tk_def Let_def split: tail.split)

lemma append_state [simp]:
  "tk_state (tk (append_tasklet get put t s) u) = tk_state (tk s u)"
  "tk_count (tk (append_tasklet get put t s) u) = tk_count (tk s u)"
  "tk_func (tk (append_tasklet get put t s) u) = tk_func (tk s u)"
  "tk_data (tk (append_tasklet get put t s) u) = tk_data (tk s u)"
  unfolding append_tk by (auto simp: Let_def split: tail.split)

lemma append_nx:
  assumes "queue_ok (tk s) xs (get s)" "t \<notin> set xs"
  shows "tknx (tk (append_tasklet get put t s)) =
    (if xs = [] then (tknx (tk s))(t := None) else (tknx (tk s))(t := None, last xs := Some t))"
proof -
  have "xs \<noteq> [] \<Longrightarrow> last xs \<noteq> t" using assms(2) by auto
  then show ?thesis using assms(1) unfolding append_tk queue_ok_def
    by (auto simp: Let_def tknx_def fun_eq_iff)
qed

lemma append_queue:
  assumes "queue_ok (tk s) xs (get s)" "t \<notin> set xs"
  shows "queue_ok (tk (append_tasklet get put t s)) (xs @ [t]) (get (append_tasklet get put t s))"
proof (cases "xs = []")
  case True
  then have "get (append_tasklet get put t s) = \<lparr>head = Some t, tail = At_next t\<rparr>"
    using assms(1) by (simp add: append_tasklet_def upd_tk_def Let_def queue_ok_def)
  then show ?thesis using True append_nx[OF assms] by (simp add: queue_ok_def)
next
  case False
  then have g: "get (append_tasklet get put t s) = (get s)\<lparr>tail := At_next t\<rparr>"
    using assms(1) by (simp add: append_tasklet_def upd_tk_def Let_def queue_ok_def)
  obtain ys y where xs: "xs = ys @ [y]" using False by (metis append_butlast_last_id)
  from assms(1) have ch: "chain (tknx (tk s)) (head (get s)) (ys @ [y])" by (simp add: queue_ok_def xs)
  then have "y \<notin> set ys" using chain_distinct by fastforce
  with ch assms(2) have "chain ((tknx (tk s))(t := None, y := Some t)) (head (get s)) (ys @ [y, t])"
    by (auto simp: chain_append xs)
  then show ?thesis unfolding queue_ok_def append_nx[OF assms] g by (simp add: xs)
qed

end

interpretation tv: tasklet_list tasklet_vec tasklet_vec_update
  by unfold_locales simp_all

interpretation thv: tasklet_list tasklet_hi_vec tasklet_hi_vec_update
  by unfold_locales simp_all

abbreviation sched :: "('f, 'z) softirqs_scheme \<Rightarrow> nat \<Rightarrow> bool" where
  "sched s t \<equiv> bit (tk_state (tk s t)) TASKLET_STATE_SCHED"

abbreviation running :: "('f, 'z) softirqs_scheme \<Rightarrow> nat \<Rightarrow> bool" where
  "running s t \<equiv> bit (tk_state (tk s t)) TASKLET_STATE_RUN"

definition tasklets_ok :: "nat list \<Rightarrow> nat list \<Rightarrow> ('f, 'z) softirqs_scheme \<Rightarrow> bool" where
  "tasklets_ok xs ys s \<longleftrightarrow> queue_ok (tk s) xs (tasklet_vec s) \<and> queue_ok (tk s) ys (tasklet_hi_vec s)
     \<and> set xs \<inter> set ys = {} \<and> (\<forall>t \<in> set xs \<union> set ys. sched s t)"

lemma state_bits [simp]:
  "bit (Bit_Operations.set_bit TASKLET_STATE_SCHED w) TASKLET_STATE_SCHED"
  "bit (Bit_Operations.set_bit TASKLET_STATE_SCHED w) TASKLET_STATE_RUN = bit w TASKLET_STATE_RUN"
  "bit (Bit_Operations.set_bit TASKLET_STATE_RUN w) TASKLET_STATE_RUN"
  "bit (Bit_Operations.set_bit TASKLET_STATE_RUN w) TASKLET_STATE_SCHED = bit w TASKLET_STATE_SCHED"
  "\<not> bit (Bit_Operations.unset_bit TASKLET_STATE_SCHED w) TASKLET_STATE_SCHED"
  "bit (Bit_Operations.unset_bit TASKLET_STATE_SCHED w) TASKLET_STATE_RUN = bit w TASKLET_STATE_RUN"
  "\<not> bit (Bit_Operations.unset_bit TASKLET_STATE_RUN w) TASKLET_STATE_RUN"
  "bit (Bit_Operations.unset_bit TASKLET_STATE_RUN w) TASKLET_STATE_SCHED = bit w TASKLET_STATE_SCHED"
  for w :: u64
  by (simp_all add: bit_set_bit_iff bit_unset_bit_iff TASKLET_STATE_SCHED_def TASKLET_STATE_RUN_def)

lemma upd_tk_simps [simp]:
  "tk (upd_tk t f s) = (tk s)(t := f (tk s t))"
  "tasklet_vec (upd_tk t f s) = tasklet_vec s" "tasklet_hi_vec (upd_tk t f s) = tasklet_hi_vec s"
  "softirq_pending (upd_tk t f s) = softirq_pending s" "irqs_disabled (upd_tk t f s) = irqs_disabled s"
  "tasklet_count (upd_tk t f s) = tasklet_count s"
  by (simp_all add: upd_tk_def)

lemma append_other [simp]:
  "tasklet_hi_vec (append_tasklet tasklet_vec tasklet_vec_update t s) = tasklet_hi_vec s"
  "tasklet_vec (append_tasklet tasklet_hi_vec tasklet_hi_vec_update t s) = tasklet_vec s"
  "softirq_pending (append_tasklet tasklet_vec tasklet_vec_update t s) = softirq_pending s"
  "softirq_pending (append_tasklet tasklet_hi_vec tasklet_hi_vec_update t s) = softirq_pending s"
  "tasklet_count (append_tasklet tasklet_vec tasklet_vec_update t s) = tasklet_count s"
  "tasklet_count (append_tasklet tasklet_hi_vec tasklet_hi_vec_update t s) = tasklet_count s"
  by (simp_all add: append_tasklet_def Let_def split: tail.split)

lemma do_raise_simps [simp]:
  "tk (do_raise_softirq nr s) = tk s" "tasklet_vec (do_raise_softirq nr s) = tasklet_vec s"
  "tasklet_hi_vec (do_raise_softirq nr s) = tasklet_hi_vec s" "in_tasklet (do_raise_softirq nr s) = in_tasklet s"
  by (simp_all add: do_raise_softirq_def in_tasklet_def)

text \<open>A chain does not change when the next fields of other nodes do.\<close>

lemma queue_ok_frame:
  "queue_ok m ys l \<Longrightarrow> (\<And>t. t \<in> set ys \<Longrightarrow> tknx m' t = tknx m t) \<Longrightarrow> queue_ok m' ys l"
  unfolding queue_ok_def using chain_cong_next[of ys "tknx m'" "tknx m"] by blast

lemma last_in: "xs \<noteq> [] \<Longrightarrow> last xs \<in> set xs"
  by simp

lemma schedule_appends:
  assumes ok: "tasklets_ok xs ys s" and new: "\<not> sched s t"
  shows "\<exists>s1. tasklet_schedule wake t s =
      kbind (if in_tasklet s then ret s1 else wake s1) (\<lambda>s'. ret (s'\<lparr>irqs_disabled := irqs_disabled s\<rparr>))
    \<and> tasklets_ok (xs @ [t]) ys s1 \<and> bit (softirq_pending s1) TASKLET_SOFTIRQ"
proof -
  define u where "u = upd_tk t (tk_state_update (Bit_Operations.set_bit TASKLET_STATE_SCHED)) s"
  define s0 where "s0 = u\<lparr>irqs_disabled := True\<rparr>"
  define s1 where "s1 = do_raise_softirq TASKLET_SOFTIRQ (append_tasklet tasklet_vec tasklet_vec_update t s0)"
  have t: "t \<notin> set xs" "t \<notin> set ys" using ok new by (auto simp: tasklets_ok_def)
  have q: "queue_ok (tk s0) xs (tasklet_vec s0)" "queue_ok (tk s0) ys (tasklet_hi_vec s0)"
    using ok queue_ok_cong[of "tk s0" "tk s"] by (simp_all add: tasklets_ok_def s0_def u_def)
  note nx = tv.append_nx[OF q(1) t(1)]
  have "queue_ok (tk s1) ys (tasklet_hi_vec s1)"
  proof (rule queue_ok_frame[of "tk s0"])
    show "queue_ok (tk s0) ys (tasklet_hi_vec s1)" using q(2) by (simp add: s1_def)
    fix v assume v: "v \<in> set ys"
    have "set xs \<inter> set ys = {}" using ok unfolding tasklets_ok_def by blast
    with v t have "v \<noteq> t" "xs \<noteq> [] \<Longrightarrow> v \<noteq> last xs" using last_in[of xs] by blast+
    then show "tknx (tk s1) v = tknx (tk s0) v" by (simp add: s1_def nx)
  qed
  moreover have "queue_ok (tk s1) (xs @ [t]) (tasklet_vec s1)"
    using tv.append_queue[OF q(1) t(1)] by (simp add: s1_def)
  moreover have "sched s1 v" if "v \<in> set (xs @ [t]) \<union> set ys" for v
    using ok that by (auto simp: s1_def s0_def u_def tasklets_ok_def)
  ultimately have "tasklets_ok (xs @ [t]) ys s1" using ok t by (auto simp: tasklets_ok_def)
  moreover have "tasklet_schedule wake t s =
      kbind (if in_tasklet s then ret s1 else wake s1) (\<lambda>s'. ret (s'\<lparr>irqs_disabled := irqs_disabled s\<rparr>))"
  proof -
    have i: "in_tasklet s1 = in_tasklet s" "irqs_disabled u = irqs_disabled s"
      by (simp_all add: in_tasklet_def s1_def s0_def u_def do_raise_softirq_def)
    have "tasklet_schedule wake t s = do_tasklet_schedule wake t u"
      using new by (simp add: tasklet_schedule_def state_test_set_def u_def)
    then show ?thesis unfolding do_tasklet_schedule_def raise_softirq_irqoff_def Let_def s0_def[symmetric] s1_def[symmetric] i
      by simp
  qed
  moreover have "bit (softirq_pending s1) TASKLET_SOFTIRQ"
    by (simp add: s1_def do_raise_softirq_def bit_simps TASKLET_SOFTIRQ_def)
  ultimately show ?thesis by blast
qed

text \<open>
  C16. Scheduling a tasklet that is not scheduled puts it at the end of the list, marks it and raises
  the tasklet softirq, waking the tasklet thread outside a softirq; scheduling it again before it has run
  changes nothing.
\<close>

theorem tasklet_schedule_fifo:
  assumes "tasklets_ok xs ys s"
  shows "if sched s t then tasklet_schedule wake t s = ret s
    else \<exists>s1. tasklet_schedule wake t s =
        kbind (if in_tasklet s then ret s1 else wake s1) (\<lambda>s'. ret (s'\<lparr>irqs_disabled := irqs_disabled s\<rparr>))
      \<and> tasklets_ok (xs @ [t]) ys s1 \<and> bit (softirq_pending s1) TASKLET_SOFTIRQ"
proof (cases "sched s t")
  case True
  then have "Bit_Operations.set_bit TASKLET_STATE_SCHED (tk_state (tk s t)) = tk_state (tk s t)"
    by (auto intro!: bit_eqI simp: bit_set_bit_iff)
  then have "tk_state_update (Bit_Operations.set_bit TASKLET_STATE_SCHED) (tk s t) = tk s t" by (cases "tk s t") simp
  then have "upd_tk t (tk_state_update (Bit_Operations.set_bit TASKLET_STATE_SCHED)) s = s"
    by (simp add: upd_tk_def)
  with True show ?thesis by (simp add: tasklet_schedule_def state_test_set_def Let_def)
qed (use schedule_appends[OF assms] in simp)

definition demo_softirqs :: "nat softirqs" where
  "demo_softirqs = \<lparr>softirq_pending = 0, tasklet_count = - 1, irqs_disabled = True, tasklet_vec = \<lparr>head = None, tail = At_head\<rparr>,
     tasklet_hi_vec = \<lparr>head = None, tail = At_head\<rparr>,
     tk = (\<lambda>_. \<lparr>tk_next = None, tk_state = 0, tk_count = 0, tk_func = 0, tk_data = 0\<rparr>), now_msec = 0\<rparr>"

lemma demo_softirqs_ok: "tasklets_ok [] [] demo_softirqs"
  by (simp add: tasklets_ok_def queue_ok_def demo_softirqs_def)

theorem tasklet_schedule_fifo_witness:
  "tasklets_ok [] [] demo_softirqs \<and> \<not> sched demo_softirqs 5
   \<and> (\<exists>s1. tasklet_schedule ret 5 demo_softirqs = ret s1 \<and> tasklets_ok [5] [] s1)"
proof -
  have n: "\<not> sched demo_softirqs 5" "irqs_disabled demo_softirqs" "\<not> in_tasklet demo_softirqs"
    by (simp_all add: demo_softirqs_def in_tasklet_def)
  from tasklet_schedule_fifo[OF demo_softirqs_ok, of 5 ret] n show ?thesis
    using demo_softirqs_ok by (force simp: tasklets_ok_def)
qed

text \<open>
  Putting a tasklet first on an empty list leaves the tail pointing at the head.
\<close>

lemma hi_first_then_append:
  assumes ok: "tasklets_ok xs [] s" and new: "\<not> sched s t" "\<not> sched s u" "t \<noteq> u" and irq: "irqs_disabled s"
    and wake: "\<forall>s. wake s = ret s"
  shows "\<exists>s1 s2. tasklet_hi_schedule_first t s = ret s1 \<and> tasklet_hi_schedule wake u s1 = ret s2
    \<and> tasklets_ok xs [u] s2 \<and> sched s2 t \<and> tasklet_hi_schedule wake t s2 = ret s2"
proof -
  define s0 where "s0 = upd_tk t (tk_state_update (Bit_Operations.set_bit TASKLET_STATE_SCHED)) s"
  define s1 where "s1 = do_raise_softirq HI_SOFTIRQ
    (tasklet_hi_vec_update (head_update (\<lambda>_. Some t)) (upd_tk t (tk_next_update (\<lambda>_. None)) s0))"
  have hv: "tasklet_hi_vec s = \<lparr>head = None, tail = At_head\<rparr>"
    using ok by (cases "tasklet_hi_vec s") (simp add: tasklets_ok_def queue_ok_def)
  have 1: "tasklet_hi_schedule_first t s = ret s1"
    using new(1) irq hv by (simp add: tasklet_hi_schedule_first_def state_test_set_def do_tasklet_hi_schedule_first_def
      s1_def s0_def Let_def)
  define v where "v = upd_tk u (tk_state_update (Bit_Operations.set_bit TASKLET_STATE_SCHED)) s1\<lparr>irqs_disabled := True\<rparr>"
  define s2 where "s2 = (do_raise_softirq HI_SOFTIRQ (append_tasklet tasklet_hi_vec tasklet_hi_vec_update u v))\<lparr>irqs_disabled := True\<rparr>"
  have nu: "\<not> sched s1 u" using new by (simp add: s1_def s0_def)
  have i1: "irqs_disabled s1" using irq by (simp add: s1_def s0_def do_raise_softirq_def)
  have 2: "tasklet_hi_schedule wake u s1 = ret s2"
    using nu wake i1 by (simp add: tasklet_hi_schedule_def state_test_set_def do_tasklet_hi_schedule_def
      raise_softirq_irqoff_def Let_def s2_def v_def upd_tk_def)
  have hv2: "tasklet_hi_vec v = \<lparr>head = Some t, tail = At_head\<rparr>" "tasklet_vec v = tasklet_vec s"
    by (simp_all add: v_def s1_def s0_def hv)
  have tk2: "tk s2 = (tk v)(u := (tk v u)\<lparr>tk_next := None\<rparr>)"
    and l2: "tasklet_hi_vec s2 = \<lparr>head = Some u, tail = At_next u\<rparr>" "tasklet_vec s2 = tasklet_vec s"
    using hv2 by (simp_all add: s2_def append_tasklet_def Let_def)
  have fr: "x \<notin> {t, u} \<Longrightarrow> tk s2 x = tk s x" "sched s2 t" "sched s2 u" for x
    using new(3) by (auto simp: tk2 v_def s1_def s0_def)
  have tu: "t \<notin> set xs" "u \<notin> set xs" using ok new by (auto simp: tasklets_ok_def)
  have "queue_ok (tk s2) xs (tasklet_vec s2)"
  proof (rule queue_ok_frame[of "tk s"])
    show "queue_ok (tk s) xs (tasklet_vec s2)" using ok unfolding l2 tasklets_ok_def by blast
    fix x assume "x \<in> set xs"
    with tu have "x \<notin> {t, u}" by blast
    then show "tknx (tk s2) x = tknx (tk s) x" using fr(1)[of x] by (simp add: tknx_def)
  qed
  moreover have "queue_ok (tk s2) [u] (tasklet_hi_vec s2)" by (simp add: queue_ok_def l2 tknx_def tk2)
  moreover have "sched s2 x" if "x \<in> set xs" for x
  proof -
    have "x \<notin> {t, u}" using that tu by blast
    then have "tk s2 x = tk s x" by (rule fr(1))
    moreover have "sched s x" using that ok unfolding tasklets_ok_def by blast
    ultimately show ?thesis by simp
  qed
  ultimately have 3: "tasklets_ok xs [u] s2" using tu fr(3) by (simp add: tasklets_ok_def)
  have "Bit_Operations.set_bit TASKLET_STATE_SCHED (tk_state (tk s2 t)) = tk_state (tk s2 t)"
    using fr(2) by (auto intro!: bit_eqI simp: bit_set_bit_iff)
  then have "tk_state_update (Bit_Operations.set_bit TASKLET_STATE_SCHED) (tk s2 t) = tk s2 t" by (cases "tk s2 t") simp
  then have "upd_tk t (tk_state_update (Bit_Operations.set_bit TASKLET_STATE_SCHED)) s2 = s2" by (simp add: upd_tk_def)
  then have "tasklet_hi_schedule wake t s2 = ret s2" using fr(2) by (simp add: tasklet_hi_schedule_def state_test_set_def Let_def)
  then show ?thesis using 1 2 3 fr(2) by blast
qed

text \<open>
  A tasklet put first on an empty high priority list is lost as soon as another one is scheduled
  behind it: the list then holds the second alone, while the first stays marked as scheduled, so
  scheduling it again does nothing.
\<close>

theorem hi_schedule_first_loses:
  assumes "tasklets_ok xs [] s" and "\<not> sched s t" "\<not> sched s u" "t \<noteq> u" and "irqs_disabled s"
    and "\<forall>s. wake s = ret s"
  shows "\<exists>s1 s2. tasklet_hi_schedule_first t s = ret s1 \<and> tasklet_hi_schedule wake u s1 = ret s2
    \<and> tasklets_ok xs [u] s2 \<and> sched s2 t \<and> tasklet_hi_schedule wake t s2 = ret s2"
  using assms by (rule hi_first_then_append)

theorem hi_schedule_first_loses_witness:
  "tasklets_ok [] [] demo_softirqs \<and> irqs_disabled demo_softirqs
   \<and> (\<exists>s1 s2. tasklet_hi_schedule_first 1 demo_softirqs = ret s1 \<and> tasklet_hi_schedule ret 2 s1 = ret s2
      \<and> tasklets_ok [] [2] s2 \<and> sched s2 1)"
proof -
  have n: "\<not> sched demo_softirqs t" "irqs_disabled demo_softirqs" for t by (simp_all add: demo_softirqs_def)
  show ?thesis using hi_schedule_first_loses[OF demo_softirqs_ok n(1)[of 1] n(1)[of 2] _ n(2), of ret] demo_softirqs_ok n(2) by auto
qed

section \<open>Running tasklets\<close>

lemma tk_state_upd: "tk_state_update f r = r\<lparr>tk_state := f (tk_state r)\<rparr>"
  by (cases r) simp

definition runnable :: "('f, 'z) softirqs_scheme \<Rightarrow> nat \<Rightarrow> bool" where
  "runnable s t \<longleftrightarrow> \<not> running s t \<and> tk_count (tk s t) = 0"

text \<open>
  The lists together with a record \<open>log\<close> of the calls, for tasklet functions that do nothing else.
\<close>

locale tasklet_log = tasklet_list +
  fixes log :: "('a, 'b) softirqs_scheme \<Rightarrow> ('a \<times> u64) list"
    and call :: "'a \<Rightarrow> u64 \<Rightarrow> ('a, 'b) action"
  assumes log_put [simp]: "log (put f s) = log s"
    and log_tk [simp]: "log (s\<lparr>tk := m\<rparr>) = log s"
    and log_irqs [simp]: "log (s\<lparr>irqs_disabled := b\<rparr>) = log s"
    and log_pending [simp]: "log (s\<lparr>softirq_pending := p\<rparr>) = log s"
    and call_logs: "\<exists>s'. call fn d s = ret s' \<and> get s' = get s \<and> tk s' = tk s \<and> log s' = log s @ [(fn, d)]"
begin

lemma log_upd [simp]: "log (upd_tk t f s) = log s" "get (upd_tk t f s) = get s"
  by (simp_all add: upd_tk_def)

lemma log_append [simp]: "log (append_tasklet get put t s) = log s"
  by (simp add: append_tasklet_def Let_def split: tail.split)

text \<open>One round of the loop: a tasklet that can run is run, any other is put back.\<close>

lemma step_runs:
  assumes "runnable s t" "sched s t"
  shows "\<exists>s1 w. tasklet_loop call get put nr (Some t) s = tasklet_loop call get put nr (tk_next (tk s t)) s1
    \<and> tk s1 = (tk s)(t := (tk s t)\<lparr>tk_state := w\<rparr>) \<and> \<not> bit w TASKLET_STATE_SCHED \<and> get s1 = get s
    \<and> log s1 = log s @ [(tk_func (tk s t), tk_data (tk s t))]"
proof -
  let ?w = "Bit_Operations.unset_bit TASKLET_STATE_SCHED (Bit_Operations.set_bit TASKLET_STATE_RUN (tk_state (tk s t)))"
  define s2 where "s2 = upd_tk t (tk_state_update (\<lambda>_. ?w)) s"
  obtain s3 where s3: "call (tk_func (tk s t)) (tk_data (tk s t)) s2 = ret s3" "get s3 = get s2" "tk s3 = tk s2"
    "log s3 = log s2 @ [(tk_func (tk s t), tk_data (tk s t))]" using call_logs by blast
  have "state_test_clear TASKLET_STATE_SCHED t (upd_tk t (tk_state_update (Bit_Operations.set_bit TASKLET_STATE_RUN)) s)
      = (True, s2)" using assms(2) by (simp add: state_test_clear_def s2_def upd_tk_def) (subst tk_state_upd, simp)
  moreover have "tasklet_trylock t s = (True, upd_tk t (tk_state_update (Bit_Operations.set_bit TASKLET_STATE_RUN)) s)"
    using assms(1) by (simp add: tasklet_trylock_def state_test_set_def runnable_def)
  moreover have "tk_func (tk s2 t) = tk_func (tk s t)" "tk_data (tk s2 t) = tk_data (tk s t)" by (simp_all add: s2_def)
  ultimately have "tasklet_loop call get put nr (Some t) s =
      tasklet_loop call get put nr (tk_next (tk s t)) (tasklet_unlock t s3)"
    using assms(1) s3(1) by (subst tasklet_loop.simps) (simp add: Let_def runnable_def)
  then show ?thesis using s3
    by (intro exI[of _ "tasklet_unlock t s3"] exI[of _ "Bit_Operations.unset_bit TASKLET_STATE_RUN ?w"])
      (simp add: tasklet_unlock_def s2_def, subst tk_state_upd, simp)
qed

lemma step_requeues:
  assumes "\<not> runnable s t"
  shows "\<exists>s1. tasklet_loop call get put nr (Some t) s = tasklet_loop call get put nr (tk_next (tk s t)) s1
    \<and> (\<exists>s2. tk s2 = tk s \<and> get s2 = get s \<and> tk s1 = tk (append_tasklet get put t s2)
        \<and> get s1 = get (append_tasklet get put t s2)) \<and> log s1 = log s"
proof -
  define r where "r = (\<lambda>s. do_raise_softirq nr (append_tasklet get put t (s\<lparr>irqs_disabled := True\<rparr>))\<lparr>irqs_disabled := False\<rparr>)"
  have "\<exists>s2. tasklet_loop call get put nr (Some t) s = tasklet_loop call get put nr (tk_next (tk s t)) (r s2)
      \<and> tk s2 = tk s \<and> get s2 = get s \<and> log s2 = log s"
  proof (cases "running s t")
    case True
    let ?s = "upd_tk t (tk_state_update (Bit_Operations.set_bit TASKLET_STATE_RUN)) s"
    have "Bit_Operations.set_bit TASKLET_STATE_RUN (tk_state (tk s t)) = tk_state (tk s t)"
      using True by (auto intro!: bit_eqI simp: bit_set_bit_iff)
    then have "tk_state_update (Bit_Operations.set_bit TASKLET_STATE_RUN) (tk s t) = tk s t" by (cases "tk s t") simp
    moreover have "tasklet_loop call get put nr (Some t) s = tasklet_loop call get put nr (tk_next (tk s t)) (r ?s)"
      using True by (subst tasklet_loop.simps) (simp add: tasklet_trylock_def state_test_set_def Let_def r_def)
    ultimately show ?thesis by (intro exI[of _ ?s]) simp
  next
    case False
    let ?s = "tasklet_unlock t (upd_tk t (tk_state_update (Bit_Operations.set_bit TASKLET_STATE_RUN)) s)"
    have "Bit_Operations.unset_bit TASKLET_STATE_RUN (Bit_Operations.set_bit TASKLET_STATE_RUN (tk_state (tk s t))) = tk_state (tk s t)"
      using False by (auto intro!: bit_eqI simp: bit_set_bit_iff bit_unset_bit_iff)
    then have "(tk s t)\<lparr>tk_state := Bit_Operations.unset_bit TASKLET_STATE_RUN (Bit_Operations.set_bit TASKLET_STATE_RUN (tk_state (tk s t)))\<rparr> = tk s t"
      by simp
    then have "tk_state_update (Bit_Operations.unset_bit TASKLET_STATE_RUN \<circ> Bit_Operations.set_bit TASKLET_STATE_RUN) (tk s t) = tk s t"
      by (subst tk_state_upd) simp
    moreover have "tasklet_loop call get put nr (Some t) s = tasklet_loop call get put nr (tk_next (tk s t)) (r ?s)"
      using False assms by (subst tasklet_loop.simps) (simp add: tasklet_trylock_def state_test_set_def Let_def r_def runnable_def)
    ultimately show ?thesis by (intro exI[of _ ?s]) (simp add: tasklet_unlock_def)
  qed
  then obtain s2 where s2: "tasklet_loop call get put nr (Some t) s = tasklet_loop call get put nr (tk_next (tk s t)) (r s2)"
    "tk s2 = tk s" "get s2 = get s" "log s2 = log s" by blast
  show ?thesis
  proof (intro exI conjI)
    show "tk (r s2) = tk (append_tasklet get put t (s2\<lparr>irqs_disabled := True\<rparr>))"
      "get (r s2) = get (append_tasklet get put t (s2\<lparr>irqs_disabled := True\<rparr>))" "log (r s2) = log s"
      using s2(4) by (simp_all add: r_def do_raise_softirq_def)
  qed (use s2 in simp_all)
qed

lemma loop_runs:
  assumes "chain (tknx (tk s)) l xs" "queue_ok (tk s) ys (get s)" "set xs \<inter> set ys = {}" "\<forall>t \<in> set xs. sched s t"
  shows "\<exists>s'. tasklet_loop call get put nr l s = ret s'
    \<and> queue_ok (tk s') (ys @ filter (\<lambda>t. \<not> runnable s t) xs) (get s')
    \<and> log s' = log s @ map (\<lambda>t. (tk_func (tk s t), tk_data (tk s t))) (filter (runnable s) xs)
    \<and> (\<forall>t. sched s' t \<longleftrightarrow> sched s t \<and> \<not> (t \<in> set xs \<and> runnable s t))"
  using assms
proof (induction xs arbitrary: l s ys)
  case Nil
  then show ?case by (subst tasklet_loop.simps) simp
next
  case (Cons t xs)
  have l: "l = Some t" and ch: "chain (tknx (tk s)) (tk_next (tk s t)) xs" and tx: "t \<notin> set xs"
    using Cons.prems(1) chain_distinct[OF Cons.prems(1)] tknx_def[of "tk s" t] by simp_all
  show ?case
  proof (cases "runnable s t")
    case True
    from step_runs[OF True, of nr] Cons.prems(4) obtain s1 w
      where s1: "tasklet_loop call get put nr (Some t) s = tasklet_loop call get put nr (tk_next (tk s t)) s1"
        "tk s1 = (tk s)(t := (tk s t)\<lparr>tk_state := w\<rparr>)" "\<not> bit w TASKLET_STATE_SCHED" "get s1 = get s"
        "log s1 = log s @ [(tk_func (tk s t), tk_data (tk s t))]" by auto
    have nx: "tknx (tk s1) = tknx (tk s)" by (auto simp: s1(2) tknx_def fun_eq_iff)
    have same: "u \<in> set xs \<Longrightarrow> tk s1 u = tk s u" for u using tx by (auto simp: s1(2))
    then have r: "filter (runnable s1) xs = filter (runnable s) xs" "filter (\<lambda>u. \<not> runnable s1 u) xs = filter (\<lambda>u. \<not> runnable s u) xs"
      by (auto simp: runnable_def intro!: filter_cong)
    have m: "map (\<lambda>t. (tk_func (tk s1 t), tk_data (tk s1 t))) (filter (runnable s) xs) =
        map (\<lambda>t. (tk_func (tk s t), tk_data (tk s t))) (filter (runnable s) xs)" using same by auto
    have "chain (tknx (tk s1)) (tk_next (tk s t)) xs" "queue_ok (tk s1) ys (get s1)" "set xs \<inter> set ys = {}" "\<forall>t \<in> set xs. sched s1 t"
      using ch Cons.prems same nx s1(4) queue_ok_cong[OF nx] by auto
    from Cons.IH[OF this] obtain s' where *: "tasklet_loop call get put nr (tk_next (tk s t)) s1 = ret s'"
      "queue_ok (tk s') (ys @ filter (\<lambda>t. \<not> runnable s t) xs) (get s')"
      "log s' = log s1 @ map (\<lambda>t. (tk_func (tk s t), tk_data (tk s t))) (filter (runnable s) xs)"
      "\<forall>u. sched s' u \<longleftrightarrow> sched s1 u \<and> \<not> (u \<in> set xs \<and> runnable s1 u)" unfolding r m by blast
    have "sched s' u \<longleftrightarrow> sched s u \<and> \<not> (u \<in> set (t # xs) \<and> runnable s u)" for u
      using *(4) s1(2,3) same[of u] True by (cases "u = t") (auto simp: runnable_def)
    then show ?thesis using * True s1(1,5) l by (intro exI[of _ s']) simp
  next
    case False
    from step_requeues[OF False, of nr] obtain s1 s2
      where s1: "tasklet_loop call get put nr (Some t) s = tasklet_loop call get put nr (tk_next (tk s t)) s1"
        "tk s2 = tk s" "get s2 = get s" "tk s1 = tk (append_tasklet get put t s2)"
        "get s1 = get (append_tasklet get put t s2)" "log s1 = log s" by blast
    have q2: "queue_ok (tk s2) ys (get s2)" "t \<notin> set ys" using Cons.prems(2,3) s1(2,3) by auto
    have same: "tk_state (tk s1 u) = tk_state (tk s u)" "tk_count (tk s1 u) = tk_count (tk s u)"
      "tk_func (tk s1 u) = tk_func (tk s u)" "tk_data (tk s1 u) = tk_data (tk s u)" for u by (simp_all add: s1)
    then have r: "runnable s1 = runnable s" by (auto simp: runnable_def)
    have "chain (tknx (tk s1)) (tk_next (tk s t)) xs = chain (tknx (tk s)) (tk_next (tk s t)) xs"
    proof (rule chain_cong_next)
      fix u assume u: "u \<in> set xs"
      then have "u \<noteq> t" "ys \<noteq> [] \<Longrightarrow> u \<noteq> last ys" using tx Cons.prems(3) last_in[of ys] by auto
      then show "tknx (tk s1) u = tknx (tk s) u" unfolding s1(4) append_nx[OF q2] by (simp add: s1(2))
    qed
    moreover have "queue_ok (tk s1) (ys @ [t]) (get s1)" using append_queue[OF q2] by (simp add: s1)
    ultimately have "chain (tknx (tk s1)) (tk_next (tk s t)) xs" "queue_ok (tk s1) (ys @ [t]) (get s1)"
      "set xs \<inter> set (ys @ [t]) = {}" "\<forall>u \<in> set xs. sched s1 u"
      using ch Cons.prems(3,4) tx same(1) by auto
    from Cons.IH[OF this] obtain s' where *: "tasklet_loop call get put nr (tk_next (tk s t)) s1 = ret s'"
      "queue_ok (tk s') ((ys @ [t]) @ filter (\<lambda>t. \<not> runnable s t) xs) (get s')"
      "log s' = log s @ map (\<lambda>t. (tk_func (tk s t), tk_data (tk s t))) (filter (runnable s) xs)"
      "\<forall>u. sched s' u \<longleftrightarrow> sched s u \<and> \<not> (u \<in> set xs \<and> runnable s u)" unfolding r same s1(6) by blast
    have "sched s' u \<longleftrightarrow> sched s u \<and> \<not> (u \<in> set (t # xs) \<and> runnable s u)" for u
      using *(4) False by auto
    then show ?thesis using *(1-3) False s1(1) l by (intro exI[of _ s']) simp
  qed
qed

end

record 'f traced_softirqs = "'f softirqs" +
  ran :: "('f \<times> u64) list"

definition record_run :: "'f \<Rightarrow> u64 \<Rightarrow> 'f traced_softirqs \<Rightarrow> 'f traced_softirqs kres" where
  "record_run f d s = ret (s\<lparr>ran := ran s @ [(f, d)]\<rparr>)"

interpretation tvl: tasklet_log tasklet_vec tasklet_vec_update ran record_run
  by unfold_locales (simp_all add: record_run_def)

interpretation thvl: tasklet_log tasklet_hi_vec tasklet_hi_vec_update ran record_run
  by unfold_locales (simp_all add: record_run_def)

text \<open>
  C17. A pass over the tasklets runs each tasklet of the list that is enabled and not running, once and
  in the order of the list, and clears its mark; the others stay marked and scheduled in their order.
\<close>

theorem tasklet_action_runs:
  fixes s :: "'f traced_softirqs"
  assumes "tasklets_ok xs ys s"
  shows "\<exists>s'. tasklet_action record_run s = ret s'
    \<and> queue_ok (tk s') (filter (\<lambda>t. \<not> runnable s t) xs) (tasklet_vec s')
    \<and> ran s' = ran s @ map (\<lambda>t. (tk_func (tk s t), tk_data (tk s t))) (filter (runnable s) xs)
    \<and> (\<forall>t. sched s' t \<longleftrightarrow> sched s t \<and> \<not> (t \<in> set xs \<and> runnable s t))"
proof -
  define s1 where "s1 = tasklet_vec_update (\<lambda>_. \<lparr>head = None, tail = At_head\<rparr>) (s\<lparr>irqs_disabled := False\<rparr>)"
  have a: "tasklet_action record_run s =
      tasklet_loop record_run tasklet_vec tasklet_vec_update TASKLET_SOFTIRQ (head (tasklet_vec s)) s1"
    by (simp add: tasklet_action_def take_list_def s1_def)
  have "chain (tknx (tk s1)) (head (tasklet_vec s)) xs" "queue_ok (tk s1) [] (tasklet_vec s1)" "\<forall>t \<in> set xs. sched s1 t"
    using assms by (simp_all add: tasklets_ok_def queue_ok_def s1_def)
  moreover have "runnable s1 = runnable s" "tk s1 = tk s" "ran s1 = ran s"
    by (simp_all add: s1_def runnable_def fun_eq_iff)
  ultimately show ?thesis using tvl.loop_runs[of s1 "head (tasklet_vec s)" xs "[]" TASKLET_SOFTIRQ] unfolding a by simp
qed

text \<open>Tasklet 1 is disabled, tasklet 2 is not; both are scheduled.\<close>

definition demo_two :: "nat traced_softirqs" where
  "demo_two = \<lparr>softirq_pending = 0, tasklet_count = - 1, irqs_disabled = False,
     tasklet_vec = \<lparr>head = Some 1, tail = At_next 2\<rparr>, tasklet_hi_vec = \<lparr>head = None, tail = At_head\<rparr>,
     tk = (\<lambda>t. if t = 1 then \<lparr>tk_next = Some 2, tk_state = 1, tk_count = 1, tk_func = 7, tk_data = 0\<rparr>
               else \<lparr>tk_next = None, tk_state = 1, tk_count = 0, tk_func = 8, tk_data = 3\<rparr>), now_msec = 0, ran = []\<rparr>"

theorem tasklet_action_runs_witness:
  "tasklets_ok [1, 2] [] demo_two
   \<and> (\<exists>s'. tasklet_action record_run demo_two = ret s' \<and> queue_ok (tk s') [1] (tasklet_vec s') \<and> ran s' = [(8, 3)])"
proof -
  have ok: "tasklets_ok [1, 2] [] demo_two"
    by (simp add: tasklets_ok_def queue_ok_def demo_two_def tknx_def TASKLET_STATE_SCHED_def)
  have r: "\<not> runnable demo_two 1" "runnable demo_two 2" "tk demo_two 2 = \<lparr>tk_next = None, tk_state = 1, tk_count = 0, tk_func = 8, tk_data = 3\<rparr>"
    "ran demo_two = []"
    by (simp_all add: runnable_def demo_two_def TASKLET_STATE_RUN_def bit_1_iff)
  show ?thesis using tasklet_action_runs[OF ok] ok r by auto
qed

end
