(* ===== verification/Kernel_List.thy ===== *)
theory Kernel_List
  imports Yaos_Prelude
begin

text \<open>
  The linked lists of the kernel: the circular doubly linked lists and the hash chains of
  include/yaos/list.h, and the lock-less list of libs/list/llist.c. Nodes are addressed by numbers and the
  links are functions on addresses. The theory proves each operation against the operation on lists of
  nodes that it stands for, and the lock-less list against a stack for every interleaving of its users.
\<close>

section \<open>Circular lists\<close>

record links =
  nxt :: "nat \<Rightarrow> nat"
  prv :: "nat \<Rightarrow> nat"

definition LIST_POISON1 :: nat where "LIST_POISON1 = 0x00100100"
definition LIST_POISON2 :: nat where "LIST_POISON2 = 0x00200200"

definition set_nxt :: "nat \<Rightarrow> nat \<Rightarrow> links \<Rightarrow> links" where
  "set_nxt a b s = s\<lparr>nxt := (nxt s)(a := b)\<rparr>"

definition set_prv :: "nat \<Rightarrow> nat \<Rightarrow> links \<Rightarrow> links" where
  "set_prv a b s = s\<lparr>prv := (prv s)(a := b)\<rparr>"

lemma links_simps [simp]:
  "nxt (set_nxt a b s) = (nxt s)(a := b)" "prv (set_nxt a b s) = prv s"
  "prv (set_prv a b s) = (prv s)(a := b)" "nxt (set_prv a b s) = nxt s"
  by (simp_all add: set_nxt_def set_prv_def)

definition INIT_LIST_HEAD :: "nat \<Rightarrow> links \<Rightarrow> links" where
  "INIT_LIST_HEAD l s = set_prv l l (set_nxt l l s)"

definition list_insert :: "nat \<Rightarrow> nat \<Rightarrow> nat \<Rightarrow> links \<Rightarrow> links" where
  "list_insert new p n s = set_nxt p new (set_prv new p (set_nxt new n (set_prv n new s)))"

definition list_add :: "nat \<Rightarrow> nat \<Rightarrow> links \<Rightarrow> links" where
  "list_add new head s = list_insert new head (nxt s head) s"

definition list_add_tail :: "nat \<Rightarrow> nat \<Rightarrow> links \<Rightarrow> links" where
  "list_add_tail new head s = list_insert new (prv s head) head s"

definition list_unlink :: "nat \<Rightarrow> nat \<Rightarrow> links \<Rightarrow> links" where
  "list_unlink p n s = set_nxt p n (set_prv n p s)"

definition list_del_entry :: "nat \<Rightarrow> links \<Rightarrow> links" where
  "list_del_entry e s = list_unlink (prv s e) (nxt s e) s"

definition list_del :: "nat \<Rightarrow> links \<Rightarrow> links" where
  "list_del e s = set_prv e LIST_POISON2 (set_nxt e LIST_POISON1 (list_unlink (prv s e) (nxt s e) s))"

definition list_replace :: "nat \<Rightarrow> nat \<Rightarrow> links \<Rightarrow> links" where
  "list_replace old new s =
     (let s = set_nxt new (nxt s old) s;
          s = set_prv (nxt s new) new s;
          s = set_prv new (prv s old) s
      in set_nxt (prv s new) new s)"

definition list_replace_init :: "nat \<Rightarrow> nat \<Rightarrow> links \<Rightarrow> links" where
  "list_replace_init old new s = INIT_LIST_HEAD old (list_replace old new s)"

definition list_del_init :: "nat \<Rightarrow> links \<Rightarrow> links" where
  "list_del_init e s = INIT_LIST_HEAD e (list_del_entry e s)"

definition list_move :: "nat \<Rightarrow> nat \<Rightarrow> links \<Rightarrow> links" where
  "list_move l head s = list_add l head (list_del_entry l s)"

definition list_move_tail :: "nat \<Rightarrow> nat \<Rightarrow> links \<Rightarrow> links" where
  "list_move_tail l head s = list_add_tail l head (list_del_entry l s)"

definition list_is_last :: "nat \<Rightarrow> nat \<Rightarrow> links \<Rightarrow> bool" where
  "list_is_last l head s \<longleftrightarrow> nxt s l = head"

definition list_empty :: "nat \<Rightarrow> links \<Rightarrow> bool" where
  "list_empty head s \<longleftrightarrow> nxt s head = head"

definition list_empty_careful :: "nat \<Rightarrow> links \<Rightarrow> bool" where
  "list_empty_careful head s \<longleftrightarrow> nxt s head = head \<and> nxt s head = prv s head"

definition list_rotate_left :: "nat \<Rightarrow> links \<Rightarrow> links" where
  "list_rotate_left head s = (if \<not> list_empty head s then list_move_tail (nxt s head) head s else s)"

definition list_is_singular :: "nat \<Rightarrow> links \<Rightarrow> bool" where
  "list_is_singular head s \<longleftrightarrow> \<not> list_empty head s \<and> nxt s head = prv s head"

definition do_list_cut_position :: "nat \<Rightarrow> nat \<Rightarrow> nat \<Rightarrow> links \<Rightarrow> links" where
  "do_list_cut_position l head e s =
     (let new_first = nxt s e;
          s = set_nxt l (nxt s head) s;
          s = set_prv (nxt s l) l s;
          s = set_prv l e s;
          s = set_nxt e l s;
          s = set_nxt head new_first s
      in set_prv new_first head s)"

definition list_cut_position :: "nat \<Rightarrow> nat \<Rightarrow> nat \<Rightarrow> links \<Rightarrow> links" where
  "list_cut_position l head e s =
     (if list_empty head s then s
      else if list_is_singular head s \<and> (nxt s head \<noteq> e \<and> head \<noteq> e) then s
      else if e = head then INIT_LIST_HEAD l s
      else do_list_cut_position l head e s)"

definition do_list_splice :: "nat \<Rightarrow> nat \<Rightarrow> nat \<Rightarrow> links \<Rightarrow> links" where
  "do_list_splice l p n s =
     (let first = nxt s l; last = prv s l;
          s = set_prv first p s;
          s = set_nxt p first s;
          s = set_nxt last n s
      in set_prv n last s)"

definition list_splice :: "nat \<Rightarrow> nat \<Rightarrow> links \<Rightarrow> links" where
  "list_splice l head s = (if \<not> list_empty l s then do_list_splice l head (nxt s head) s else s)"

definition list_splice_tail :: "nat \<Rightarrow> nat \<Rightarrow> links \<Rightarrow> links" where
  "list_splice_tail l head s = (if \<not> list_empty l s then do_list_splice l (prv s head) head s else s)"

definition list_splice_init :: "nat \<Rightarrow> nat \<Rightarrow> links \<Rightarrow> links" where
  "list_splice_init l head s =
     (if \<not> list_empty l s then INIT_LIST_HEAD l (do_list_splice l head (nxt s head) s) else s)"

definition list_splice_tail_init :: "nat \<Rightarrow> nat \<Rightarrow> links \<Rightarrow> links" where
  "list_splice_tail_init l head s =
     (if \<not> list_empty l s then INIT_LIST_HEAD l (do_list_splice l (prv s head) head s) else s)"

section \<open>Hash chains\<close>

text \<open>\<^verbatim>\<open>pprev\<close> points at the field that points at the node: the head of the chain or a next field.\<close>

datatype hfield = First nat | Next nat

record hlinks =
  hfirst :: "nat \<Rightarrow> nat option"
  hnext :: "nat \<Rightarrow> nat option"
  pprev :: "nat \<Rightarrow> hfield option"

definition store_at :: "hfield \<Rightarrow> nat option \<Rightarrow> hlinks \<Rightarrow> hlinks" where
  "store_at f v s = (case f of First h \<Rightarrow> s\<lparr>hfirst := (hfirst s)(h := v)\<rparr> | Next n \<Rightarrow> s\<lparr>hnext := (hnext s)(n := v)\<rparr>)"

definition set_pprev :: "nat \<Rightarrow> hfield option \<Rightarrow> hlinks \<Rightarrow> hlinks" where
  "set_pprev n f s = s\<lparr>pprev := (pprev s)(n := f)\<rparr>"

definition INIT_HLIST_NODE :: "nat \<Rightarrow> hlinks \<Rightarrow> hlinks" where
  "INIT_HLIST_NODE n s = set_pprev n None (store_at (Next n) None s)"

definition hlist_unhashed :: "nat \<Rightarrow> hlinks \<Rightarrow> bool" where
  "hlist_unhashed n s \<longleftrightarrow> pprev s n = None"

definition hlist_empty :: "nat \<Rightarrow> hlinks \<Rightarrow> bool" where
  "hlist_empty h s \<longleftrightarrow> hfirst s h = None"

definition do_hlist_del :: "nat \<Rightarrow> hlinks \<Rightarrow> hlinks kres" where
  "do_hlist_del n s =
     (case pprev s n of
        None \<Rightarrow> halt (Wild ''null pprev'')
      | Some f \<Rightarrow>
          let next = hnext s n; s = store_at f next s
          in ret (case next of None \<Rightarrow> s | Some x \<Rightarrow> set_pprev x (Some f) s))"

definition hlist_del_init :: "nat \<Rightarrow> hlinks \<Rightarrow> hlinks kres" where
  "hlist_del_init n s =
     (if \<not> hlist_unhashed n s then kbind (do_hlist_del n s) (\<lambda>s. ret (INIT_HLIST_NODE n s)) else ret s)"

definition hlist_add_head :: "nat \<Rightarrow> nat \<Rightarrow> hlinks \<Rightarrow> hlinks" where
  "hlist_add_head n h s =
     (let first = hfirst s h;
          s = store_at (Next n) first s;
          s = (case first of None \<Rightarrow> s | Some x \<Rightarrow> set_pprev x (Some (Next n)) s);
          s = store_at (First h) (Some n) s
      in set_pprev n (Some (First h)) s)"

definition hlist_add_before :: "nat \<Rightarrow> nat \<Rightarrow> hlinks \<Rightarrow> hlinks kres" where
  "hlist_add_before n x s =
     (let s = set_pprev n (pprev s x) s;
          s = store_at (Next n) (Some x) s;
          s = set_pprev x (Some (Next n)) s
      in case pprev s n of None \<Rightarrow> halt (Wild ''null pprev'') | Some f \<Rightarrow> ret (store_at f (Some n) s))"

definition hlist_add_behind :: "nat \<Rightarrow> nat \<Rightarrow> hlinks \<Rightarrow> hlinks" where
  "hlist_add_behind n p s =
     (let s = store_at (Next n) (hnext s p) s;
          s = store_at (Next p) (Some n) s;
          s = set_pprev n (Some (Next p)) s
      in case hnext s n of None \<Rightarrow> s | Some x \<Rightarrow> set_pprev x (Some (Next n)) s)"

definition hlist_move_list :: "nat \<Rightarrow> nat \<Rightarrow> hlinks \<Rightarrow> hlinks" where
  "hlist_move_list old new s =
     (let s = store_at (First new) (hfirst s old) s;
          s = (case hfirst s new of None \<Rightarrow> s | Some x \<Rightarrow> set_pprev x (Some (First new)) s)
      in store_at (First old) None s)"

section \<open>Circular lists and lists of nodes\<close>

text \<open>From node \<open>a\<close> through the nodes \<open>xs\<close> to node \<open>b\<close>, linked in both directions.\<close>

fun seg :: "links \<Rightarrow> nat \<Rightarrow> nat list \<Rightarrow> nat \<Rightarrow> bool" where
  "seg s a [] b \<longleftrightarrow> nxt s a = b \<and> prv s b = a"
| "seg s a (x # xs) b \<longleftrightarrow> nxt s a = x \<and> prv s x = a \<and> seg s x xs b"

text \<open>The circular list with head \<open>h\<close> holds the nodes \<open>xs\<close>.\<close>

definition ring :: "links \<Rightarrow> nat \<Rightarrow> nat list \<Rightarrow> bool" where
  "ring s h xs \<longleftrightarrow> seg s h xs h \<and> distinct (h # xs)"

lemma seg_append: "seg s a (us @ e # vs) b \<longleftrightarrow> seg s a us e \<and> seg s e vs b"
  by (induction us arbitrary: a) auto

lemma seg_frame:
  "seg s a xs b \<Longrightarrow> (\<And>x. x \<in> set (a # xs) \<Longrightarrow> nxt t x = nxt s x) \<Longrightarrow> (\<And>x. x \<in> set (xs @ [b]) \<Longrightarrow> prv t x = prv s x)
    \<Longrightarrow> seg t a xs b"
  by (induction xs arbitrary: a) auto

lemma seg_ends: "seg s a xs b \<Longrightarrow> nxt s a = hd (xs @ [b]) \<and> prv s b = last (a # xs)"
  by (induction xs arbitrary: a) auto

lemma ring_empty: "ring s h [] \<longleftrightarrow> nxt s h = h \<and> prv s h = h"
  by (simp add: ring_def)

lemma list_empty_iff: "ring s h xs \<Longrightarrow> list_empty h s \<longleftrightarrow> xs = []"
  by (cases xs) (auto simp: ring_def list_empty_def)

lemma INIT_LIST_HEAD_ring: "ring (INIT_LIST_HEAD h s) h []"
  by (simp add: ring_empty INIT_LIST_HEAD_def)

text \<open>Putting a node between two neighbours, and taking one out.\<close>

lemma insert_first:
  assumes "seg s a xs b" "new \<notin> set (a # xs @ [b])" "distinct (a # xs)" "distinct (xs @ [b])"
  shows "seg (list_insert new a (hd (xs @ [b])) s) a (new # xs) b"
proof (cases xs)
  case Nil
  then show ?thesis using assms by (auto simp: list_insert_def)
next
  case (Cons x ys)
  have "seg (list_insert new a x s) x ys b"
    using assms Cons by - (rule seg_frame[of s], auto simp: list_insert_def)
  then show ?thesis using assms Cons by (auto simp: list_insert_def)
qed

lemma insert_last:
  assumes "seg s a xs b" "new \<notin> set (a # xs @ [b])" "distinct (a # xs)" "distinct (xs @ [b])"
  shows "seg (list_insert new (last (a # xs)) b s) a (xs @ [new]) b"
proof (cases xs rule: rev_cases)
  case Nil
  then show ?thesis using assms by (auto simp: list_insert_def)
next
  case (snoc ys x)
  then have "seg s a ys x" "nxt s x = b" "prv s b = x" using assms(1) by (auto simp: seg_append)
  moreover have "seg (list_insert new x b s) a ys x"
    using calculation(1) assms snoc by - (rule seg_frame[of s], auto simp: list_insert_def)
  ultimately show ?thesis using assms snoc by (auto simp: seg_append list_insert_def)
qed

lemma seg_join:
  assumes "seg s a us e" "seg s e vs b" "distinct (a # us @ vs)" "distinct (us @ vs @ [b])"
  shows "seg (list_unlink (last (a # us)) (hd (vs @ [b])) s) a (us @ vs) b"
  using assms
proof (induction us arbitrary: a)
  case Nil
  show ?case
  proof (cases vs)
    case (Cons n ws)
    then have "seg (list_unlink a n s) n ws b"
      using Nil by - (rule seg_frame[of s], auto simp: list_unlink_def)
    then show ?thesis using Cons by (auto simp: list_unlink_def)
  qed (simp add: list_unlink_def)
next
  case (Cons u us)
  have "a \<noteq> last (u # us)" using Cons.prems(3) last_in_set[of "u # us"] by auto
  moreover have "u \<noteq> hd (vs @ [b])" using Cons.prems(4) by (cases vs) auto
  moreover have "seg (list_unlink (last (u # us)) (hd (vs @ [b])) s) u (us @ vs) b"
    using Cons by auto
  ultimately show ?case using Cons.prems(1) by (auto simp: list_unlink_def)
qed

lemma list_add_ring:
  assumes "ring s h xs" "new \<notin> set (h # xs)"
  shows "ring (list_add new h s) h (new # xs)"
  using assms insert_first[of s h xs h new] seg_ends[of s h xs h] by (auto simp: ring_def list_add_def)

lemma list_add_tail_ring:
  assumes "ring s h xs" "new \<notin> set (h # xs)"
  shows "ring (list_add_tail new h s) h (xs @ [new])"
  using assms insert_last[of s h xs h new] seg_ends[of s h xs h] by (auto simp: ring_def list_add_tail_def)

lemma list_del_entry_ring:
  assumes "ring s h (us @ e # vs)"
  shows "ring (list_del_entry e s) h (us @ vs)" "e \<notin> set (h # us @ vs)"
  using assms seg_join[of s h us e vs h] seg_ends[of s h us e] seg_ends[of s e vs h]
  by (auto simp: ring_def list_del_entry_def seg_append)

text \<open>A ring does not change when the links of other nodes do.\<close>

lemma ring_frame:
  "ring s h xs \<Longrightarrow> (\<And>x. x \<in> set (h # xs) \<Longrightarrow> nxt t x = nxt s x \<and> prv t x = prv s x) \<Longrightarrow> ring t h xs"
  unfolding ring_def using seg_frame[of s h xs h t] by auto

lemma list_del_ring:
  assumes "ring s h (us @ e # vs)"
  shows "ring (list_del e s) h (us @ vs)"
  using list_del_entry_ring[OF assms]
  by - (rule ring_frame[of "list_del_entry e s"], auto simp: list_del_def list_del_entry_def)

lemma list_del_init_ring:
  assumes "ring s h (us @ e # vs)"
  shows "ring (list_del_init e s) h (us @ vs)" "ring (list_del_init e s) e []"
proof -
  show "ring (list_del_init e s) h (us @ vs)"
    using list_del_entry_ring[OF assms]
    by - (rule ring_frame[of "list_del_entry e s"], auto simp: list_del_init_def INIT_LIST_HEAD_def)
  show "ring (list_del_init e s) e []" by (simp add: list_del_init_def INIT_LIST_HEAD_ring)
qed

lemma list_move_ring:
  assumes "ring s h (us @ e # vs)"
  shows "ring (list_move e h s) h (e # us @ vs)" "ring (list_move_tail e h s) h (us @ vs @ [e])"
  using list_add_ring[OF list_del_entry_ring[OF assms]] list_add_tail_ring[OF list_del_entry_ring[OF assms]]
  by (auto simp: list_move_def list_move_tail_def)

lemma list_rotate_left_ring:
  assumes "ring s h xs"
  shows "ring (list_rotate_left h s) h (rotate1 xs)"
proof (cases xs)
  case Nil
  then show ?thesis using assms list_empty_iff[OF assms] by (simp add: list_rotate_left_def)
next
  case (Cons x ys)
  then show ?thesis using assms list_empty_iff[OF assms] seg_ends[of s h xs h] list_move_ring(2)[of s h "[]" x ys]
    by (auto simp: list_rotate_left_def ring_def)
qed

text \<open>The nodes of a ring put between \<open>p\<close> and \<open>n\<close>.\<close>

lemma splice_between:
  assumes "seg s l ys l" "ys \<noteq> []" "distinct (l # ys)" "p \<notin> set ys" "n \<notin> set ys"
  shows "seg (do_list_splice l p n s) p ys n"
proof -
  obtain y zs where ys: "ys = y # zs" using assms(2) by (cases ys) auto
  show ?thesis
  proof (cases zs rule: rev_cases)
    case Nil
    then show ?thesis using assms ys by (auto simp: do_list_splice_def Let_def)
  next
    case (snoc ws z)
    have e: "nxt s l = y" "prv s l = z" "seg s y ws z" using assms(1) ys snoc by (auto simp: seg_append)
    have "seg (do_list_splice l p n s) y ws z"
      using e assms(3-5) ys snoc by - (rule seg_frame[of s], auto simp: do_list_splice_def Let_def)
    then show ?thesis using e assms(3-5) ys snoc by (auto simp: do_list_splice_def Let_def seg_append)
  qed
qed

lemma splice_links:
  "nxt (do_list_splice l p n s) = (nxt s)(p := nxt s l, prv s l := n)"
  "prv (do_list_splice l p n s) = (prv s)(nxt s l := p, n := prv s l)"
  by (simp_all add: do_list_splice_def Let_def)

lemma ring_ends:
  assumes "ring s l ys" "ys \<noteq> []"
  shows "nxt s l \<in> set ys" "prv s l \<in> set ys"
  using seg_ends[of s l ys l] assms hd_in_set[of ys] last_in_set[of ys] by (simp_all add: ring_def hd_append)

lemma splice_ring:
  assumes "ring s l ys" "ring s h xs" "set (l # ys) \<inter> set (h # xs) = {}" "ys \<noteq> []"
  shows "ring (do_list_splice l h (nxt s h) s) h (ys @ xs)" "ring (do_list_splice l (prv s h) h s) h (xs @ ys)"
proof -
  let ?t = "do_list_splice l h (nxt s h) s" and ?u = "do_list_splice l (prv s h) h s"
  have d: "distinct (h # ys @ xs)" "distinct (h # xs @ ys)" and sl: "seg s l ys l" "distinct (l # ys)" and sh: "seg s h xs h"
    using assms(1-3) by (auto simp: ring_def)
  have e: "nxt s l \<notin> set (h # xs)" "prv s l \<notin> set (h # xs)" using ring_ends[OF assms(1,4)] assms(3) by auto
  have "nxt s h \<in> set (h # xs)" "prv s h \<in> set (h # xs)"
    using ring_ends[OF assms(2)] assms(2) by (cases "xs = []"; simp add: ring_def)+
  then have nh: "nxt s h \<notin> set ys" "prv s h \<notin> set ys" "h \<notin> set ys" using assms(3) by auto
  note a = splice_between[OF sl(1) assms(4) sl(2) nh(3,1)] splice_between[OF sl(1) assms(4) sl(2) nh(2,3)]
  have "seg ?t h (ys @ xs) h"
  proof (cases xs)
    case Nil
    then show ?thesis using a(1) sh by simp
  next
    case (Cons x ws)
    then have x: "seg s x ws h" "nxt s h = x" "x \<notin> set ws" "x \<noteq> h" "h \<notin> set ws" using sh d by auto
    have "seg ?t x ws h" by (rule seg_frame[OF x(1)]) (use x e Cons in \<open>auto simp: splice_links\<close>)
    then show ?thesis using a(1) Cons x(2) by (simp add: seg_append)
  qed
  then show "ring ?t h (ys @ xs)" using d(1) by (simp add: ring_def)
  have "seg ?u h (xs @ ys) h"
  proof (cases xs rule: rev_cases)
    case Nil
    then show ?thesis using a(2) sh by simp
  next
    case (snoc ws x)
    then have x: "seg s h ws x" "prv s h = x" "x \<notin> set ws" "x \<noteq> h" "h \<notin> set ws" using sh d by (auto simp: seg_append)
    have "seg ?u h ws x" by (rule seg_frame[OF x(1)]) (use x e snoc in \<open>auto simp: splice_links\<close>)
    then show ?thesis using a(2) snoc x(2) by (simp add: seg_append)
  qed
  then show "ring ?u h (xs @ ys)" using d(2) by (simp add: ring_def)
qed

lemma list_splice_ring:
  assumes "ring s l ys" "ring s h xs" "set (l # ys) \<inter> set (h # xs) = {}"
  shows "ring (list_splice l h s) h (ys @ xs)" "ring (list_splice_tail l h s) h (xs @ ys)"
  using splice_ring[OF assms] assms(2) list_empty_iff[OF assms(1)]
  by (cases "ys = []"; simp add: list_splice_def list_splice_tail_def)+

lemma list_replace_ring:
  assumes "ring s h (us @ e # vs)" "new \<notin> set (h # us @ e # vs)"
  shows "ring (list_replace e new s) h (us @ new # vs)"
proof -
  let ?t = "list_replace e new s"
  define p n where "p = last (h # us)" and "n = hd (vs @ [h])"
  have sg: "seg s h us e" "seg s e vs h" and d: "distinct (h # us @ e # vs)" using assms(1) by (auto simp: ring_def seg_append)
  have pn: "nxt s e = n" "prv s e = p" using seg_ends[OF sg(1)] seg_ends[OF sg(2)] by (auto simp: p_def n_def)
  have "p \<in> set (h # us)" unfolding p_def by (rule last_in_set) simp
  then have p: "p \<noteq> new" "p \<notin> set vs" using d assms(2) by auto
  have "n \<in> set (vs @ [h])" unfolding n_def by (rule hd_in_set) simp
  then have n: "n \<noteq> new" "n \<noteq> e" "n \<notin> set us" using d assms(2) by auto
  have t: "nxt ?t = (nxt s)(new := n, p := new)" "prv ?t = (prv s)(n := new, new := p)"
    using n pn by (simp_all add: list_replace_def Let_def)
  have "seg ?t h us new"
  proof (cases us rule: rev_cases)
    case (snoc ws x)
    then have x: "seg s h ws x" "p = x" using sg(1) by (simp_all add: seg_append p_def)
    have "seg ?t h ws x" using x d n assms(2) snoc by - (rule seg_frame[of s], auto simp: t)
    then show ?thesis using snoc x(2) by (simp add: seg_append t)
  qed (simp add: t p_def)
  moreover have "seg ?t new vs h"
  proof (cases vs)
    case Nil
    then show ?thesis using p(1) n(1) by (auto simp: t n_def)
  next
    case (Cons x ws)
    then have x: "seg s x ws h" "n = x" using sg(2) by (simp_all add: n_def)
    have "seg ?t x ws h" using x d p assms(2) Cons by - (rule seg_frame[of s], auto simp: t)
    then show ?thesis using Cons p(1) n(1) x(2) by (auto simp: t)
  qed
  ultimately show ?thesis using d assms(2) by (auto simp: ring_def seg_append)
qed

lemma list_cut_position_ring:
  assumes "ring s h (us @ e # vs)" "l \<notin> set (h # us @ e # vs)"
  shows "ring (list_cut_position l h e s) l (us @ [e])" "ring (list_cut_position l h e s) h vs"
proof -
  let ?t = "do_list_cut_position l h e s"
  define f n where "f = hd (us @ [e])" and "n = hd (vs @ [h])"
  have sg: "seg s h us e" "seg s e vs h" and d: "distinct (h # us @ e # vs)" using assms(1) by (auto simp: ring_def seg_append)
  have fn: "nxt s h = f" "nxt s e = n" using seg_ends[OF sg(1)] seg_ends[OF sg(2)] by (auto simp: f_def n_def)
  have "f \<in> set (us @ [e])" unfolding f_def by (rule hd_in_set) simp
  then have f: "f \<noteq> l" "f \<noteq> h" "f \<notin> set vs" using d assms(2) by auto
  have "n \<in> set (vs @ [h])" unfolding n_def by (rule hd_in_set) simp
  then have n: "n \<noteq> l" "n \<noteq> e" "n \<notin> set us" "n \<noteq> f" using d assms(2) \<open>f \<in> _\<close> by auto
  have t: "nxt ?t = (nxt s)(l := f, e := l, h := n)" "prv ?t = (prv s)(f := l, l := e, n := h)"
    using fn assms(2) by (simp_all add: do_list_cut_position_def Let_def)
  have "\<not> list_empty h s" using list_empty_iff[OF assms(1)] by simp
  moreover have "\<not> (list_is_singular h s \<and> nxt s h \<noteq> e \<and> h \<noteq> e)"
  proof
    assume *: "list_is_singular h s \<and> nxt s h \<noteq> e \<and> h \<noteq> e"
    have "prv s h = last (e # vs)" using seg_ends[OF sg(2)] by simp
    then have "prv s h \<in> set (e # vs)" using last_in_set[of "e # vs"] by simp
    moreover have "us \<noteq> []" using * fn by (auto simp: f_def)
    then have "nxt s h \<in> set us" using fn by (cases us) (auto simp: f_def)
    ultimately show False using * d by (auto simp: list_is_singular_def)
  qed
  ultimately have c: "list_cut_position l h e s = ?t" using d by (auto simp: list_cut_position_def)
  have "e \<noteq> h" "l \<noteq> e" "l \<noteq> h" using d assms(2) by auto
  then have tl: "nxt ?t l = f" "prv ?t f = l" "nxt ?t e = l" "prv ?t l = e" using f(1) n(1,4) by (simp_all add: t)
  have "seg ?t l (us @ [e]) l"
  proof (cases us)
    case Nil
    then show ?thesis using tl by (simp add: f_def)
  next
    case (Cons x ws)
    then have x: "seg s x ws e" "f = x" using sg(1) by (simp_all add: f_def)
    have "seg ?t x ws e"
    proof (rule seg_frame[OF x(1)])
      fix z assume "z \<in> set (x # ws)"
      then have "z \<noteq> l" "z \<noteq> e" "z \<noteq> h" using Cons d assms(2) by auto
      then show "nxt ?t z = nxt s z" by (simp add: t)
    next
      fix z assume "z \<in> set (ws @ [e])"
      then have "z \<noteq> f" "z \<noteq> l" "z \<noteq> n" using Cons d assms(2) n(2,3) x(2) by auto
      then show "prv ?t z = prv s z" by (simp add: t)
    qed
    then show ?thesis using Cons x(2) tl by (simp add: seg_append)
  qed
  then show "ring (list_cut_position l h e s) l (us @ [e])" using d assms(2) by (auto simp: c ring_def)
  have "seg ?t h vs h"
  proof (cases vs)
    case Nil
    then show ?thesis by (simp add: t n_def)
  next
    case (Cons x ws)
    then have x: "seg s x ws h" "n = x" using sg(2) by (simp_all add: n_def)
    have "seg ?t x ws h"
    proof (rule seg_frame[OF x(1)])
      fix z assume "z \<in> set (x # ws)"
      then have "z \<noteq> l" "z \<noteq> e" "z \<noteq> h" using Cons d assms(2) by auto
      then show "nxt ?t z = nxt s z" by (simp add: t)
    next
      fix z assume "z \<in> set (ws @ [h])"
      then have "z \<noteq> f" "z \<noteq> l" "z \<noteq> n" using Cons d assms(2) f(2,3) x(2) by auto
      then show "prv ?t z = prv s z" by (simp add: t)
    qed
    then show ?thesis using Cons x(2) by (simp add: t)
  qed
  then show "ring (list_cut_position l h e s) h vs" using d by (auto simp: c ring_def)
qed


definition demo_links :: links where
  "demo_links = list_add_tail 2 0 (list_add 1 0 (INIT_LIST_HEAD 0 (INIT_LIST_HEAD 9 \<lparr>nxt = id, prv = id\<rparr>)))"


section \<open>The lock-less list\<close>

text \<open>As one processor uses it with no other around: the compare and exchange then succeeds at once.\<close>

record llist =
  lfirst :: "nat option"
  lnext :: "nat \<Rightarrow> nat option"

definition llist_add_batch :: "nat \<Rightarrow> nat \<Rightarrow> llist \<Rightarrow> bool \<times> llist" where
  "llist_add_batch new_first new_last s =
     (lfirst s = None, s\<lparr>lnext := (lnext s)(new_last := lfirst s), lfirst := Some new_first\<rparr>)"

definition llist_add :: "nat \<Rightarrow> llist \<Rightarrow> bool \<times> llist" where
  "llist_add new s = llist_add_batch new new s"

definition llist_del_all :: "llist \<Rightarrow> nat option \<times> llist" where
  "llist_del_all s = (lfirst s, s\<lparr>lfirst := None\<rparr>)"

definition llist_del_first :: "llist \<Rightarrow> nat option \<times> llist" where
  "llist_del_first s =
     (case lfirst s of None \<Rightarrow> (None, s) | Some e \<Rightarrow> (Some e, s\<lparr>lfirst := lnext s e\<rparr>))"

partial_function (option) reverse_loop :: "nat option \<Rightarrow> nat option \<Rightarrow> llist \<Rightarrow> (nat option \<times> llist) option" where
  "reverse_loop hp new_head s =
     (case hp of
        None \<Rightarrow> Some (new_head, s)
      | Some t \<Rightarrow> reverse_loop (lnext s t) (Some t) (s\<lparr>lnext := (lnext s)(t := new_head)\<rparr>))"

definition llist_reverse_order :: "nat option \<Rightarrow> llist \<Rightarrow> (nat option \<times> llist) option" where
  "llist_reverse_order hp s = reverse_loop hp None s"

text \<open>Reversing a chain, the rest of it still to come in front of the part done.\<close>

lemma reverse_loop_chain:
  assumes "chain (lnext s) hp xs" "chain (lnext s) acc ys" "set xs \<inter> set ys = {}"
  shows "\<exists>hp' s'. reverse_loop hp acc s = Some (hp', s') \<and> chain (lnext s') hp' (rev xs @ ys) \<and> lfirst s' = lfirst s"
  using assms
proof (induction xs arbitrary: hp acc ys s)
  case Nil
  then show ?case by (subst reverse_loop.simps) simp
next
  case (Cons x xs)
  let ?s = "s\<lparr>lnext := (lnext s)(x := acc)\<rparr>"
  have "x \<notin> set xs" using chain_distinct[OF Cons.prems(1)] by simp
  then have "chain (lnext ?s) (lnext s x) xs" "chain (lnext ?s) (Some x) (x # ys)" "set xs \<inter> set (x # ys) = {}"
    using Cons.prems by auto
  from Cons.IH[OF this] Cons.prems(1) show ?case by (subst reverse_loop.simps) auto
qed

subsection \<open>Many processors\<close>

text \<open>
  Any number of processors add nodes while one, the consumer, takes them out. An adding processor has
  stored the first node it saw in its own node and is about to compare and exchange; the consumer in
  \<^verbatim>\<open>llist_del_first\<close> has read the first node and its next field. The events are the successful
  exchanges.
\<close>

datatype adder = Idle | Trying nat "nat option"
datatype consumer = Ready | Taking nat "nat option"
datatype event = Push nat | Pop nat | Pop_none | Take_all "nat list"

record shared = llist +
  adders :: "nat \<Rightarrow> adder"
  consumer :: consumer

text \<open>The nodes some processor is adding.\<close>

definition pending_nodes :: "shared \<Rightarrow> nat set" where
  "pending_nodes s = {n. \<exists>c f. adders s c = Trying n f}"

inductive llist_step :: "shared \<Rightarrow> event option \<Rightarrow> shared \<Rightarrow> bool" where
  add_read: "adders s c = Idle \<Longrightarrow> chain (lnext s) (lfirst s) st \<Longrightarrow> n \<notin> set st \<Longrightarrow> n \<notin> pending_nodes s
    \<Longrightarrow> (\<forall>q. consumer s \<noteq> Taking n q)
    \<Longrightarrow> llist_step s None (s\<lparr>lnext := (lnext s)(n := lfirst s), adders := (adders s)(c := Trying n (lfirst s))\<rparr>)"
| add_ok: "adders s c = Trying n f \<Longrightarrow> lfirst s = f
    \<Longrightarrow> llist_step s (Some (Push n)) (s\<lparr>lfirst := Some n, adders := (adders s)(c := Idle)\<rparr>)"
| add_retry: "adders s c = Trying n f \<Longrightarrow> lfirst s \<noteq> f
    \<Longrightarrow> llist_step s None (s\<lparr>lnext := (lnext s)(n := lfirst s), adders := (adders s)(c := Trying n (lfirst s))\<rparr>)"
| del_read: "consumer s = Ready \<Longrightarrow> lfirst s = Some e
    \<Longrightarrow> llist_step s None (s\<lparr>consumer := Taking e (lnext s e)\<rparr>)"
| del_none: "consumer s = Ready \<Longrightarrow> lfirst s = None \<Longrightarrow> llist_step s (Some Pop_none) s"
| del_ok: "consumer s = Taking e q \<Longrightarrow> lfirst s = Some e
    \<Longrightarrow> llist_step s (Some (Pop e)) (s\<lparr>lfirst := q, consumer := Ready\<rparr>)"
| del_retry: "consumer s = Taking e q \<Longrightarrow> lfirst s = Some e' \<Longrightarrow> e' \<noteq> e
    \<Longrightarrow> llist_step s None (s\<lparr>consumer := Taking e' (lnext s e')\<rparr>)"
| del_all: "consumer s = Ready \<Longrightarrow> chain (lnext s) (lfirst s) st
    \<Longrightarrow> llist_step s (Some (Take_all st)) (s\<lparr>lfirst := None\<rparr>)"

text \<open>What the events mean for a stack.\<close>

inductive stack_step :: "nat list \<Rightarrow> event option \<Rightarrow> nat list \<Rightarrow> bool" where
  "stack_step st None st"
| "stack_step st (Some (Push n)) (n # st)"
| "stack_step (e # st) (Some (Pop e)) st"
| "stack_step [] (Some Pop_none) []"
| "stack_step st (Some (Take_all st)) []"

inductive llist_run :: "shared \<Rightarrow> event option list \<Rightarrow> shared \<Rightarrow> bool" where
  "llist_run s [] s"
| "llist_run s evs t \<Longrightarrow> llist_step t ev u \<Longrightarrow> llist_run s (evs @ [ev]) u"

inductive stack_run :: "nat list \<Rightarrow> event option list \<Rightarrow> nat list \<Rightarrow> bool" where
  "stack_run st [] st"
| "stack_run st evs st' \<Longrightarrow> stack_step st' ev st'' \<Longrightarrow> stack_run st (evs @ [ev]) st''"

definition llist_ok :: "nat list \<Rightarrow> shared \<Rightarrow> bool" where
  "llist_ok st s \<longleftrightarrow> chain (lnext s) (lfirst s) st
     \<and> (\<forall>c n f. adders s c = Trying n f \<longrightarrow> lnext s n = f \<and> n \<notin> set st)
     \<and> (\<forall>c d n f g. adders s c = Trying n f \<and> adders s d = Trying n g \<longrightarrow> c = d)
     \<and> (\<forall>e q. consumer s = Taking e q \<longrightarrow> e \<in> set st \<and> lnext s e = q)"

lemma llist_step_refines:
  assumes "llist_step s ev t" "llist_ok st s"
  shows "\<exists>st'. stack_step st ev st' \<and> llist_ok st' t"
  using assms(1)
proof (cases rule: llist_step.cases)
  case (add_read c st' n)
  then have "st' = st" using chain_unique[of "lnext s" "lfirst s" st' st] assms(2) by (simp add: llist_ok_def)
  with add_read assms(2) show ?thesis by (intro exI[of _ st]) (auto simp: llist_ok_def pending_nodes_def intro: stack_step.intros)
next
  case (add_ok c n f)
  with assms(2) show ?thesis by (intro exI[of _ "n # st"]) (auto simp: llist_ok_def intro: stack_step.intros)
next
  case (add_retry c n f)
  with assms(2) show ?thesis by (intro exI[of _ st]) (auto simp: llist_ok_def intro: stack_step.intros)
next
  case (del_read e)
  with assms(2) show ?thesis by (intro exI[of _ st]) (cases st, auto simp: llist_ok_def intro: stack_step.intros)
next
  case del_none
  with assms(2) show ?thesis by (intro exI[of _ st]) (auto simp: llist_ok_def intro: stack_step.intros)
next
  case (del_ok e q)
  with assms(2) obtain st' where "st = e # st'" by (cases st) (auto simp: llist_ok_def)
  with del_ok assms(2) show ?thesis by (intro exI[of _ st']) (auto simp: llist_ok_def intro: stack_step.intros)
next
  case (del_retry e q e')
  with assms(2) show ?thesis by (intro exI[of _ st]) (cases st, auto simp: llist_ok_def intro: stack_step.intros)
next
  case (del_all st')
  then have "st' = st" using chain_unique[of "lnext s" "lfirst s" st' st] assms(2) by (simp add: llist_ok_def)
  with del_all assms(2) show ?thesis by (intro exI[of _ "[]"]) (auto simp: llist_ok_def intro: stack_step.intros)
qed

text \<open>
  C19. The lock-less list is a stack under every interleaving of its users: any number of processors
  adding nodes and one taking them out, each exchange at any moment between the others' reads and
  exchanges. The nodes linked in the list are at any time those added and not yet taken, each once, and
  every node taken is the newest.
\<close>

theorem llist_is_stack:
  assumes "llist_run s0 evs s" "lfirst s0 = None" "\<forall>c. adders s0 c = Idle" "consumer s0 = Ready"
  shows "\<exists>st. stack_run [] evs st \<and> chain (lnext s) (lfirst s) st"
proof -
  have "\<exists>st. stack_run [] evs st \<and> llist_ok st s"
    using assms
  proof (induction rule: llist_run.induct)
    case (1 s)
    then show ?case by (intro exI[of _ "[]"]) (auto simp: llist_ok_def intro: stack_run.intros)
  next
    case (2 s evs t ev u)
    then obtain st where "stack_run [] evs st" "llist_ok st t" by blast
    with llist_step_refines[OF 2(2)] show ?case by (meson stack_run.intros(2))
  qed
  then show ?thesis by (auto simp: llist_ok_def)
qed

definition demo_shared :: shared where
  "demo_shared = \<lparr>lfirst = None, lnext = (\<lambda>_. None), adders = (\<lambda>_. Idle), consumer = Ready\<rparr>"

text \<open>Two processors read the empty list; the first adds its node, the second has to try again.\<close>

theorem llist_is_stack_witness:
  "\<exists>s. llist_run demo_shared [None, None, Some (Push 1), None, Some (Push 2)] s
   \<and> (\<exists>st. stack_run [] [None, None, Some (Push 1), None, Some (Push 2)] st \<and> chain (lnext s) (lfirst s) st)"
proof -
  define s1 where "s1 = demo_shared\<lparr>lnext := (\<lambda>_. None)(1 := None), adders := (\<lambda>_. Idle)(0 := Trying 1 None)\<rparr>"
  define s2 where "s2 = s1\<lparr>lnext := (lnext s1)(2 := None), adders := (adders s1)(1 := Trying 2 None)\<rparr>"
  define s3 where "s3 = s2\<lparr>lfirst := Some 1, adders := (adders s2)(0 := Idle)\<rparr>"
  define s4 where "s4 = s3\<lparr>lnext := (lnext s3)(2 := lfirst s3), adders := (adders s3)(1 := Trying 2 (lfirst s3))\<rparr>"
  define s5 where "s5 = s4\<lparr>lfirst := Some 2, adders := (adders s4)(1 := Idle)\<rparr>"
  note d = s1_def s2_def s3_def s4_def s5_def demo_shared_def
  have "llist_step demo_shared None s1"
    using add_read[of demo_shared 0 "[]" 1] by (simp add: d pending_nodes_def)
  moreover have "llist_step s1 None s2"
    using add_read[of s1 1 "[]" 2] by (simp add: d pending_nodes_def)
  moreover have "llist_step s2 (Some (Push 1)) s3" using add_ok[of s2 0 1 None] by (simp add: d)
  moreover have "llist_step s3 None s4" using add_retry[of s3 1 2 None] by (simp add: d)
  moreover have "llist_step s4 (Some (Push 2)) s5" using add_ok[of s4 1 2 "Some 1"] by (simp add: d)
  ultimately have r: "llist_run demo_shared ([] @ [None] @ [None] @ [Some (Push 1)] @ [None] @ [Some (Push 2)]) s5"
    unfolding append_assoc[symmetric] by (blast intro: llist_run.intros)
  have "\<exists>st. stack_run [] ([] @ [None] @ [None] @ [Some (Push 1)] @ [None] @ [Some (Push 2)]) st \<and> chain (lnext s5) (lfirst s5) st"
    by (rule llist_is_stack[OF r]) (simp_all add: demo_shared_def)
  with r show ?thesis by auto
qed

end
