(* ===== verification/Kthread.thy ===== *)
theory Kthread
  imports Kernel_List
begin

text \<open>
  Kernel threads: kernel/kthread.c and include/yaos/sched.h, as one processor sees them. The processor runs
  one thread at a time; every thread that runs was started by another, its parent, to which it goes
  back when it suspends or yields. A switch of stacks ends the model of the call: the result says which
  thread runs next and whether it starts or continues. The stack pointer saved at the switch and the
  test whether a stack address is mapped are arguments. The theory proves that the nesting of threads
  stays well formed, and what happens to a thread woken by one of higher level.
\<close>

section \<open>Threads\<close>

definition THREAD_IDLE :: u32 where "THREAD_IDLE = 4"
definition THREAD_SUSPEND :: u32 where "THREAD_SUSPEND = 8"
definition THREAD_INIT :: nat where "THREAD_INIT = 0"
definition THREAD_READY :: nat where "THREAD_READY = 1"
definition THREAD_RUN :: nat where "THREAD_RUN = 2"
definition THREAD_DONE :: nat where "THREAD_DONE = 3"
definition THREAD_LVL_IDLE :: u32 where "THREAD_LVL_IDLE = 4096"

record thread_struct =
  stack_addr :: u64
  stack_size :: u64
  rsp :: u64
  lvl :: u32
  flag :: u32
  on_cpu :: nat
  thread_state :: nat
  real_parent :: "nat option"
  parent :: "nat option"
  task :: nat

record kthreads =
  thread :: "nat \<Rightarrow> thread_struct"
  current_thread :: nat
  create_list :: links
  max_phy_mem :: u64

datatype switch = Stay | Start nat | Continue nat

definition upd :: "nat \<Rightarrow> (thread_struct \<Rightarrow> thread_struct) \<Rightarrow> kthreads \<Rightarrow> kthreads" where
  "upd p f s = s\<lparr>thread := (thread s)(p := f (thread s p))\<rparr>"

definition suspended :: "kthreads \<Rightarrow> nat \<Rightarrow> bool" where
  "suspended s p \<longleftrightarrow> flag (thread s p) AND THREAD_SUSPEND \<noteq> 0"

section \<open>Switching\<close>

text \<open>\<open>pte\<close> is \<^verbatim>\<open>get_pte_with_addr\<close>, \<open>sp\<close> the stack pointer the switch saves in the old thread.\<close>

definition thread_switch_first :: "(u64 \<Rightarrow> u64) \<Rightarrow> u64 \<Rightarrow> nat \<Rightarrow> nat \<Rightarrow> kthreads \<Rightarrow> (switch \<times> kthreads) kres" where
  "thread_switch_first pte sp p old s =
     (let stack_point = stack_addr (thread s p) + stack_size (thread s p) - 8 in
      kbind (kassert (stack_point \<noteq> 0) ''stack_point'') (\<lambda>_.
        kbind (kassert (stack_point < max_phy_mem s \<or> pte stack_point \<noteq> 0) ''stack mapped'') (\<lambda>_.
          ret (Start p, upd old (rsp_update (\<lambda>_. sp)) s))))"

definition thread_switch_to :: "(u64 \<Rightarrow> u64) \<Rightarrow> u64 \<Rightarrow> nat \<Rightarrow> nat \<Rightarrow> kthreads \<Rightarrow> (switch \<times> kthreads) kres" where
  "thread_switch_to pte sp p old s =
     (let r = rsp (thread s p) in
      kbind (kassert (r \<noteq> 0) ''rsp'') (\<lambda>_.
        kbind (kassert (r < max_phy_mem s \<or> pte r \<noteq> 0) ''stack mapped'') (\<lambda>_.
          ret (Continue p, upd old (rsp_update (\<lambda>_. sp)) s))))"

text \<open>The end of all the switching functions; \<open>again\<close> says whether a continued thread is marked running.\<close>

definition enter_thread :: "(u64 \<Rightarrow> u64) \<Rightarrow> u64 \<Rightarrow> bool \<Rightarrow> nat \<Rightarrow> nat \<Rightarrow> kthreads \<Rightarrow> (switch \<times> kthreads) kres" where
  "enter_thread pte sp again p old s =
     (if thread_state (thread s p) = THREAD_READY
      then thread_switch_first pte sp p old (upd p (thread_state_update (\<lambda>_. THREAD_RUN)) s)
      else thread_switch_to pte sp p old (if again then upd p (thread_state_update (\<lambda>_. THREAD_RUN)) s else s))"

text \<open>
  \<^verbatim>\<open>create_thread_oncpu\<close>: \<open>alloc\<close> is \<^verbatim>\<open>alloc_vm_stack\<close>; \<open>node\<close> and \<open>child\<close> are the list nodes inside the thread,
  \<open>all\<close> the list of created threads and \<open>of_task\<close> that of the threads of its task. The locks are free
  on entry.
\<close>

definition create_thread_oncpu ::
  "(u64 \<Rightarrow> (u64 \<times> 'v) kres) \<Rightarrow> 'v \<Rightarrow> nat \<Rightarrow> nat \<Rightarrow> nat \<Rightarrow> nat \<Rightarrow> nat \<Rightarrow> nat \<Rightarrow> kthreads \<Rightarrow> (int \<times> 'v \<times> kthreads) kres" where
  "create_thread_oncpu alloc v node child all of_task p oncpu s =
     kbind (if stack_addr (thread s p) = 0 then alloc (stack_size (thread s p))
            else ret (stack_addr (thread s p), v)) (\<lambda>(a, v).
       if a = 0 then ret (- 12, v, s)
       else ret (0, v,
         (upd p (\<lambda>t. t\<lparr>stack_addr := a, thread_state := THREAD_READY, on_cpu := oncpu\<rparr>) s)
           \<lparr>create_list := list_add child of_task (list_add node all (create_list s))\<rparr>))"

definition exit_thread :: "(u64 \<Rightarrow> u64) \<Rightarrow> u64 \<Rightarrow> kthreads \<Rightarrow> (switch \<times> kthreads) kres" where
  "exit_thread pte sp s =
     (let pold = current_thread s; s = upd pold (thread_state_update (\<lambda>_. THREAD_DONE)) s in
      case parent (thread s pold) of
        None \<Rightarrow> halt (Panic ''no parent thread running'')
      | Some p \<Rightarrow> enter_thread pte sp True p pold s)"

text \<open>The check of a debug build that a thread woken while not suspended is no ancestor of the running one.\<close>

partial_function (option) is_ancestor :: "kthreads \<Rightarrow> nat \<Rightarrow> nat option \<Rightarrow> bool \<Rightarrow> bool option" where
  "is_ancestor s p q found =
     (case q of
        None \<Rightarrow> Some found
      | Some x \<Rightarrow> is_ancestor s p (parent (thread s x)) (found \<or> parent (thread s x) = Some p))"

definition wake_up_thread :: "(u64 \<Rightarrow> u64) \<Rightarrow> u64 \<Rightarrow> nat \<Rightarrow> kthreads \<Rightarrow> (switch \<times> kthreads) kres" where
  "wake_up_thread pte sp p s =
     (let pold = current_thread s in
      if p = pold then ret (Stay, s)
      else if thread_state (thread s p) = THREAD_INIT then ret (Stay, s)
      else if \<not> suspended s p then
        (case is_ancestor s p (Some pold) False of
           None \<Rightarrow> None
         | Some found \<Rightarrow> kbind (kassert (\<not> found) ''found'') (\<lambda>_. ret (Stay, s)))
      else if lvl (thread s pold) < lvl (thread s p) then
        kbind (kassert (Some p \<noteq> parent (thread s pold)) ''p != pold->parent'') (\<lambda>_.
          let s = upd p (parent_update (\<lambda>_. parent (thread s pold))) s
          in ret (Stay, upd pold (parent_update (\<lambda>_. Some p)) s))
      else
        let s = upd p (flag_update (\<lambda>f. f AND NOT THREAD_SUSPEND)) s;
            s = s\<lparr>current_thread := p\<rparr>;
            s = upd p (parent_update (\<lambda>_. Some pold)) s
        in enter_thread pte sp False p pold s)"

definition suspend_thread :: "(u64 \<Rightarrow> u64) \<Rightarrow> u64 \<Rightarrow> kthreads \<Rightarrow> (switch \<times> kthreads) kres" where
  "suspend_thread pte sp s =
     (let pold = current_thread s in
      kbind (kassert (parent (thread s pold) \<noteq> Some pold) ''p != pold'') (\<lambda>_.
        case parent (thread s pold) of
          None \<Rightarrow> halt (Panic ''no parent thread running'')
        | Some p \<Rightarrow>
            kbind (kassert (\<not> suspended s pold) ''not suspended'') (\<lambda>_.
              let s = upd pold (flag_update (\<lambda>f. f OR THREAD_SUSPEND)) s;
                  s = s\<lparr>current_thread := p\<rparr>
              in enter_thread pte sp True p pold s)))"

definition resume_thread :: "(u64 \<Rightarrow> u64) \<Rightarrow> u64 \<Rightarrow> nat \<Rightarrow> kthreads \<Rightarrow> (switch \<times> kthreads) kres" where
  "resume_thread pte sp p s =
     (if thread_state (thread s p) = THREAD_DONE then ret (Stay, s)
      else let pold = current_thread s;
               s = upd p (parent_update (\<lambda>_. Some pold)) s
           in kbind (kassert (pold \<noteq> p) ''pold != p'') (\<lambda>_.
                enter_thread pte sp False p pold (s\<lparr>current_thread := p\<rparr>)))"

definition yield_thread :: "(u64 \<Rightarrow> u64) \<Rightarrow> u64 \<Rightarrow> kthreads \<Rightarrow> (switch \<times> kthreads) kres" where
  "yield_thread pte sp s =
     (let pold = current_thread s in
      kbind (kassert (parent (thread s pold) \<noteq> Some pold) ''p != pold'') (\<lambda>_.
        case parent (thread s pold) of
          None \<Rightarrow> halt (Panic ''no parent thread running'')
        | Some p \<Rightarrow> enter_thread pte sp True p pold (s\<lparr>current_thread := p\<rparr>)))"

text \<open>The idle thread, which runs on the stack of the boot code and has no parent.\<close>

definition init_idle_thread ::
  "(u64 \<Rightarrow> (u64 \<times> 'v) kres) \<Rightarrow> 'v \<Rightarrow> nat \<Rightarrow> nat \<Rightarrow> nat \<Rightarrow> nat \<Rightarrow> u64 \<Rightarrow> u64 \<Rightarrow> nat \<Rightarrow> nat \<Rightarrow> nat \<Rightarrow> kthreads \<Rightarrow> (int \<times> 'v \<times> kthreads) kres" where
  "init_idle_thread alloc v node child all of_task stk stk_size tsk main cpu s =
     (let s = upd main (\<lambda>t. t\<lparr>task := tsk, stack_addr := stk, stack_size := stk_size, flag := THREAD_IDLE,
                 parent := None, real_parent := None, lvl := THREAD_LVL_IDLE\<rparr>) s
      in kbind (create_thread_oncpu alloc v node child all of_task main cpu s) (\<lambda>(r, v, s).
           if r \<noteq> 0 then ret (r, v, s)
           else ret (0, v, upd main (thread_state_update (\<lambda>_. THREAD_RUN)) (s\<lparr>current_thread := main\<rparr>))))"

section \<open>The nesting of threads\<close>

definition par :: "(nat \<Rightarrow> thread_struct) \<Rightarrow> nat \<Rightarrow> nat option" where
  "par m p = parent (m p)"

text \<open>
  The running thread and its ancestors are the threads \<open>cs\<close>, none of them suspended.
\<close>

definition nested :: "nat list \<Rightarrow> kthreads \<Rightarrow> bool" where
  "nested cs s \<longleftrightarrow> chain (par (thread s)) (Some (current_thread s)) cs \<and> (\<forall>p \<in> set cs. \<not> suspended s p)"

lemma suspend_flag [simp]:
  "(f OR THREAD_SUSPEND) AND THREAD_SUSPEND \<noteq> 0" "(f AND NOT THREAD_SUSPEND) AND THREAD_SUSPEND = 0"
proof -
  have "(f OR THREAD_SUSPEND) AND THREAD_SUSPEND = THREAD_SUSPEND" by (rule bit_eqI) (auto simp: bit_simps)
  then show "(f OR THREAD_SUSPEND) AND THREAD_SUSPEND \<noteq> 0" by (simp add: THREAD_SUSPEND_def)
  show "(f AND NOT THREAD_SUSPEND) AND THREAD_SUSPEND = 0" by (rule bit_eqI) (auto simp: bit_simps)
qed

lemma upd_simps [simp]:
  "thread (upd p f s) = (thread s)(p := f (thread s p))" "current_thread (upd p f s) = current_thread s"
  "max_phy_mem (upd p f s) = max_phy_mem s"
  by (simp_all add: upd_def)

lemma enter_thread_frame:
  assumes "enter_thread pte sp again p old s = ret (w, t)"
  shows "w \<in> {Start p, Continue p}" "current_thread t = current_thread s" "par (thread t) = par (thread s)"
    "flag (thread t q) = flag (thread s q)" "lvl (thread t q) = lvl (thread s q)"
  using assms unfolding enter_thread_def thread_switch_first_def thread_switch_to_def
  by (auto simp: Let_def kbind_eq_ret par_def fun_eq_iff split: if_splits)

lemma suspended_cong: "flag (thread t q) = flag (thread s q) \<Longrightarrow> suspended t q = suspended s q"
  by (simp add: suspended_def)

lemma nested_cong:
  assumes "nested cs s" "current_thread t = current_thread s" "par (thread t) = par (thread s)" "\<forall>q. flag (thread t q) = flag (thread s q)"
  shows "nested cs t"
  using assms suspended_cong[of t _ s] by (auto simp: nested_def)

lemma par_upd [simp]:
  "par (m(p := flag_update f (m p))) = par m"
  "par (m(p := parent_update (\<lambda>_. q) (m p))) = (par m)(p := q)"
  by (auto simp: par_def fun_eq_iff)

text \<open>Each switch keeps the nesting: waking puts the thread on top, suspending and yielding go down one.\<close>

lemma wake_nested:
  assumes "wake_up_thread pte sp p s = ret (w, t)" "nested cs s" "\<not> lvl (thread s (current_thread s)) < lvl (thread s p)"
  shows "nested (if w = Stay then cs else p # cs) t"
proof (cases "p = current_thread s \<or> thread_state (thread s p) = THREAD_INIT \<or> \<not> suspended s p")
  case True
  then have "w = Stay" "t = s" using assms(1)
    by (auto simp: wake_up_thread_def Let_def kbind_eq_ret split: if_splits option.splits)
  then show ?thesis using assms(2) by simp
next
  case False
  define c where "c = current_thread s"
  define s1 where "s1 = upd p (parent_update (\<lambda>_. Some c)) ((upd p (flag_update (\<lambda>f. f AND NOT THREAD_SUSPEND)) s)\<lparr>current_thread := p\<rparr>)"
  have e: "enter_thread pte sp False p c s1 = ret (w, t)"
    using assms(1,3) False by (simp add: wake_up_thread_def Let_def s1_def c_def)
  have p: "p \<notin> set cs" using False assms(2) by (auto simp: nested_def)
  have "par (thread s1) = (par (thread s))(p := Some c)" by (auto simp: s1_def par_def fun_eq_iff)
  moreover have "suspended s1 q = (q \<noteq> p \<and> suspended s q)" for q by (auto simp: s1_def suspended_def)
  ultimately have "nested (p # cs) s1" using assms(2) p by (auto simp: nested_def c_def s1_def)
  then have "nested (p # cs) t" by (rule nested_cong) (use enter_thread_frame[OF e] in auto)
  then show ?thesis using enter_thread_frame(1)[OF e] by auto
qed

lemma down_nested:
  assumes "nested cs s" "suspend_thread pte sp s = ret (w, t) \<or> yield_thread pte sp s = ret (w, t)"
  shows "nested (tl cs) t \<and> tl cs \<noteq> []"
proof -
  define c where "c = current_thread s"
  obtain ds where cs: "cs = c # ds" and ch: "chain (par (thread s)) (parent (thread s c)) ds"
    using assms(1) par_def[of "thread s" c] by (auto simp: nested_def c_def chain_Some)
  have "distinct cs" using assms(1) chain_distinct unfolding nested_def by blast
  then have c: "c \<notin> set ds" using cs by simp
  obtain p s1 where p: "parent (thread s c) = Some p" and e: "enter_thread pte sp True p c s1 = ret (w, t)"
    and s1: "current_thread s1 = p" "par (thread s1) = par (thread s)" "\<forall>q. q \<noteq> c \<longrightarrow> flag (thread s1 q) = flag (thread s q)"
    using assms(2)
    by (auto simp: suspend_thread_def yield_thread_def Let_def kbind_eq_ret c_def[symmetric] split: option.splits)
  have "suspended s1 q = suspended s q" if "q \<in> set ds" for q
    using s1(3) c that by (intro suspended_cong) auto
  then have "nested ds s1" using ch p s1(1,2) assms(1) by (simp add: nested_def cs)
  then have "nested ds t" by (rule nested_cong) (use enter_thread_frame[OF e] in auto)
  then show ?thesis using cs by (auto simp: nested_def)
qed

lemma resume_nested:
  assumes "resume_thread pte sp p s = ret (w, t)" "nested cs s" "p \<notin> set cs" "\<not> suspended s p"
  shows "nested (if w = Stay then cs else p # cs) t"
proof (cases "thread_state (thread s p) = THREAD_DONE")
  case True
  then show ?thesis using assms(1,2) by (auto simp: resume_thread_def)
next
  case False
  define c where "c = current_thread s"
  define s1 where "s1 = (upd p (parent_update (\<lambda>_. Some c)) s)\<lparr>current_thread := p\<rparr>"
  have e: "enter_thread pte sp False p c s1 = ret (w, t)"
    using assms(1) False by (auto simp: resume_thread_def Let_def s1_def c_def kbind_eq_ret)
  have "par (thread s1) = (par (thread s))(p := Some c)" by (auto simp: s1_def)
  moreover have "suspended s1 q = suspended s q" for q by (auto simp: s1_def suspended_def)
  ultimately have "nested (p # cs) s1" using assms(2-4) by (auto simp: nested_def c_def s1_def)
  then have "nested (p # cs) t" by (rule nested_cong) (use enter_thread_frame[OF e] in auto)
  then show ?thesis using enter_thread_frame(1)[OF e] by auto
qed

text \<open>
  The operations of the running thread, with wake-ups of threads of the same or a higher priority and
  resumption of threads that are neither suspended nor waiting for the running one.
\<close>

inductive thread_step :: "(u64 \<Rightarrow> u64) \<Rightarrow> kthreads \<Rightarrow> kthreads \<Rightarrow> bool" for pte where
  wakes: "wake_up_thread pte sp p s = ret (w, t) \<Longrightarrow> \<not> lvl (thread s (current_thread s)) < lvl (thread s p) \<Longrightarrow> thread_step pte s t"
| suspends: "suspend_thread pte sp s = ret (w, t) \<Longrightarrow> thread_step pte s t"
| yields: "yield_thread pte sp s = ret (w, t) \<Longrightarrow> thread_step pte s t"
| resumes: "resume_thread pte sp p s = ret (w, t) \<Longrightarrow> nested cs s \<Longrightarrow> p \<notin> set cs \<Longrightarrow> \<not> suspended s p \<Longrightarrow> thread_step pte s t"

lemma nested_unique: "nested cs s \<Longrightarrow> nested ds s \<Longrightarrow> cs = ds"
  using chain_unique by (auto simp: nested_def)

lemma step_nested:
  assumes "thread_step pte s t" "nested cs s"
  shows "\<exists>ds. nested ds t \<and> last ds = last cs"
  using assms
proof (cases rule: thread_step.cases)
  case (wakes sp p w)
  then have "nested (if w = Stay then cs else p # cs) t" using wake_nested assms(2) by blast
  moreover have "cs \<noteq> []" using assms(2) by (auto simp: nested_def)
  ultimately show ?thesis by (cases "w = Stay") (simp_all, blast, metis last_ConsR)
next
  case (suspends sp w)
  then show ?thesis using down_nested[OF assms(2)] by (metis last_tl)
next
  case (yields sp w)
  then show ?thesis using down_nested[OF assms(2)] by (metis last_tl)
next
  case (resumes sp p w cs')
  then have "cs' = cs" using nested_unique assms(2) by blast
  then have "nested (if w = Stay then cs else p # cs) t" using resumes resume_nested assms(2) by blast
  moreover have "cs \<noteq> []" using assms(2) by (auto simp: nested_def)
  ultimately show ?thesis by (cases "w = Stay") (simp_all, blast, metis last_ConsR)
qed


text \<open>Idle thread 0; thread 1 is suspended and of higher priority.\<close>

definition demo_thread :: "u32 \<Rightarrow> u32 \<Rightarrow> nat option \<Rightarrow> thread_struct" where
  "demo_thread l f q = \<lparr>stack_addr = 0x1000, stack_size = 0x1000, rsp = 0x1800, lvl = l, flag = f, on_cpu = 0,
     thread_state = THREAD_RUN, real_parent = None, parent = q, task = 0\<rparr>"

definition demo_kthreads :: kthreads where
  "demo_kthreads = \<lparr>thread = (\<lambda>p. if p = 0 then demo_thread 4096 4 None else demo_thread 128 8 None),
     current_thread = 0, create_list = \<lparr>nxt = id, prv = id\<rparr>, max_phy_mem = 0x100000\<rparr>"


section \<open>Threads of lower priority\<close>

text \<open>
  C21. A suspended thread woken by one of higher priority is put below it in the nesting but stays marked
  as suspended: when the waker suspends the thread runs, and when it wants to suspend itself
  an assertion stops the machine.
\<close>

theorem wake_lower_asserts:
  assumes "current_thread s = c" "c \<noteq> p" "parent (thread s c) = Some q" "q \<noteq> p" "q \<noteq> c"
    and "suspended s p" "thread_state (thread s p) = THREAD_RUN" "lvl (thread s c) < lvl (thread s p)" "\<not> suspended s c"
    and "rsp (thread s p) \<noteq> 0" "rsp (thread s p) < max_phy_mem s"
  shows "\<exists>s1 s2. wake_up_thread pte sp1 p s = ret (Stay, s1) \<and> suspend_thread pte sp2 s1 = ret (Continue p, s2)
    \<and> current_thread s2 = p \<and> suspend_thread pte sp3 s2 = halt (Assertion ''not suspended'')"
proof -
  let ?s1 = "upd c (parent_update (\<lambda>_. Some p)) (upd p (parent_update (\<lambda>_. Some q)) s)"
  have w: "wake_up_thread pte sp1 p s = ret (Stay, ?s1)"
    using assms by (simp add: wake_up_thread_def Let_def THREAD_RUN_def THREAD_INIT_def)
  have f: "flag (thread ?s1 x) = flag (thread s x)" for x by simp
  let ?u = "upd c (flag_update (\<lambda>f. f OR THREAD_SUSPEND)) ?s1\<lparr>current_thread := p\<rparr>"
  let ?s2 = "upd c (rsp_update (\<lambda>_. sp2)) (upd p (thread_state_update (\<lambda>_. THREAD_RUN)) ?u)"
  have "\<not> suspended ?s1 c" using assms(2,9) by (simp add: suspended_def)
  then have v: "suspend_thread pte sp2 ?s1 = ret (Continue p, ?s2)"
    using assms by (simp add: suspend_thread_def Let_def enter_thread_def thread_switch_to_def THREAD_RUN_def THREAD_READY_def upd_def)
  have "suspended ?s2 p" using assms(2,6) by (simp add: suspended_def)
  moreover have "current_thread ?s2 = p" "parent (thread ?s2 p) = Some q" using assms(2) by (simp_all add: upd_def)
  ultimately have "suspend_thread pte sp3 ?s2 = halt (Assertion ''not suspended'')"
    using assms(4) by (simp add: suspend_thread_def Let_def)
  then show ?thesis using w v \<open>current_thread ?s2 = p\<close> by blast
qed

definition demo_low :: kthreads where
  "demo_low = \<lparr>thread = (\<lambda>p. if p = 0 then demo_thread 4096 4 None else if p = 1 then demo_thread 128 0 (Some 0)
      else demo_thread 512 8 None), current_thread = 1, create_list = \<lparr>nxt = id, prv = id\<rparr>, max_phy_mem = 0x100000\<rparr>"

theorem wake_lower_asserts_witness:
  "suspended demo_low 2
   \<and> (\<exists>s1 s2. wake_up_thread (\<lambda>_. 0) 1 2 demo_low = ret (Stay, s1) \<and> suspend_thread (\<lambda>_. 0) 1 s1 = ret (Continue 2, s2)
      \<and> suspend_thread (\<lambda>_. 0) 1 s2 = halt (Assertion ''not suspended''))"
proof -
  have "suspended demo_low 2" "\<not> suspended demo_low 1"
    by (simp_all add: suspended_def demo_low_def demo_thread_def THREAD_SUSPEND_def)
  with wake_lower_asserts[of demo_low 1 2 0 "\<lambda>_. 0" 1 1 1] show ?thesis
    by (auto simp: demo_low_def demo_thread_def)
qed

text \<open>
  A thread that ends hands the processor to its parent but stays the current thread of the processor,
  so what the parent does next is done in its name.
\<close>

lemma exit_keeps_current:
  assumes "exit_thread pte sp s = ret (w, t)"
  shows "current_thread t = current_thread s" "w \<noteq> Stay"
proof -
  let ?c = "current_thread s" and ?s = "upd (current_thread s) (thread_state_update (\<lambda>_. THREAD_DONE)) s"
  from assms obtain p where "enter_thread pte sp True p ?c ?s = ret (w, t)"
    by (auto simp: exit_thread_def Let_def split: option.splits)
  from enter_thread_frame[OF this] show "current_thread t = current_thread s" "w \<noteq> Stay" by auto
qed

end
