(* ===== verification/Printk.thy ===== *)
theory Printk
  imports Yaos_Prelude
begin

text \<open>
  Formatted output: kernel/printk.c. Strings are lists of characters without the terminating zero; the
  arguments of a call are a list of values with the type they were passed at, and taking one at another
  type has no meaning. The output is the list of characters written to the buffer; the screen is not
  modelled. The theory proves that the digits written for a number are its digits, and how long the
  output is.
\<close>

section \<open>Numbers\<close>

definition ZEROPAD :: u32 where "ZEROPAD = 1"
definition SIGN :: u32 where "SIGN = 2"
definition PLUS :: u32 where "PLUS = 4"
definition SPACE :: u32 where "SPACE = 8"
definition LEFT :: u32 where "LEFT = 16"
definition SMALL :: u32 where "SMALL = 32"
definition SPECIAL :: u32 where "SPECIAL = 64"

abbreviation has :: "u32 \<Rightarrow> u32 \<Rightarrow> bool" where
  "has type f \<equiv> type AND f \<noteq> 0"

text \<open>\<^verbatim>\<open>digits[d] | locase\<close>\<close>

definition digit_char :: "bool \<Rightarrow> nat \<Rightarrow> char" where
  "digit_char locase d = (if locase then ''0123456789abcdef'' else ''0123456789ABCDEF'') ! d"

text \<open>\<^verbatim>\<open>while (num != 0) tmp[i++] = digits[__do_div(num, base)] | locase\<close>: the lowest digit first.\<close>

fun do_digits :: "bool \<Rightarrow> nat \<Rightarrow> nat \<Rightarrow> string" where
  "do_digits locase base num =
     (if num = 0 \<or> base < 2 then [] else digit_char locase (num mod base) # do_digits locase base (num div base))"

text \<open>\<^verbatim>\<open>while (size-- > 0)\<close>: so many rounds, and the value afterwards.\<close>

definition rounds :: "int \<Rightarrow> nat" where
  "rounds sz = nat sz"

definition after_rounds :: "int \<Rightarrow> int" where
  "after_rounds sz = (if sz > 0 then - 1 else sz - 1)"

definition number :: "u64 \<Rightarrow> int \<Rightarrow> int \<Rightarrow> int \<Rightarrow> u32 \<Rightarrow> string option" where
  "number num base sz precision type =
     (let locase = has type SMALL;
          type = (if has type LEFT then type AND NOT ZEROPAD else type)
      in if base < 2 \<or> base > 16 then None
      else let
          c = (if has type ZEROPAD then CHR ''0'' else CHR '' '');
          (sign, num, sz) =
            (if has type SIGN
             then if sint num < 0 then (''-'', - num, sz - 1)
                  else if has type PLUS then (''+'', num, sz - 1)
                  else if has type SPACE then ('' '', num, sz - 1)
                  else ('''', num, sz)
             else ('''', num, sz));
          sz = (if has type SPECIAL then if base = 16 then sz - 2 else if base = 8 then sz - 1 else sz else sz);
          tmp = (if num = 0 then ''0'' else do_digits locase (nat base) (unat num));
          i = int (length tmp);
          precision = (if i > precision then i else precision);
          sz = sz - precision;
          (lead, sz) =
            (if \<not> has type (ZEROPAD + LEFT) then (replicate (rounds sz) CHR '' '', after_rounds sz) else ('''', sz));
          prefix = (if has type SPECIAL
                    then if base = 8 then ''0''
                         else if base = 16 then [CHR ''0'', if locase then CHR ''x'' else CHR ''X''] else ''''
                    else '''');
          (pad, sz) = (if \<not> has type LEFT then (replicate (rounds sz) c, after_rounds sz) else ('''', sz))
      in Some (lead @ sign @ prefix @ pad @ replicate (nat (precision - i)) CHR ''0'' @ rev tmp
               @ replicate (rounds sz) CHR '' ''))"

section \<open>Formats\<close>

datatype arg = Arg_int u32 | Arg_long u64 | Arg_str string | Arg_ptr u64

definition isdigit_char :: "char \<Rightarrow> bool" where
  "isdigit_char c \<longleftrightarrow> c \<in> set ''0123456789''"

fun skip_atoi :: "int \<Rightarrow> string \<Rightarrow> int \<times> string" where
  "skip_atoi i [] = (i, [])"
| "skip_atoi i (c # s) =
     (if isdigit_char c then skip_atoi (i * 10 + (int (of_char c) - 48)) s else (i, c # s))"

fun parse_flags :: "u32 \<Rightarrow> string \<Rightarrow> u32 \<times> string" where
  "parse_flags flags [] = (flags, [])"
| "parse_flags flags (c # s) =
     (if c = CHR ''-'' then parse_flags (flags OR LEFT) s
      else if c = CHR ''+'' then parse_flags (flags OR PLUS) s
      else if c = CHR '' '' then parse_flags (flags OR SPACE) s
      else if c = CHR ''#'' then parse_flags (flags OR SPECIAL) s
      else if c = CHR ''0'' then parse_flags (flags OR ZEROPAD) s
      else (flags, c # s))"

text \<open>\<^verbatim>\<open>va_arg\<close> at the types the code asks for.\<close>

definition arg_int :: "arg list \<Rightarrow> (u32 \<times> arg list) kres" where
  "arg_int args = (case args of Arg_int i # as \<Rightarrow> ret (i, as) | _ \<Rightarrow> halt (Wild ''va_arg int''))"

definition arg_long :: "arg list \<Rightarrow> (u64 \<times> arg list) kres" where
  "arg_long args = (case args of Arg_long i # as \<Rightarrow> ret (i, as) | _ \<Rightarrow> halt (Wild ''va_arg long''))"

definition arg_str :: "arg list \<Rightarrow> (string \<times> arg list) kres" where
  "arg_str args = (case args of Arg_str x # as \<Rightarrow> ret (x, as) | _ \<Rightarrow> halt (Wild ''va_arg char *''))"

definition arg_ptr :: "arg list \<Rightarrow> (u64 \<times> arg list) kres" where
  "arg_ptr args = (case args of Arg_ptr x # as \<Rightarrow> ret (x, as) | _ \<Rightarrow> halt (Wild ''va_arg pointer''))"

definition field_width :: "u32 \<Rightarrow> string \<Rightarrow> arg list \<Rightarrow> (int \<times> u32 \<times> string \<times> arg list) kres" where
  "field_width flags fmt args =
     (case fmt of
        [] \<Rightarrow> ret (- 1, flags, fmt, args)
      | c # s \<Rightarrow>
          if isdigit_char c then case skip_atoi 0 fmt of (w, fmt) \<Rightarrow> ret (w, flags, fmt, args)
          else if c = CHR ''*'' then
            kbind (arg_int args) (\<lambda>(w, args).
              if sint w < 0 then ret (- sint w, flags OR LEFT, s, args) else ret (sint w, flags, s, args))
          else ret (- 1, flags, fmt, args))"

definition get_precision :: "string \<Rightarrow> arg list \<Rightarrow> (int \<times> string \<times> arg list) kres" where
  "get_precision fmt args =
     (case fmt of
        [] \<Rightarrow> ret (- 1, fmt, args)
      | c # s \<Rightarrow>
          if c \<noteq> CHR ''.'' then ret (- 1, fmt, args)
          else case s of
            [] \<Rightarrow> ret (0, s, args)
          | d # s' \<Rightarrow>
              if isdigit_char d then case skip_atoi 0 s of (p, fmt) \<Rightarrow> ret (if p < 0 then 0 else p, fmt, args)
              else if d = CHR ''*'' then
                kbind (arg_int args) (\<lambda>(p, args). ret (if sint p < 0 then 0 else sint p, s', args))
              else ret (0, s, args))"

definition qualifier :: "string \<Rightarrow> char option \<times> string" where
  "qualifier fmt =
     (case fmt of [] \<Rightarrow> (None, [])
      | c # s \<Rightarrow> if c \<in> set ''hlL'' then (Some c, s) else (None, fmt))"

text \<open>The value of an integer conversion, as the \<^verbatim>\<open>unsigned long\<close> that is passed to \<^verbatim>\<open>number\<close>.\<close>

definition int_arg :: "char option \<Rightarrow> u32 \<Rightarrow> arg list \<Rightarrow> (u64 \<times> arg list) kres" where
  "int_arg q flags args =
     (if q = Some CHR ''l'' then arg_long args
      else kbind (arg_int args) (\<lambda>(i, args).
        if q = Some CHR ''h'' then
          let w = (ucast i :: u16) in ret (if has flags SIGN then scast w else ucast w, args)
        else ret (if has flags SIGN then scast i else ucast i, args)))"

text \<open>
  One conversion after its flags, width, precision and qualifier: what is written, the arguments left
  and the count to store for \<^verbatim>\<open>%n\<close>. \<open>len\<close> characters are in the buffer.
\<close>

definition convert_int :: "int \<Rightarrow> u32 \<Rightarrow> int \<Rightarrow> int \<Rightarrow> char option \<Rightarrow> arg list \<Rightarrow> (string \<times> arg list \<times> (u64 \<times> nat) list) kres" where
  "convert_int base flags width precision q args =
     kbind (int_arg q flags args) (\<lambda>(v, args).
       case number v base width precision flags of
         None \<Rightarrow> halt (Wild ''null buffer'')
       | Some out \<Rightarrow> ret (out, args, []))"

definition convert ::
  "nat \<Rightarrow> u32 \<Rightarrow> int \<Rightarrow> int \<Rightarrow> char option \<Rightarrow> char \<Rightarrow> arg list \<Rightarrow> (string \<times> arg list \<times> (u64 \<times> nat) list) kres" where
  "convert len flags width precision q c args =
     (if c = CHR ''c'' then
        kbind (arg_int args) (\<lambda>(i, args).
          let sp = replicate (nat (width - 1)) CHR '' ''; ch = char_of (uint i)
          in ret (if has flags LEFT then ch # sp else sp @ [ch], args, []))
      else if c = CHR ''s'' then
        kbind (arg_str args) (\<lambda>(x, args).
          let x = (if precision < 0 then x else take (nat precision) x);
              sp = replicate (nat (width - int (length x))) CHR '' ''
          in ret (if has flags LEFT then x @ sp else sp @ x, args, []))
      else if c = CHR ''p'' then
        kbind (arg_ptr args) (\<lambda>(v, args).
          let (width, flags) = (if width = - 1 then (16, flags OR ZEROPAD) else (width, flags))
          in case number v 16 width precision flags of
               None \<Rightarrow> halt (Wild ''null buffer'') | Some out \<Rightarrow> ret (out, args, []))
      else if c = CHR ''n'' then kbind (arg_ptr args) (\<lambda>(p, args). ret ([], args, [(p, len)]))
      else if c = CHR ''%'' then ret (''%'', args, [])
      else if c = CHR ''o'' then convert_int 8 flags width precision q args
      else if c = CHR ''x'' then convert_int 16 (flags OR SMALL) width precision q args
      else if c = CHR ''X'' then convert_int 16 flags width precision q args
      else if c = CHR ''d'' \<or> c = CHR ''i'' then convert_int 10 (flags OR SIGN) width precision q args
      else if c = CHR ''u'' then convert_int 10 flags width precision q args
      else ret ([CHR ''%'', c], args, []))"

text \<open>One directive: everything after a percent sign.\<close>

definition directive :: "nat \<Rightarrow> string \<Rightarrow> arg list \<Rightarrow> (string \<times> string \<times> arg list \<times> (u64 \<times> nat) list) kres" where
  "directive len fmt args =
     (case parse_flags 0 fmt of (flags, fmt) \<Rightarrow>
        kbind (field_width flags fmt args) (\<lambda>(width, flags, fmt, args).
          kbind (get_precision fmt args) (\<lambda>(precision, fmt, args).
            case qualifier fmt of
              (q, []) \<Rightarrow> ret (''%'', [], args, [])
            | (q, c # s) \<Rightarrow> kbind (convert len flags width precision q c args) (\<lambda>(out, args, st). ret (out, s, args, st)))))"

text \<open>Every part of a directive leaves a rest of the format.\<close>

lemma skip_atoi_rest: "length (snd (skip_atoi i s)) \<le> length s"
  by (induction i s rule: skip_atoi.induct) auto

lemma parse_flags_rest: "length (snd (parse_flags f s)) \<le> length s"
  by (induction f s rule: parse_flags.induct) auto

lemma field_width_rest: "field_width f s args = ret (w, f', s', args') \<Longrightarrow> length s' \<le> length s"
  using skip_atoi_rest[of 0 s]
  by (auto simp: field_width_def kbind_eq_ret split: list.splits if_splits prod.splits)

lemma get_precision_rest: "get_precision s args = ret (p, s', args') \<Longrightarrow> length s' \<le> length s"
  using skip_atoi_rest[of 0 "tl s"]
  by (auto simp: get_precision_def kbind_eq_ret split: list.splits if_splits prod.splits)

lemma qualifier_rest: "length (snd (qualifier s)) \<le> length s"
  by (auto simp: qualifier_def split: list.splits)

lemma directive_rest:
  assumes "directive len s args = ret (out, s', args', st)"
  shows "length s' \<le> length s"
proof -
  obtain f s1 where 1: "parse_flags 0 s = (f, s1)" by fastforce
  from assms 1 obtain w f' s2 args2 p s3 args3 where 2: "field_width f s1 args = ret (w, f', s2, args2)"
    "get_precision s2 args2 = ret (p, s3, args3)"
    and 3: "(case qualifier s3 of (q, []) \<Rightarrow> ret (''%'', [], args3, [])
      | (q, c # s) \<Rightarrow> kbind (convert len f' w p q c args3) (\<lambda>(out, args, st). ret (out, s, args, st))) = ret (out, s', args', st)"
    by (auto simp: directive_def kbind_eq_ret)
  obtain q s4 where 4: "qualifier s3 = (q, s4)" by fastforce
  have "length s1 \<le> length s" using parse_flags_rest[of 0 s] 1 by simp
  moreover have "length s2 \<le> length s1" using 2(1) by (rule field_width_rest)
  moreover have "length s3 \<le> length s2" using 2(2) by (rule get_precision_rest)
  moreover have "length s4 \<le> length s3" using qualifier_rest[of s3] 4 by simp
  moreover have "length s' \<le> length s4" using 3 4 by (cases s4) (auto simp: kbind_eq_ret)
  ultimately show ?thesis by linarith
qed

text \<open>\<^verbatim>\<open>vsprintf\<close>: the characters written and the counts stored, given what is in the buffer already.\<close>

function vsprintf :: "string \<Rightarrow> string \<Rightarrow> arg list \<Rightarrow> (string \<times> (u64 \<times> nat) list) kres" where
  "vsprintf buf [] args = ret (buf, [])"
| "vsprintf buf (c # fmt) args =
     (if c \<noteq> CHR ''%'' then vsprintf (buf @ [c]) fmt args
      else kbind (directive (length buf) fmt args) (\<lambda>(out, fmt, args, st).
        kbind (vsprintf (buf @ out) fmt args) (\<lambda>(buf, st'). ret (buf, st @ st'))))"
  by pat_completeness auto
termination
  by (relation "measure (\<lambda>(buf, fmt, args). length fmt)") (auto dest: directive_rest)

definition sprintf :: "string \<Rightarrow> arg list \<Rightarrow> (int \<times> string) kres" where
  "sprintf fmt args = kbind (vsprintf '''' fmt args) (\<lambda>(buf, st). ret (int (length buf), buf))"

text \<open>\<^verbatim>\<open>printk\<close>: the text goes through a buffer of 1024 characters, the terminating zero included.\<close>

definition printk :: "string \<Rightarrow> arg list \<Rightarrow> (int \<times> string) kres" where
  "printk fmt args =
     kbind (sprintf fmt args) (\<lambda>(n, buf).
       if length buf < 1024 then ret (n, buf) else halt (Wild ''printf_buf''))"

definition panic :: "string \<Rightarrow> arg list \<Rightarrow> 'a kres" where
  "panic fmt args = kbind (printk fmt args) (\<lambda>(n, buf). halt (Panic buf))"

section \<open>The digits of a number\<close>

fun hexval :: "string \<Rightarrow> char \<Rightarrow> nat" where
  "hexval [] c = 0"
| "hexval (d # ds) c = (if c = d then 0 else Suc (hexval ds c))"

text \<open>The value of a string of digits, the first the highest.\<close>

definition digits_value :: "bool \<Rightarrow> nat \<Rightarrow> string \<Rightarrow> nat" where
  "digits_value locase base ds =
     foldl (\<lambda>v c. v * base + hexval (if locase then ''0123456789abcdef'' else ''0123456789ABCDEF'') c) 0 ds"

lemma hexval_digit: "d < 16 \<Longrightarrow> hexval (if l then ''0123456789abcdef'' else ''0123456789ABCDEF'') (digit_char l d) = d"
proof -
  assume "d < 16"
  then have "d \<in> set [0..<16]" by simp
  moreover have "\<forall>d \<in> set [0..<16]. hexval ''0123456789abcdef'' (''0123456789abcdef'' ! d) = d" by code_simp
  moreover have "\<forall>d \<in> set [0..<16]. hexval ''0123456789ABCDEF'' (''0123456789ABCDEF'' ! d) = d" by code_simp
  ultimately show ?thesis by (auto simp: digit_char_def)
qed

declare do_digits.simps [simp del]

lemma digits_value_snoc:
  "digits_value l b (ds @ [c]) =
     digits_value l b ds * b + hexval (if l then ''0123456789abcdef'' else ''0123456789ABCDEF'') c"
  by (simp add: digits_value_def)

lemma do_digits_value:
  "2 \<le> base \<Longrightarrow> base \<le> 16 \<Longrightarrow> digits_value l base (rev (do_digits l base num)) = num"
proof (induction l base num rule: do_digits.induct)
  case (1 l base num)
  show ?case
  proof (cases "num = 0")
    case True
    then show ?thesis by (subst do_digits.simps) (simp add: digits_value_def)
  next
    case False
    have "num mod base < 16" using mod_less_divisor[of base num] 1(2,3) by linarith
    note h = hexval_digit[OF this, of l]
    have "do_digits l base num = digit_char l (num mod base) # do_digits l base (num div base)"
      using False 1(2) by (subst do_digits.simps) simp
    then have "digits_value l base (rev (do_digits l base num)) = num div base * base + num mod base"
      using 1 False unfolding rev.simps digits_value_snoc h by (simp only: rev.simps digits_value_snoc h) simp
    then show ?thesis by simp
  qed
qed

lemma do_digits_nonempty: "2 \<le> base \<Longrightarrow> num \<noteq> 0 \<Longrightarrow> do_digits l base num \<noteq> []"
  by (subst do_digits.simps) simp

text \<open>The sign written, the value and the length of what stands before the digits.\<close>

definition num_sign :: "u64 \<Rightarrow> u32 \<Rightarrow> string" where
  "num_sign num type =
     (if has type SIGN
      then if sint num < 0 then ''-'' else if has type PLUS then ''+'' else if has type SPACE then '' '' else ''''
      else '''')"

definition num_abs :: "u64 \<Rightarrow> u32 \<Rightarrow> u64" where
  "num_abs num type = (if has type SIGN \<and> sint num < 0 then - num else num)"

definition num_prefix :: "int \<Rightarrow> u32 \<Rightarrow> string" where
  "num_prefix base type =
     (if has type SPECIAL
      then if base = 8 then ''0'' else if base = 16 then [CHR ''0'', if has type SMALL then CHR ''x'' else CHR ''X''] else ''''
      else '''')"

definition num_digits :: "u64 \<Rightarrow> int \<Rightarrow> u32 \<Rightarrow> string" where
  "num_digits num base type =
     rev (if num_abs num type = 0 then ''0'' else do_digits (has type SMALL) (nat base) (unat (num_abs num type)))"

lemma rounds_after [simp]: "rounds (after_rounds x) = 0" "rounds (after_rounds (after_rounds x)) = 0"
  by (simp_all add: rounds_def after_rounds_def)

lemma flags_clear:
  "(type AND NOT ZEROPAD) AND SIGN = type AND SIGN" "(type AND NOT ZEROPAD) AND PLUS = type AND PLUS"
  "(type AND NOT ZEROPAD) AND SPACE = type AND SPACE" "(type AND NOT ZEROPAD) AND SPECIAL = type AND SPECIAL"
  "(type AND NOT ZEROPAD) AND LEFT = type AND LEFT" "(type AND NOT ZEROPAD) AND ZEROPAD = 0"
  "type AND (ZEROPAD + LEFT) = 0 \<longleftrightarrow> type AND ZEROPAD = 0 \<and> type AND LEFT = 0"
proof -
  have "ZEROPAD + LEFT = ZEROPAD OR LEFT" by (simp add: ZEROPAD_def LEFT_def)
  then have "type AND (ZEROPAD + LEFT) = (type AND ZEROPAD) OR (type AND LEFT)"
    by (simp only: bit.conj_disj_distrib)
  then show "type AND (ZEROPAD + LEFT) = 0 \<longleftrightarrow> type AND ZEROPAD = 0 \<and> type AND LEFT = 0" by (simp add: or_eq_0_iff)
  show "(type AND NOT ZEROPAD) AND ZEROPAD = 0" by (rule bit_eqI) (auto simp: bit_simps)
qed (simp_all add: and.assoc ZEROPAD_def SIGN_def PLUS_def SPACE_def SPECIAL_def LEFT_def)

lemma number_layout:
  fixes num :: u64 and type :: u32 and base sz precision :: int
  assumes "2 \<le> base" "base \<le> 16"
  defines "ds \<equiv> num_digits num base type"
  defines "p \<equiv> max precision (int (length ds))"
  defines "room \<equiv> sz - int (length (num_sign num type)) - int (length (num_prefix base type)) - p"
  shows "number num base sz precision type =
    Some ((if has type LEFT \<or> has type ZEROPAD then '''' else replicate (nat room) CHR '' '')
      @ num_sign num type @ num_prefix base type
      @ (if \<not> has type LEFT \<and> has type ZEROPAD then replicate (nat room) CHR ''0'' else '''')
      @ replicate (nat (p - int (length ds))) CHR ''0'' @ ds
      @ (if has type LEFT then replicate (nat room) CHR '' '' else ''''))"
proof -
  define ty where "ty = (if has type LEFT then type AND NOT ZEROPAD else type)"
  have ty: "has ty SIGN = has type SIGN" "has ty PLUS = has type PLUS" "has ty SPACE = has type SPACE"
    "has ty SPECIAL = has type SPECIAL" "has ty LEFT = has type LEFT" "has ty ZEROPAD = (\<not> has type LEFT \<and> has type ZEROPAD)"
    "has ty (ZEROPAD + LEFT) = (has type ZEROPAD \<or> has type LEFT)"
    by (simp_all add: ty_def flags_clear)
  have sg: "(if has ty SIGN
             then if sint num < 0 then (''-'', - num, sz - 1)
                  else if has ty PLUS then (''+'', num, sz - 1)
                  else if has ty SPACE then ('' '', num, sz - 1)
                  else ('''', num, sz)
             else ('''', num, sz)) = (num_sign num type, num_abs num type, sz - int (length (num_sign num type)))"
    by (simp add: ty num_sign_def num_abs_def)
  have pf: "(if has ty SPECIAL then if base = 16 then x - 2 else if base = 8 then x - 1 else x else x)
      = x - int (length (num_prefix base type))" for x by (simp add: ty num_prefix_def)
  have d: "rev (if num_abs num type = 0 then ''0'' else do_digits (has type SMALL) (nat base) (unat (num_abs num type))) = ds"
    "length (if num_abs num type = 0 then ''0'' else do_digits (has type SMALL) (nat base) (unat (num_abs num type))) = length ds"
    by (simp_all add: ds_def num_digits_def)
  have m: "(if int (length ds) > precision then int (length ds) else precision) = p" by (simp add: p_def)
  have px: "(if has ty SPECIAL
      then if base = 8 then ''0'' else if base = 16 then [CHR ''0'', if has type SMALL then CHR ''x'' else CHR ''X''] else ''''
      else '''') = num_prefix base type" by (simp add: ty num_prefix_def)
  have r: "nat room = rounds room" by (simp add: rounds_def)
  have b: "\<not> (base < 2 \<or> base > 16)" using assms(1,2) by simp
  show ?thesis
    unfolding number_def Let_def ty_def[symmetric] sg prod.case pf px d m room_def[symmetric] r if_not_P[OF b]
    by (cases "has type LEFT"; cases "has type ZEROPAD") (simp_all add: ty)
qed



end
