(* ===== verification/Data_Section.thy ===== *)
theory Data_Section
  imports Yaos_Prelude
begin

text \<open>
  Tables that the linker collects. Services (kernel/yaoscall.c) and modules (kernel/module.c)
  are structures that each source file puts into a section of its own, and the kernel walks over the
  section from its start to its end symbol. The distance of two entries is not taken from the size
  of the structure, since the compiler may align the entries: it is computed from the addresses of two entries that
  one source file declares in a row.
\<close>

definition myabs :: "u64 \<Rightarrow> u64 \<Rightarrow> u64" where
  "myabs a b = (if a > b then a - b else b - a)"

text \<open>
  A loop \<^verbatim>\<open>while (p < end) { ...; p += step; }\<close> over a section. A section is the entry found at each
  address; reading where there is none has no meaning.
\<close>

partial_function (option) each_entry ::
  "(u64 \<Rightarrow> 'e option) \<Rightarrow> u64 \<Rightarrow> u64 \<Rightarrow> ('e \<Rightarrow> 's \<Rightarrow> 's kres) \<Rightarrow> u64 \<Rightarrow> 's \<Rightarrow> 's kres" where
  "each_entry sec step stop body p s =
     (if p < stop
      then case sec p of
             None \<Rightarrow> halt (Wild ''section'')
           | Some e \<Rightarrow> kbind (body e s) (\<lambda>s'. each_entry sec step stop body (p + step) s')
      else ret s)"

text \<open>The entries \<open>es\<close> lie at distance \<open>step\<close> from \<open>p\<close> up to \<open>stop\<close>.\<close>

definition laid_out :: "(u64 \<Rightarrow> 'e option) \<Rightarrow> u64 \<Rightarrow> u64 \<Rightarrow> 'e list \<Rightarrow> u64 \<Rightarrow> bool" where
  "laid_out sec p step es stop \<longleftrightarrow>
     0 < step \<and> unat p + length es * unat step = unat stop \<and>
     (\<forall>i < length es. sec (p + of_nat i * step) = Some (es ! i))"

primrec kfold :: "('e \<Rightarrow> 's \<Rightarrow> 's kres) \<Rightarrow> 'e list \<Rightarrow> 's \<Rightarrow> 's kres" where
  "kfold f [] s = ret s"
| "kfold f (e # es) s = kbind (f e s) (kfold f es)"

lemma kfold_single [simp]: "kfold f [e] = f e"
proof
  have "kfold f [] = ret" by (rule ext) simp
  then show "kfold f [e] s = f e s" for s by simp
qed

lemma kfold_append: "kfold f (xs @ ys) s = kbind (kfold f xs s) (kfold f ys)"
  by (induction xs arbitrary: s) (auto simp: kbind_assoc intro: kbind_cong)

lemma kfold_pure:
  assumes "\<And>e s. e \<in> set es \<Longrightarrow> I s \<Longrightarrow> f e s = ret (g e s) \<and> I (g e s)" "I s"
  shows "kfold f es s = ret (fold g es s) \<and> I (fold g es s)"
  using assms by (induction es arbitrary: s) auto

lemma u64_bound: "unat (x :: u64) < 2 ^ 64"
  using unsigned_less[of x, where 'a = nat] by simp

lemma len64: "LENGTH(64) = 64"
  by simp

lemma laid_out_Nil: "laid_out sec p step [] stop \<Longrightarrow> \<not> p < stop"
  by (simp add: laid_out_def word_less_nat_alt)

lemma laid_out_Cons:
  assumes "laid_out sec p step (e # es) stop"
  shows "p < stop \<and> sec p = Some e \<and> laid_out sec (p + step) step es stop"
proof -
  have st: "0 < step" and len: "unat p + (unat step + length es * unat step) = unat stop"
    and at: "i < Suc (length es) \<Longrightarrow> sec (p + of_nat i * step) = Some ((e # es) ! i)" for i
    using assms by (auto simp: laid_out_def)
  have pos: "0 < unat step" using st by (simp add: word_less_nat_alt)
  have "unat p + unat step < 2 ^ 64"
    using len u64_bound[of stop] by simp
  then have up: "unat (p + step) = unat p + unat step"
    by (simp add: unat_word_ariths)
  have "sec (p + step + of_nat i * step) = Some (es ! i)" if "i < length es" for i
    using at[of "Suc i"] that by (simp add: algebra_simps)
  with at[of 0] st up len pos show ?thesis
    by (auto simp: laid_out_def word_less_nat_alt)
qed

text \<open>Over a section that the linker has laid out the loop visits every entry once, in order.\<close>

lemma each_entry_fold:
  "laid_out sec p step es stop \<Longrightarrow> each_entry sec step stop body p s = kfold body es s"
proof (induction es arbitrary: p s)
  case Nil
  then show ?case by (subst each_entry.simps) (simp add: laid_out_Nil)
next
  case (Cons e es)
  have "kbind (body e s) (\<lambda>s'. each_entry sec step stop body (p + step) s') = kbind (body e s) (kfold body es)"
    using Cons.IH laid_out_Cons[OF Cons.prems] by simp
  with laid_out_Cons[OF Cons.prems] show ?case
    by (subst each_entry.simps) simp
qed

text \<open>The distance of two neighbours, whichever of them comes first.\<close>

lemma myabs_step:
  assumes "laid_out sec p step es stop" "Suc i < length es"
    and "{a, b} = {p + of_nat i * step, p + of_nat (Suc i) * step}"
  shows "myabs a b = step"
proof -
  let ?x = "p + of_nat i * step"
  have y: "p + of_nat (Suc i) * step = ?x + step" by (simp add: algebra_simps)
  have st: "0 < step" and len: "unat p + length es * unat step = unat stop"
    using assms(1) by (auto simp: laid_out_def)
  have "(i + 1) * unat step \<le> length es * unat step" using assms(2) by (intro mult_le_mono1) simp
  then have lim: "unat p + (i + 1) * unat step < 2 ^ 64"
    using len u64_bound[of stop] by linarith
  have pos: "0 < unat step" using st by (simp add: word_less_nat_alt)
  have "i \<le> i * unat step" using pos by simp
  then have i: "i < 2 ^ 64" using lim unfolding add_mult_distrib by linarith
  have i': "unat (of_nat i :: u64) = i" using i by (simp add: unat_of_nat)
  have l1: "i * unat step < 2 ^ 64" and l2: "unat p + i * unat step < 2 ^ 64"
    and l3: "unat p + i * unat step + unat step < 2 ^ 64"
    using lim unfolding add_mult_distrib by linarith+
  have m: "unat (of_nat i * step :: u64) = i * unat step"
    using l1 by (simp only: unat_word_ariths(2) i' len64 mod_less)
  have x: "unat ?x = unat p + i * unat step"
    using l2 by (simp only: unat_word_ariths(1) m len64 mod_less)
  have xs: "unat (?x + step) = unat ?x + unat step"
    using l3 by (simp only: unat_word_ariths(1)[of ?x] x len64 mod_less)
  then have lt: "?x < ?x + step" using pos by (simp add: word_less_nat_alt)
  have "a = ?x \<and> b = ?x + step \<or> a = ?x + step \<and> b = ?x"
    using assms(3) unfolding y doubleton_eq_iff .
  then show ?thesis using lt by (auto simp: myabs_def not_less_iff_gr_or_eq)
qed

end
