(* ===== verification/Yaoscall.thy ===== *)
theory Yaoscall
  imports Kheap Data_Section
begin

text \<open>
  The table of kernel services (kernel/yaoscall.c, include/yaos/yaoscall.h), the services on memory
  (kernel/yaos_page.c) and the calls that modules make to them (include/yaoscall/page.h and
  malloc.h). A function pointer is a HOL function of two argument registers and the
  kernel state; the state is a record that later components extend.
\<close>

section \<open>The table\<close>

record ret_t =
  ret_v :: u64
  ret_e :: int

definition ERR_YAOSCALL_NONE_EXIST :: int where
  "ERR_YAOSCALL_NONE_EXIST = - 1"

definition ERR_YAOSCALL_NO_MEM :: int where
  "ERR_YAOSCALL_NO_MEM = - 2"

definition YAOSCALL_OK :: int where
  "YAOSCALL_OK = 0"

datatype yaoscall_id =
    YAOS_yaoscall | YAOS_page_alloc | YAOS_page_free | YAOS_heap_alloc | YAOS_heap_free
  | YAOS_malloc | YAOS_mfree | YAOS_max_physical_mem | MAX_YAOSCALL

fun enum_of :: "yaoscall_id \<Rightarrow> nat" where
  "enum_of YAOS_yaoscall = 0"
| "enum_of YAOS_page_alloc = 1"
| "enum_of YAOS_page_free = 2"
| "enum_of YAOS_heap_alloc = 3"
| "enum_of YAOS_heap_free = 4"
| "enum_of YAOS_malloc = 5"
| "enum_of YAOS_mfree = 6"
| "enum_of YAOS_max_physical_mem = 7"
| "enum_of MAX_YAOSCALL = 8"

record ykernel =
  kheap_of :: kheap

type_synonym 's yaoscall_t = "u64 \<Rightarrow> u64 \<Rightarrow> 's \<Rightarrow> (ret_t \<times> 's) kres"

type_synonym 's yaoscall_table = "'s yaoscall_t list"

definition yaoscall_p :: "'s yaoscall_table \<Rightarrow> yaoscall_id \<Rightarrow> 's yaoscall_t kres" where
  "yaoscall_p tbl i = aget tbl (enum_of i)"

definition regist_yaoscall :: "nat \<Rightarrow> 's yaoscall_t \<Rightarrow> 's yaoscall_table \<Rightarrow> 's yaoscall_table kres" where
  "regist_yaoscall i pfunc tbl = aset tbl i pfunc"

definition dummy :: "'s yaoscall_t" where
  "dummy a1 a2 s = ret (\<lparr>ret_v = 0, ret_e = ERR_YAOSCALL_NONE_EXIST\<rparr>, s)"

definition dummy1 :: "'s yaoscall_t" where
  "dummy1 a1 a2 s = ret (\<lparr>ret_v = 0, ret_e = ERR_YAOSCALL_NONE_EXIST\<rparr>, s)"

text \<open>
  \<^verbatim>\<open>init_yaoscall\<close>: the section from \<open>start\<close> to \<open>stop\<close> holds pairs of a number and a function;
  \<open>d1\<close> and \<open>d\<close> are the addresses of the entries of \<^verbatim>\<open>dummy1\<close> and \<^verbatim>\<open>dummy\<close>.
\<close>

definition init_yaoscall ::
  "bool \<Rightarrow> (u64 \<Rightarrow> (nat \<times> 's yaoscall_t) option) \<Rightarrow> u64 \<Rightarrow> u64 \<Rightarrow> u64 \<Rightarrow> u64 \<Rightarrow>
   's yaoscall_table \<Rightarrow> (int \<times> 's yaoscall_table) kres" where
  "init_yaoscall isbp sec start stop d1 d tbl =
     (if \<not> isbp then ret (0, tbl)
      else let step = myabs d1 d in
        kbind (each_entry sec step stop (\<lambda>(i, f) t. aset t i f) start (replicate (enum_of MAX_YAOSCALL) dummy))
          (\<lambda>t. ret (0, t)))"

section \<open>The services on memory\<close>

definition max_phymem :: "'a ykernel_scheme yaoscall_t" where
  "max_phymem a1 a2 s = ret (\<lparr>ret_v = max_phy_addr (phy (kheap_of s)), ret_e = YAOSCALL_OK\<rparr>, s)"

definition heap_alloc_4k :: "'a ykernel_scheme yaoscall_t" where
  "heap_alloc_4k sz a2 s =
     kbind (kassert (sz AND 0xfff = 0) ''heap_alloc_4k'') (\<lambda>_.
     kbind (alloc_kheap_4k sz (kheap_of s)) (\<lambda>(addr, h).
       ret (\<lparr>ret_v = addr, ret_e = 0\<rparr>, s\<lparr>kheap_of := h\<rparr>)))"

definition heap_free_4k :: "'a ykernel_scheme yaoscall_t" where
  "heap_free_4k addr sz s =
     kbind (kassert (sz AND 0xfff = 0 \<and> addr AND 0xfff = 0) ''heap_free_4k'') (\<lambda>_.
     kbind (free_kheap_4k addr sz (kheap_of s)) (\<lambda>h.
       ret (\<lparr>ret_v = 0, ret_e = 0\<rparr>, s\<lparr>kheap_of := h\<rparr>)))"

definition page_alloc :: "'a ykernel_scheme yaoscall_t" where
  "page_alloc sz a2 s =
     kbind (kassert (sz = PAGE_SIZE) ''page_alloc'') (\<lambda>_.
     kbind (alloc_phy_page (phy (kheap_of s))) (\<lambda>(v, ph).
       ret (\<lparr>ret_v = v, ret_e = (if v = 0 then ERR_YAOSCALL_NO_MEM else YAOSCALL_OK)\<rparr>,
            s\<lparr>kheap_of := (kheap_of s)\<lparr>phy := ph\<rparr>\<rparr>)))"

definition page_free :: "'a ykernel_scheme yaoscall_t" where
  "page_free addr sz s =
     kbind (free_phy_pages addr sz (phy (kheap_of s))) (\<lambda>ph.
       ret (\<lparr>ret_v = 0, ret_e = 0\<rparr>, s\<lparr>kheap_of := (kheap_of s)\<lparr>phy := ph\<rparr>\<rparr>))"

text \<open>What the two files declare for the section, in the order of the source lines.\<close>

definition yaoscall_decls :: "(nat \<times> 'a ykernel_scheme yaoscall_t) list" where
  "yaoscall_decls =
     [(0, dummy1), (0, dummy), (enum_of YAOS_heap_alloc, heap_alloc_4k), (enum_of YAOS_heap_free, heap_free_4k),
      (enum_of YAOS_page_alloc, page_alloc), (enum_of YAOS_page_free, page_free),
      (enum_of YAOS_max_physical_mem, max_phymem)]"

section \<open>The calls of modules\<close>

definition yaos_heap_alloc_4k :: "'s yaoscall_table \<Rightarrow> u64 \<Rightarrow> 's \<Rightarrow> (u64 \<times> 's) kres" where
  "yaos_heap_alloc_4k tbl sz s =
     kbind (yaoscall_p tbl YAOS_heap_alloc) (\<lambda>pfunc. kbind (pfunc sz 0 s) (\<lambda>(r, s'). ret (ret_v r, s')))"

definition yaos_heap_free_4k :: "'s yaoscall_table \<Rightarrow> u64 \<Rightarrow> u64 \<Rightarrow> 's \<Rightarrow> 's kres" where
  "yaos_heap_free_4k tbl addr sz s =
     kbind (yaoscall_p tbl YAOS_heap_free) (\<lambda>pfunc. kbind (pfunc addr sz s) (\<lambda>(r, s'). ret s'))"

definition yaos_page_alloc :: "'s yaoscall_table \<Rightarrow> u64 \<Rightarrow> 's \<Rightarrow> (u64 \<times> 's) kres" where
  "yaos_page_alloc tbl sz s =
     kbind (yaoscall_p tbl YAOS_page_alloc) (\<lambda>pfunc. kbind (pfunc sz 0 s) (\<lambda>(r, s'). ret (ret_v r, s')))"

text \<open>The source looks up the slot of the allocation, not the one of the release.\<close>

definition yaos_page_free :: "'s yaoscall_table \<Rightarrow> u64 \<Rightarrow> u64 \<Rightarrow> 's \<Rightarrow> 's kres" where
  "yaos_page_free tbl addr sz s =
     kbind (yaoscall_p tbl YAOS_page_alloc) (\<lambda>pfunc. kbind (pfunc addr sz s) (\<lambda>(r, s'). ret s'))"

definition yaos_max_physical_mem :: "'s yaoscall_table \<Rightarrow> 's \<Rightarrow> (u64 \<times> 's) kres" where
  "yaos_max_physical_mem tbl s =
     kbind (yaoscall_p tbl YAOS_max_physical_mem) (\<lambda>pfunc. kbind (pfunc 0 0 s) (\<lambda>(r, s'). ret (ret_v r, s')))"

definition yaos_malloc :: "'s yaoscall_table \<Rightarrow> u64 \<Rightarrow> 's \<Rightarrow> (u64 \<times> 's) kres" where
  "yaos_malloc tbl sz s =
     kbind (yaoscall_p tbl YAOS_malloc) (\<lambda>pfunc. kbind (pfunc sz 0 s) (\<lambda>(r, s'). ret (ret_v r, s')))"

definition yaos_mfree :: "'s yaoscall_table \<Rightarrow> u64 \<Rightarrow> 's \<Rightarrow> 's kres" where
  "yaos_mfree tbl addr s =
     kbind (yaoscall_p tbl YAOS_mfree) (\<lambda>pfunc. kbind (pfunc addr 0 s) (\<lambda>(r, s'). ret s'))"

section \<open>The table after boot\<close>

lemma kfold_aset:
  assumes "\<forall>e \<in> set es. fst e < length t"
  shows "kfold (\<lambda>(i, f) t. aset t i f) es t = ret (fold (\<lambda>(i, f) t. t[i := f]) es t)"
  using assms by (induction es arbitrary: t) auto

lemma fold_upd_length [simp]: "length (fold (\<lambda>(i, f) t. t[i := f]) es t) = length t"
  by (induction es arbitrary: t) auto

lemma fold_upd_other:
  "\<forall>e \<in> set es. fst e \<noteq> k \<Longrightarrow> fold (\<lambda>(i, f) t. t[i := f]) es t ! k = t ! k"
  by (induction es arbitrary: t) auto

lemma fold_upd_unique:
  assumes "(k, f) \<in> set es" "\<forall>e \<in> set es. fst e = k \<longrightarrow> snd e = f" "k < length t"
  shows "fold (\<lambda>(i, f) t. t[i := f]) es t ! k = f"
  using assms
proof (induction es arbitrary: t)
  case (Cons e es)
  obtain i g where e: "e = (i, g)" by (cases e)
  show ?case
  proof (cases "(k, f) \<in> set es")
    case False
    then have "\<forall>e' \<in> set es. fst e' \<noteq> k" using Cons.prems(2) by (metis list.set_intros(2) prod.collapse)
    with Cons.prems(1,3) False show ?thesis by (auto simp: e fold_upd_other)
  qed (use Cons e in auto)
qed simp

lemma dummy1_dummy: "dummy1 = dummy"
  by (simp add: fun_eq_iff dummy_def dummy1_def)

text \<open>The table that every order of linking gives.\<close>

definition boot_table :: "'a ykernel_scheme yaoscall_table" where
  "boot_table = [dummy, page_alloc, page_free, heap_alloc_4k, heap_free_4k, dummy, dummy, max_phymem]"

lemmas yaoscall_slots = yaoscall_decls_def dummy1_dummy

lemma fold_decls:
  assumes "mset es = mset yaoscall_decls"
  shows "fold (\<lambda>(i, f) t. t[i := f]) es (replicate 8 dummy) = boot_table" (is "?t = _")
proof (rule nth_equalityI)
  have es: "set es = set yaoscall_decls" using assms by (rule mset_eq_setD)
  have at: "?t ! k = f" if "(k, f) \<in> set yaoscall_decls"
      "\<forall>e \<in> set yaoscall_decls. fst e = k \<longrightarrow> snd e = f" "k < 8" for k f
    using that by (intro fold_upd_unique) (simp_all add: es)
  show "length ?t = length (boot_table :: 'a ykernel_scheme yaoscall_table)" by (simp add: boot_table_def)
  fix k assume "k < length ?t"
  then have "k \<in> {0, 1, 2, 3, 4, 7} \<or> k \<in> {5, 6}" by auto
  then show "?t ! k = boot_table ! k"
  proof
    assume "k \<in> {0, 1, 2, 3, 4, 7}"
    then show ?thesis
      by (elim insertE; simp; intro at; simp add: boot_table_def yaoscall_slots)
  next
    assume "k \<in> {5, 6}"
    then have "?t ! k = replicate 8 dummy ! k"
      by (intro fold_upd_other) (auto simp: es yaoscall_slots)
    with \<open>k \<in> {5, 6}\<close> show ?thesis by (auto simp: boot_table_def numeral_nat)
  qed
qed

lemma init_yaoscall_boot:
  assumes lay: "laid_out sec start step es stop" and es: "mset es = mset yaoscall_decls"
    and adj: "Suc i < length es" "{d1, d} = {start + of_nat i * step, start + of_nat (Suc i) * step}"
  shows "init_yaoscall True sec start stop d1 d tbl = ret (0, boot_table)"
proof -
  have "\<forall>e \<in> set es. fst e < 8"
    using mset_eq_setD[OF es] by (auto simp: yaoscall_decls_def)
  then have "kfold (\<lambda>(i, f) t. aset t i f) es (replicate 8 dummy) = ret boot_table"
    by (simp add: kfold_aset fold_decls[OF es])
  then show ?thesis
    by (simp add: init_yaoscall_def myabs_step[OF lay adj] each_entry_fold[OF lay])
qed


lemmas yaos_calls =
  yaos_heap_alloc_4k_def yaos_heap_free_4k_def yaos_page_alloc_def yaos_page_free_def
  yaos_max_physical_mem_def yaos_malloc_def yaos_mfree_def yaoscall_p_def

lemma yaos_heap_alloc_4k_boot:
  "yaos_heap_alloc_4k boot_table sz s =
     (if sz AND 0xfff = 0
      then kbind (alloc_kheap_4k sz (kheap_of s)) (\<lambda>(a, h). ret (a, s\<lparr>kheap_of := h\<rparr>))
      else halt (Assertion ''heap_alloc_4k''))"
  by (cases "alloc_kheap_4k sz (kheap_of s)" rule: kres_cases)
    (auto simp: yaos_calls boot_table_def heap_alloc_4k_def kassert_def)

lemma yaos_heap_free_4k_boot:
  "yaos_heap_free_4k boot_table a sz s =
     (if sz AND 0xfff = 0 \<and> a AND 0xfff = 0
      then kbind (free_kheap_4k a sz (kheap_of s)) (\<lambda>h. ret (s\<lparr>kheap_of := h\<rparr>))
      else halt (Assertion ''heap_free_4k''))"
  by (cases "free_kheap_4k a sz (kheap_of s)" rule: kres_cases)
    (auto simp: yaos_calls boot_table_def heap_free_4k_def kassert_def)

lemma yaos_max_physical_mem_boot:
  "yaos_max_physical_mem boot_table s = ret (max_phy_addr (phy (kheap_of s)), s)"
  by (simp add: yaos_calls boot_table_def max_phymem_def)

lemma yaos_malloc_boot: "yaos_malloc boot_table sz s = ret (0, s)" "yaos_mfree boot_table a s = ret s"
  by (simp_all add: yaos_calls boot_table_def dummy_def)

lemma yaos_page_alloc_boot:
  "yaos_page_alloc boot_table sz s =
     (if sz = PAGE_SIZE
      then kbind (alloc_phy_page (phy (kheap_of s))) (\<lambda>(v, ph). ret (v, s\<lparr>kheap_of := (kheap_of s)\<lparr>phy := ph\<rparr>\<rparr>))
      else halt (Assertion ''page_alloc''))"
  by (cases "alloc_phy_page (phy (kheap_of s))" rule: kres_cases)
    (auto simp: yaos_calls boot_table_def page_alloc_def kassert_def)

text \<open>
  C23: Whatever order the linker gives to the entries of the section, as long as the two dummy entries are
  neighbours, the boot processor ends with a table in which the calls for 4K blocks reach the kernel heap,
  the call for the size of memory its limit, and \<^verbatim>\<open>malloc\<close> is absent: it returns null
  until a module registers it.
\<close>

theorem yaoscall_services:
  assumes "laid_out sec start step es stop" "mset es = mset yaoscall_decls"
    and "Suc i < length es" "{d1, d} = {start + of_nat i * step, start + of_nat (Suc i) * step}"
  shows "\<exists>t. init_yaoscall True sec start stop d1 d tbl = ret (0, t) \<and>
    (\<forall>sz s. yaos_heap_alloc_4k t sz s =
       (if sz AND 0xfff = 0
        then kbind (alloc_kheap_4k sz (kheap_of s)) (\<lambda>(a, h). ret (a, s\<lparr>kheap_of := h\<rparr>))
        else halt (Assertion ''heap_alloc_4k''))) \<and>
    (\<forall>a sz s. yaos_heap_free_4k t a sz s =
       (if sz AND 0xfff = 0 \<and> a AND 0xfff = 0
        then kbind (free_kheap_4k a sz (kheap_of s)) (\<lambda>h. ret (s\<lparr>kheap_of := h\<rparr>))
        else halt (Assertion ''heap_free_4k''))) \<and>
    (\<forall>s. yaos_max_physical_mem t s = ret (max_phy_addr (phy (kheap_of s)), s)) \<and>
    (\<forall>sz s. yaos_malloc t sz s = ret (0, s))"
  using init_yaoscall_boot[OF assms]
  by (intro exI[of _ boot_table]) (simp add: yaos_heap_alloc_4k_boot yaos_heap_free_4k_boot yaos_max_physical_mem_boot yaos_malloc_boot)

definition demo_section :: "'e list \<Rightarrow> u64 \<Rightarrow> 'e option" where
  "demo_section es p =
     (let i = unat ((p - 0x1000) div 16) in if i < length es then Some (es ! i) else None)"

lemma all_less_7: "(\<forall>i < 7. P i) \<longleftrightarrow> P 0 \<and> P 1 \<and> P 2 \<and> P 3 \<and> P 4 \<and> P 5 \<and> P (6 :: nat)"
  by (simp add: eval_nat_numeral All_less_Suc conj_ac)

lemma demo_section_laid_out:
  "laid_out (demo_section (rev yaoscall_decls)) 0x1000 16 (rev yaoscall_decls) 0x1070"
proof -
  have "length (yaoscall_decls :: (nat \<times> 'a ykernel_scheme yaoscall_t) list) = 7"
    by (simp add: yaoscall_decls_def)
  then show ?thesis
    by (simp add: laid_out_def all_less_7 demo_section_def)
qed

theorem yaoscall_services_witness:
  "\<exists>t. init_yaoscall True (demo_section (rev yaoscall_decls)) 0x1000 0x1070 0x1060 0x1050 [] = ret (0, t) \<and>
    (\<forall>s :: ykernel. yaos_malloc t 8 s = ret (0, s))"
proof -
  have "mset (rev yaoscall_decls) = mset (yaoscall_decls :: (nat \<times> ykernel yaoscall_t) list)"
    "Suc 5 < length (rev (yaoscall_decls :: (nat \<times> ykernel yaoscall_t) list))"
    "{0x1060, 0x1050 :: u64} = {0x1000 + of_nat 5 * 16, 0x1000 + of_nat (Suc 5) * 16}"
    by (simp_all add: yaoscall_decls_def insert_commute)
  from yaoscall_services[OF demo_section_laid_out this, of "[]"] show ?thesis by (elim exE conjE) (intro exI conjI allI, assumption, simp)
qed

text \<open>
  Giving back a page never works: the call goes to the service that allocates pages. It stops
  in the assertion of that service, except at the address that equals the page size, where another
  page is taken.
\<close>

theorem yaos_page_free_allocates:
  "yaos_page_free boot_table addr sz s =
     (if addr \<noteq> PAGE_SIZE then halt (Assertion ''page_alloc'')
      else kbind (yaos_page_alloc boot_table PAGE_SIZE s) (\<lambda>(v, s'). ret s'))"
proof (cases "addr = PAGE_SIZE")
  case True
  then show ?thesis
    by (simp add: yaos_page_free_def yaos_page_alloc_def yaoscall_p_def boot_table_def page_alloc_def kbind_assoc case_prod_beta)
next
  case False
  then show ?thesis
    by (simp add: yaos_page_free_def yaoscall_p_def boot_table_def page_alloc_def)
qed

end
