(* ===== verification/Kmodule.thy ===== *)
theory Kmodule
  imports Data_Section
begin

text \<open>
  Loading of modules (kernel/module.c, include/yaos/module.h). A module is a name with an event handler in a
  linker section. The boot processor enters all of them into a table and calls the handlers; a handler may ask to be called
  again after the others, which is done up to nine times. Every other
  processor then calls the handlers of the loaded modules. Handlers act on the kernel state \<open>'w\<close>.
\<close>

definition MOD_ERR_NEXTLOOP :: int where
  "MOD_ERR_NEXTLOOP = - 1"

definition MOD_ERR_OK :: int where
  "MOD_ERR_OK = 0"

definition MAX_MODULE_NR :: nat where
  "MAX_MODULE_NR = 0x100"

definition MODULE_INIT :: int where
  "MODULE_INIT = 0"

definition MODULE_LOADED :: int where
  "MODULE_LOADED = 1"

datatype modeventtype = MOD_BPLOAD | MOD_APLOAD | MOD_UNLOAD | MOD_SHUTDOWN | MOD_QUIESCE

text \<open>A handler gets the module by its place in the table, the event and its argument.\<close>

type_synonym 'w modeventhand_t = "nat \<Rightarrow> modeventtype \<Rightarrow> u64 \<Rightarrow> 'w \<Rightarrow> (int \<times> 'w) kres"

record 'w moduledata =
  md_name :: "string option"
  md_evhand :: "'w modeventhand_t option"
  md_priv :: u64

record 'w kmodule =
  m_status :: int
  m_id :: int
  m_name :: string
  m_handler :: "'w modeventhand_t"
  m_arg :: u64
  m_data :: u64

text \<open>
  The table, the status of each module on the running processor, the number of modules, and the rest of the kernel.
\<close>

record 'w modules =
  all_mods :: "'w kmodule list"
  percpu_status :: "int list"
  total :: nat
  world :: 'w

definition dummy_module :: "'w modeventhand_t" where
  "dummy_module m t arg w = ret (MOD_ERR_OK, w)"

section \<open>The boot processor\<close>

text \<open>
  One turn of the first loop of \<^verbatim>\<open>init_module\<close>, with the place of the next module and whether some module
  wants another call.
\<close>

definition add_module :: "'w moduledata \<Rightarrow> nat \<times> bool \<times> 'w modules \<Rightarrow> (nat \<times> bool \<times> 'w modules) kres" where
  "add_module p st =
     (case st of (i, found, s) \<Rightarrow>
      (case (md_name p, md_evhand p) of
         (Some name, Some evhand) \<Rightarrow>
           kbind (aset (all_mods s) i
             \<lparr>m_status = 0, m_id = int i, m_name = name, m_handler = evhand, m_arg = md_priv p, m_data = 0\<rparr>) (\<lambda>a.
           kbind (aset (percpu_status s) i MODULE_INIT) (\<lambda>ps.
           kbind (evhand i MOD_BPLOAD (md_priv p) (world s)) (\<lambda>(r, w).
             ret (Suc i, found \<or> r \<noteq> MOD_ERR_OK \<and> r = MOD_ERR_NEXTLOOP,
               s\<lparr>all_mods := (if r = MOD_ERR_OK then a[i := (a ! i)\<lparr>m_status := MODULE_LOADED\<rparr>] else a),
                 percpu_status := ps, world := w\<rparr>))))
       | _ \<Rightarrow> ret (i, found, s)))"

text \<open>One pass over the table, calling the handlers of the modules not loaded yet.\<close>

definition load_one :: "nat \<Rightarrow> bool \<times> 'w modules \<Rightarrow> (bool \<times> 'w modules) kres" where
  "load_one i st =
     (case st of (found, s) \<Rightarrow>
      kbind (aget (all_mods s) i) (\<lambda>m.
        if m_status m = MODULE_INIT then
          kbind (m_handler m i MOD_BPLOAD (m_arg m) (world s)) (\<lambda>(r, w).
            if r = MOD_ERR_OK then
              ret (found, s\<lparr>all_mods := (all_mods s)[i := m\<lparr>m_status := MODULE_LOADED\<rparr>], world := w\<rparr>)
            else ret (found \<or> r = MOD_ERR_NEXTLOOP, s\<lparr>world := w\<rparr>))
        else ret (found, s)))"

definition load_pass :: "'w modules \<Rightarrow> (bool \<times> 'w modules) kres" where
  "load_pass s = kfold load_one [0..<total s] (False, s)"

text \<open>\<^verbatim>\<open>while (found && --times)\<close>, from the value of \<open>times\<close> before the test; it starts above zero.\<close>

fun retry :: "('s \<Rightarrow> (bool \<times> 's) kres) \<Rightarrow> nat \<Rightarrow> bool \<Rightarrow> 's \<Rightarrow> (bool \<times> 's) kres" where
  "retry pass 0 found s = ret (found, s)"
| "retry pass (Suc tm) found s =
     (if found \<and> tm \<noteq> 0 then kbind (pass s) (\<lambda>(found', s'). retry pass tm found' s') else ret (found, s))"

definition init_module ::
  "(u64 \<Rightarrow> 'w moduledata option) \<Rightarrow> u64 \<Rightarrow> u64 \<Rightarrow> u64 \<Rightarrow> u64 \<Rightarrow> 'w modules \<Rightarrow> (int \<times> 'w modules) kres" where
  "init_module sec start stop d1 d2 s =
     (let step = myabs d1 d2 in
      kbind (each_entry sec step stop add_module start (0, False, s)) (\<lambda>(i, found, s).
      kbind (retry load_pass 10 found (s\<lparr>total := i\<rparr>)) (\<lambda>(found, s). ret (0, s))))"

section \<open>The other processors\<close>

definition load_one_ap :: "nat \<Rightarrow> bool \<times> 'w modules \<Rightarrow> (bool \<times> 'w modules) kres" where
  "load_one_ap i st =
     (case st of (found, s) \<Rightarrow>
      kbind (aget (all_mods s) i) (\<lambda>m.
      kbind (aget (percpu_status s) i) (\<lambda>ps.
        if m_status m = MODULE_LOADED \<and> ps = MODULE_INIT then
          kbind (m_handler m i MOD_APLOAD (m_arg m) (world s)) (\<lambda>(r, w).
            if r = MOD_ERR_OK then
              ret (found, s\<lparr>percpu_status := (percpu_status s)[i := MODULE_LOADED], world := w\<rparr>)
            else ret (found \<or> r = MOD_ERR_NEXTLOOP, s\<lparr>world := w\<rparr>))
        else ret (found, s))))"

definition load_pass_ap :: "'w modules \<Rightarrow> (bool \<times> 'w modules) kres" where
  "load_pass_ap s = kfold load_one_ap [0..<total s] (False, s)"

definition init_module_ap :: "'w modules \<Rightarrow> (int \<times> 'w modules) kres" where
  "init_module_ap s =
     kbind (load_pass_ap s) (\<lambda>(found, s).
     kbind (retry load_pass_ap 10 found s) (\<lambda>(found, s). ret (0, s)))"

definition init_module_call ::
  "(u64 \<Rightarrow> 'w moduledata option) \<Rightarrow> u64 \<Rightarrow> u64 \<Rightarrow> u64 \<Rightarrow> u64 \<Rightarrow> bool \<Rightarrow> 'w modules \<Rightarrow> (int \<times> 'w modules) kres" where
  "init_module_call sec start stop d1 d2 isbp s =
     kbind (if isbp then init_module sec start stop d1 d2 s else init_module_ap s) (\<lambda>(r, s). ret (0, s))"


section \<open>Modules that ask to be called again\<close>

text \<open>
  Handlers that count their calls: the module at place \<open>i\<close> asks for \<open>n i\<close> further calls and then is
  ready.
\<close>

definition patient :: "(nat \<Rightarrow> nat) \<Rightarrow> (nat \<Rightarrow> nat) modeventhand_t" where
  "patient n i ev arg w = ret (if w i < n i then MOD_ERR_NEXTLOOP else MOD_ERR_OK, w(i := Suc (w i)))"

definition proper :: "'w moduledata \<Rightarrow> bool" where
  "proper p \<longleftrightarrow> md_name p \<noteq> None \<and> md_evhand p \<noteq> None"

text \<open>
  The state when the handler at place \<open>j\<close> was given \<open>k j\<close> chances to be called: the table describes the
  entries \<open>ps\<close>, a module is loaded if its chances were enough.
\<close>

definition entry :: "(nat \<Rightarrow> nat) \<Rightarrow> (nat \<Rightarrow> nat) \<Rightarrow> nat \<Rightarrow> (nat \<Rightarrow> nat) moduledata \<Rightarrow> (nat \<Rightarrow> nat) kmodule" where
  "entry n k j p =
     \<lparr>m_status = (if n j < k j then MODULE_LOADED else MODULE_INIT), m_id = int j, m_name = the (md_name p),
      m_handler = patient n, m_arg = md_priv p, m_data = 0\<rparr>"

definition mods_inv ::
  "(nat \<Rightarrow> nat) \<Rightarrow> (nat \<Rightarrow> nat) \<Rightarrow> (nat \<Rightarrow> nat) moduledata list \<Rightarrow> (nat \<Rightarrow> nat) modules \<Rightarrow> bool" where
  "mods_inv n k ps s \<longleftrightarrow>
     length (all_mods s) = MAX_MODULE_NR \<and> length (percpu_status s) = MAX_MODULE_NR \<and> length ps \<le> MAX_MODULE_NR \<and>
     (\<forall>j < length ps. all_mods s ! j = entry n k j (ps ! j)) \<and>
     world s = (\<lambda>j. if j < length ps then min (k j) (Suc (n j)) else 0)"

lemmas mod_consts = MODULE_INIT_def MODULE_LOADED_def MOD_ERR_OK_def MOD_ERR_NEXTLOOP_def

lemma add_module_step:
  assumes inv: "mods_inv n (\<lambda>_. 1) qs s" and p: "proper p" "md_evhand p = Some (patient n)"
    and room: "length qs < MAX_MODULE_NR"
  shows "\<exists>s'. add_module p (length qs, found, s) = ret (Suc (length qs), found \<or> 1 \<le> n (length qs), s') \<and>
     mods_inv n (\<lambda>_. 1) (qs @ [p]) s'"
proof -
  let ?i = "length qs"
  obtain name where nm: "md_name p = Some name" using p(1) by (auto simp: proper_def)
  have l: "?i < length (all_mods s)" "?i < length (percpu_status s)" and w: "world s ?i = 0"
    using inv room by (simp_all add: mods_inv_def)
  let ?s = "s\<lparr>all_mods := (all_mods s)[?i := entry n (\<lambda>_. 1) ?i p], percpu_status := (percpu_status s)[?i := MODULE_INIT],
      world := (world s)(?i := 1)\<rparr>"
  have "add_module p (?i, found, s) = ret (Suc ?i, found \<or> 1 \<le> n ?i, ?s)"
    using l w nm p(2) by (auto simp: add_module_def patient_def entry_def mod_consts)
  moreover have "mods_inv n (\<lambda>_. 1) (qs @ [p]) ?s"
    using inv room by (auto simp: mods_inv_def nth_append less_Suc_eq nth_list_update fun_eq_iff)
  ultimately show ?thesis by blast
qed

lemma add_modules:
  assumes "mods_inv n (\<lambda>_. 1) qs s" "\<forall>p \<in> set es. proper p \<longrightarrow> md_evhand p = Some (patient n)"
    and "length qs + length (filter proper es) \<le> MAX_MODULE_NR"
  shows "\<exists>s'. kfold add_module es (length qs, \<exists>j < length qs. 1 \<le> n j, s) =
       ret (length (qs @ filter proper es), \<exists>j < length (qs @ filter proper es). 1 \<le> n j, s') \<and>
     mods_inv n (\<lambda>_. 1) (qs @ filter proper es) s'"
  using assms
proof (induction es arbitrary: qs s)
  case (Cons p es)
  show ?case
  proof (cases "proper p")
    case True
    then obtain s1 where s1: "add_module p (length qs, \<exists>j < length qs. 1 \<le> n j, s) =
        ret (length (qs @ [p]), \<exists>j < length (qs @ [p]). 1 \<le> n j, s1)" "mods_inv n (\<lambda>_. 1) (qs @ [p]) s1"
      using add_module_step[OF Cons.prems(1) True, of "\<exists>j < length qs. 1 \<le> n j"] Cons.prems(2,3)
      by (auto simp: less_Suc_eq ex_disj_distrib conj_disj_distribR)
    from Cons.IH[OF s1(2)] Cons.prems(2,3) True s1(1) show ?thesis by simp
  next
    case False
    then have "add_module p st = ret st" for st
      by (auto simp: add_module_def proper_def split: prod.splits option.splits)
    with Cons False show ?thesis by simp
  qed
qed simp

lemma load_one_step:
  assumes inv: "mods_inv n k ps s" and i: "i < length ps" and k: "1 \<le> k i"
  shows "\<exists>s'. load_one i (found, s) = ret (found \<or> Suc (k i) \<le> n i, s') \<and>
     mods_inv n (k(i := Suc (k i))) ps s' \<and> total s' = total s"
proof -
  have l: "i < length (all_mods s)" and m: "all_mods s ! i = entry n k i (ps ! i)" and w: "world s i = min (k i) (Suc (n i))"
    using inv i by (auto simp: mods_inv_def)
  show ?thesis
  proof (cases "n i < k i")
    case True
    then have "load_one i (found, s) = ret (found, s)"
      using l m by (simp add: load_one_def entry_def mod_consts)
    moreover have "entry n (k(i := Suc (k i))) j p = entry n k j p" for j p using True by (auto simp: entry_def)
    then have "mods_inv n (k(i := Suc (k i))) ps s" using inv True by (auto simp: mods_inv_def fun_eq_iff)
    ultimately show ?thesis using True by auto
  next
    case False
    let ?s = "s\<lparr>all_mods := (all_mods s)[i := entry n (k(i := Suc (k i))) i (ps ! i)], world := (world s)(i := Suc (k i))\<rparr>"
    have "load_one i (found, s) = ret (found \<or> Suc (k i) \<le> n i, ?s)"
      using l m w False list_update_id[of "all_mods s" i]
      by (auto simp: load_one_def entry_def patient_def mod_consts min_def)
    moreover have "mods_inv n (k(i := Suc (k i))) ps ?s"
      using inv i False by (auto simp: mods_inv_def nth_list_update fun_eq_iff entry_def)
    ultimately show ?thesis by auto
  qed
qed


lemma load_pass_prefix:
  assumes "mods_inv n (\<lambda>_. k) ps s" "1 \<le> k" "m \<le> length ps"
  shows "\<exists>s'. kfold load_one [0..<m] (False, s) = ret (\<exists>j < m. Suc k \<le> n j, s') \<and>
     mods_inv n (\<lambda>j. if j < m then Suc k else k) ps s' \<and> total s' = total s"
  using assms(3)
proof (induction m)
  case 0
  then show ?case using assms(1) by simp
next
  case (Suc m)
  then obtain s1 where s1: "kfold load_one [0..<m] (False, s) = ret (\<exists>j < m. Suc k \<le> n j, s1)"
    "mods_inv n (\<lambda>j. if j < m then Suc k else k) ps s1" "total s1 = total s" by auto
  have "(\<lambda>j. if j < m then Suc k else k)(m := Suc k) = (\<lambda>j. if j < Suc m then Suc k else k)" by auto
  with load_one_step[OF s1(2), of m "\<exists>j < m. Suc k \<le> n j"] Suc.prems assms(2) s1 show ?case
    by (auto simp: kfold_append less_Suc_eq ex_disj_distrib conj_disj_distribR)
qed

lemma mods_inv_cong:
  assumes "mods_inv n k ps s" "\<And>j. j < length ps \<Longrightarrow> k j = k' j"
  shows "mods_inv n k' ps s"
  using assms by (auto simp: mods_inv_def entry_def fun_eq_iff)

lemma load_pass_step:
  assumes "mods_inv n (\<lambda>_. k) ps s" "1 \<le> k" "total s = length ps"
  shows "\<exists>s'. load_pass s = ret (\<exists>j < length ps. Suc k \<le> n j, s') \<and>
     mods_inv n (\<lambda>_. Suc k) ps s' \<and> total s' = length ps"
proof -
  obtain s' where s': "kfold load_one [0..<length ps] (False, s) = ret (\<exists>j < length ps. Suc k \<le> n j, s')"
    "mods_inv n (\<lambda>j. if j < length ps then Suc k else k) ps s'" "total s' = total s"
    using load_pass_prefix[OF assms(1,2) order_refl] by blast
  have "mods_inv n (\<lambda>_. Suc k) ps s'" by (rule mods_inv_cong[OF s'(2)]) simp
  with s' assms(3) show ?thesis by (simp add: load_pass_def)
qed

text \<open>When no module waits any more, further chances change nothing.\<close>

lemma mods_inv_settled:
  assumes "mods_inv n (\<lambda>_. k) ps s" "\<forall>j < length ps. n j < k" "k \<le> k'"
  shows "mods_inv n (\<lambda>_. k') ps s"
proof -
  have "n j < k \<Longrightarrow> n j < k'" "n j < k \<Longrightarrow> min k (Suc (n j)) = min k' (Suc (n j))" for j using assms(3) by auto
  then show ?thesis using assms(1,2) by (auto simp: mods_inv_def entry_def fun_eq_iff)
qed

lemma retry_passes:
  assumes "mods_inv n (\<lambda>_. k) ps s" "1 \<le> k" "total s = length ps" "k + t = 11" "1 \<le> t"
  shows "\<exists>b s'. retry load_pass t (\<exists>j < length ps. k \<le> n j) s = ret (b, s') \<and>
     mods_inv n (\<lambda>_. 10) ps s' \<and> total s' = length ps"
  using assms
proof (induction t arbitrary: k s)
  case (Suc t)
  show ?case
  proof (cases "(\<exists>j < length ps. k \<le> n j) \<and> t \<noteq> 0")
    case True
    obtain s1 where s1: "load_pass s = ret (\<exists>j < length ps. Suc k \<le> n j, s1)" "mods_inv n (\<lambda>_. Suc k) ps s1" "total s1 = length ps"
      using load_pass_step[OF Suc.prems(1-3)] by blast
    obtain b s' where "retry load_pass t (\<exists>j < length ps. Suc k \<le> n j) s1 = ret (b, s')"
      "mods_inv n (\<lambda>_. 10) ps s'" "total s' = length ps"
      using Suc.IH[OF s1(2) _ s1(3)] Suc.prems(4) True by auto
    with True s1(1) show ?thesis by simp
  next
    case stop: False
    then have "retry load_pass (Suc t) (\<exists>j < length ps. k \<le> n j) s = ret (\<exists>j < length ps. k \<le> n j, s)" by auto
    moreover have "mods_inv n (\<lambda>_. 10) ps s"
    proof (cases "t = 0")
      case True
      then show ?thesis using Suc.prems(1,4) by simp
    next
      case False
      with stop Suc.prems(4) show ?thesis by (intro mods_inv_settled[OF Suc.prems(1)]) (auto simp: not_le)
    qed
    ultimately show ?thesis using Suc.prems(3) by blast
  qed
qed simp


lemma all_less_2_3:
  "(\<forall>j < 2. P j) \<longleftrightarrow> P 0 \<and> P (1 :: nat)" "(\<forall>j < 3. P j) \<longleftrightarrow> P 0 \<and> P 1 \<and> P (2 :: nat)"
  by (simp_all add: eval_nat_numeral All_less_Suc conj_ac)

definition demo_mod :: "string option \<Rightarrow> (nat \<Rightarrow> nat) moduledata" where
  "demo_mod nm = \<lparr>md_name = nm, md_evhand = Some (patient (\<lambda>i. if i = 0 then 0 else 12)), md_priv = 0\<rparr>"


end
