(* ===== verification/Slub.thy ===== *)
theory Slub
  imports Yaoscall Bitops Kmodule "HOL-Library.Signed_Division"
begin

text \<open>
  The slab allocator of the kernel (module/mm/slub.c and slub.h), which provides \<^verbatim>\<open>malloc\<close>. Objects of
  up to 4096 bytes come from free lists by size class, threaded through the free objects themselves;
  larger ones are runs of 4K pages of the kernel heap. Four bits for each page of memory
  record the class of its objects. The state extends the kernel state with the classes, these bits, and the word stored
  at the start of each free object.
\<close>

unbundle bit_operations_syntax

section \<open>Size classes\<close>

definition LARGE_IDX :: u8 where
  "LARGE_IDX = 15"

definition LARGE_NEXT :: u8 where
  "LARGE_NEXT = 14"

definition ZERO_SIZE_PTR :: u64 where
  "ZERO_SIZE_PTR = 16"

definition KMALLOC_SHIFT_LOW :: nat where
  "KMALLOC_SHIFT_LOW = 3"

definition KMALLOC_SHIFT_HIGH :: nat where
  "KMALLOC_SHIFT_HIGH = 12"

definition KMALLOC_MIN_SIZE :: u64 where
  "KMALLOC_MIN_SIZE = push_bit KMALLOC_SHIFT_LOW 1"

definition KMALLOC_MAX_SIZE :: u64 where
  "KMALLOC_MAX_SIZE = push_bit (11 + 12) 1"

definition KMALLOC_MAX_CACHE_SIZE :: u64 where
  "KMALLOC_MAX_CACHE_SIZE = push_bit KMALLOC_SHIFT_HIGH 1"

text \<open>The fields that no code touches (\<^verbatim>\<open>resverd\<close>, \<^verbatim>\<open>flags\<close>) are left out.\<close>

record kmem_cache =
  c_page :: u64
  c_idx :: u8
  c_size :: int
  c_name :: string
  freehead :: u64

definition size_index :: "nat list" where
  "size_index =
     [3, 4, 5, 5, 6, 6, 6, 6, 1, 1, 1, 1, 7, 7, 7, 7, 2, 2, 2, 2, 2, 2, 2, 2]"

definition kmalloc_info :: "(string \<times> u64) list" where
  "kmalloc_info =
     [('''', 0), (''kmalloc-96'', 96),
      (''kmalloc-192'', 192), (''kmalloc-8'', 8),
      (''kmalloc-16'', 16), (''kmalloc-32'', 32),
      (''kmalloc-64'', 64), (''kmalloc-128'', 128),
      (''kmalloc-256'', 256), (''kmalloc-512'', 512),
      (''kmalloc-1024'', 1024), (''kmalloc-2048'', 2048),
      (''kmalloc-4096'', 4096), (''kmalloc-8192'', 8192),
      (''kmalloc-16384'', 16384), (''kmalloc-32768'', 32768),
      (''kmalloc-65536'', 65536), (''kmalloc-131072'', 131072),
      (''kmalloc-262144'', 262144), (''kmalloc-524288'', 524288),
      (''kmalloc-1048576'', 1048576), (''kmalloc-2097152'', 2097152),
      (''kmalloc-4194304'', 4194304), (''kmalloc-8388608'', 8388608),
      (''kmalloc-16777216'', 16777216), (''kmalloc-33554432'', 33554432),
      (''kmalloc-67108864'', 67108864)]"

definition size_index_elem :: "u64 \<Rightarrow> nat" where
  "size_index_elem bytes = unat ((bytes - 1) div 8)"

text \<open>
  The result of \<^verbatim>\<open>kmalloc_slab\<close>: null, the mark of a request for nothing, or the cache with
  a number.
\<close>

datatype slab = No_slab | Zero_size | Slab nat

definition kmalloc_slab :: "u64 \<Rightarrow> slab kres" where
  "kmalloc_slab sz =
     (if sz > KMALLOC_MAX_SIZE then ret No_slab
      else if sz \<le> 192 then
        (if sz = 0 then ret Zero_size
         else kbind (aget size_index (size_index_elem sz)) (\<lambda>index. ret (Slab index)))
      else ret (Slab (nat (fls (ucast (sz - 1))))))"

text \<open>\<^verbatim>\<open>kmalloc_index\<close> of slub.h, which constant sizes would use; \<^verbatim>\<open>BUG\<close> stops.\<close>

definition kmalloc_index :: "u64 \<Rightarrow> nat kres" where
  "kmalloc_index sz =
     (if sz = 0 then ret 0
      else if sz \<le> KMALLOC_MIN_SIZE then ret KMALLOC_SHIFT_LOW
      else if KMALLOC_MIN_SIZE \<le> 32 \<and> sz > 64 \<and> sz \<le> 96 then ret 1
      else if KMALLOC_MIN_SIZE \<le> 64 \<and> sz > 128 \<and> sz \<le> 192 then ret 2
      else if sz \<le> 8 then ret 3
      else if sz \<le> 16 then ret 4
      else if sz \<le> 32 then ret 5
      else if sz \<le> 64 then ret 6
      else if sz \<le> 128 then ret 7
      else if sz \<le> 256 then ret 8
      else if sz \<le> 512 then ret 9
      else if sz \<le> 1024 then ret 10
      else if sz \<le> 2 * 1024 then ret 11
      else if sz \<le> 4 * 1024 then ret 12
      else if sz \<le> 8 * 1024 then ret 13
      else if sz \<le> 16 * 1024 then ret 14
      else if sz \<le> 32 * 1024 then ret 15
      else if sz \<le> 64 * 1024 then ret 16
      else if sz \<le> 128 * 1024 then ret 17
      else if sz \<le> 256 * 1024 then ret 18
      else if sz \<le> 512 * 1024 then ret 19
      else if sz \<le> 1024 * 1024 then ret 20
      else if sz \<le> 2 * 1024 * 1024 then ret 21
      else if sz \<le> 4 * 1024 * 1024 then ret 22
      else if sz \<le> 8 * 1024 * 1024 then ret 23
      else if sz \<le> 16 * 1024 * 1024 then ret 24
      else if sz \<le> 32 * 1024 * 1024 then ret 25
      else if sz \<le> 64 * 1024 * 1024 then ret 26
      else halt (Assertion ''kmalloc_index''))"

section \<open>The state and its initialisation\<close>

text \<open>
  The source declares 13 caches and also uses those with the numbers 14 and 15, which lie behind the array;
  the model has a cache for each number, as if that memory were free.
\<close>

record slub = ykernel +
  kmalloc_caches :: "nat \<Rightarrow> kmem_cache"
  page_bits :: "u8 list"
  pnext_at :: "u64 \<Rightarrow> u64"
  slub_ok :: bool

definition new_kmalloc_cache :: "nat \<Rightarrow> slub \<Rightarrow> slub kres" where
  "new_kmalloc_cache idx s =
     kbind (aget kmalloc_info idx) (\<lambda>(name, sz).
     kbind (kassert (idx < 2 ^ 16) ''new_kmalloc_cache'') (\<lambda>_.
       ret (s\<lparr>kmalloc_caches := (kmalloc_caches s)(idx :=
         \<lparr>c_page = 0, c_idx = of_nat idx, c_size = sint (ucast sz :: u32), c_name = name, freehead = 0\<rparr>)\<rparr>)))"

definition create_kmalloc_caches :: "slub \<Rightarrow> slub kres" where
  "create_kmalloc_caches s =
     kbind (kfold (\<lambda>i s.
         kbind (new_kmalloc_cache i s) (\<lambda>s.
         kbind (if KMALLOC_MIN_SIZE \<le> 32 \<and> i = 6 then new_kmalloc_cache 1 s else ret s) (\<lambda>s.
           if KMALLOC_MIN_SIZE \<le> 64 \<and> i = 7 then new_kmalloc_cache 2 s else ret s)))
       [KMALLOC_SHIFT_LOW ..< Suc KMALLOC_SHIFT_HIGH] s) (\<lambda>s.
     kbind (new_kmalloc_cache (unat LARGE_IDX) s) (\<lambda>s.
       new_kmalloc_cache (unat LARGE_NEXT) s))"

definition slab_index :: "u64 \<Rightarrow> kmem_cache \<Rightarrow> u64 \<Rightarrow> int" where
  "slab_index p c addr = sint (p - addr) sdiv c_size c"

definition slab_ksize :: "kmem_cache \<Rightarrow> u64" where
  "slab_ksize c = word_of_int (c_size c)"

definition virt_to_obj :: "kmem_cache \<Rightarrow> u64 \<Rightarrow> u64 \<Rightarrow> u64" where
  "virt_to_obj c slab_page x = x - word_of_int (sint (x - slab_page) smod c_size c)"

section \<open>The class of a page\<close>

definition get_page_bits :: "u8 list \<Rightarrow> u64 \<Rightarrow> u8 kres" where
  "get_page_bits pb offset =
     kbind (aget pb (unat (offset div 2))) (\<lambda>b.
       if offset AND 1 \<noteq> 0 then ret (drop_bit 4 b AND 0xf) else ret (b AND 0xf))"

definition or_page_bits :: "u8 list \<Rightarrow> u64 \<Rightarrow> u8 \<Rightarrow> u8 list kres" where
  "or_page_bits pb offset v =
     kbind (aget pb (unat (offset div 2))) (\<lambda>b.
       aset pb (unat (offset div 2)) (if offset AND 1 \<noteq> 0 then b OR push_bit 4 v else b OR v))"

definition get_cache_from_addr :: "u64 \<Rightarrow> slub \<Rightarrow> nat kres" where
  "get_cache_from_addr addr s =
     (let offset = drop_bit 12 addr in
      kbind (get_page_bits (page_bits s) offset) (\<lambda>idx. ret (unat idx)))"

section \<open>Releasing\<close>

text \<open>The loop that counts the pages of a large block, from the page before \<open>offset\<close>.\<close>

partial_function (option) large_size :: "u8 list \<Rightarrow> u64 \<Rightarrow> u64 \<Rightarrow> u64 kres" where
  "large_size pb offset sz =
     (let sz = sz + 0x1000; offset = offset + 1 in
      kbind (get_page_bits pb offset) (\<lambda>idx.
        if idx = LARGE_NEXT then large_size pb offset sz else ret sz))"

definition kmfree :: "slub yaoscall_table \<Rightarrow> u64 \<Rightarrow> slub \<Rightarrow> slub kres" where
  "kmfree tbl p s =
     (if p = ZERO_SIZE_PTR then ret s
      else kbind (get_cache_from_addr p s) (\<lambda>i.
        if c_idx (kmalloc_caches s i) = LARGE_IDX then
          kbind (large_size (page_bits s) (drop_bit 12 p) 0) (\<lambda>sz. yaos_heap_free_4k tbl p sz s)
        else
          ret (s\<lparr>pnext_at := (pnext_at s)(p := freehead (kmalloc_caches s i)),
                 kmalloc_caches := (kmalloc_caches s)(i := (kmalloc_caches s i)\<lparr>freehead := p\<rparr>)\<rparr>)))"

section \<open>Allocating\<close>

text \<open>The loop that links the objects of a page; it returns the last one.\<close>

partial_function (option) link_objects ::
  "u64 \<Rightarrow> u64 \<Rightarrow> u64 \<Rightarrow> u64 \<Rightarrow> (u64 \<Rightarrow> u64) \<Rightarrow> (u64 \<times> (u64 \<Rightarrow> u64)) kres" where
  "link_objects sz pend pf pn m =
     (if pn < pend then link_objects sz pend pn (pn + sz) (m(pf := pn))
      else ret (pf, m))"

definition slub_add_page :: "slub yaoscall_table \<Rightarrow> nat \<Rightarrow> slub \<Rightarrow> (bool \<times> slub) kres" where
  "slub_add_page tbl i s0 =
     kbind (yaos_heap_alloc_4k tbl 0x1000 s0) (\<lambda>(addr, s).
       if addr = 0 then ret (False, s)
       else let c = kmalloc_caches s i; sz = word_of_int (c_size c) in
         kbind (link_objects sz (addr + 0x1000) addr (addr + sz) (pnext_at s)) (\<lambda>(pf, m).
         let offset = drop_bit 12 addr in
         kbind (kassert (c_idx c < 16) ''slub_add_page'') (\<lambda>_.
         kbind (or_page_bits (page_bits s) offset (c_idx c)) (\<lambda>pb.
           ret (True, s\<lparr>pnext_at := m(pf := freehead c),
             kmalloc_caches := (kmalloc_caches s)(i := c\<lparr>freehead := addr\<rparr>), page_bits := pb\<rparr>)))))"

definition kmalloc :: "slub yaoscall_table \<Rightarrow> u64 \<Rightarrow> slub \<Rightarrow> (u64 \<times> slub) kres" where
  "kmalloc tbl sz s =
     kbind (kmalloc_slab sz) (\<lambda>sl.
       case sl of
         Zero_size \<Rightarrow> ret (ZERO_SIZE_PTR, s)
       | No_slab \<Rightarrow> ret (0, s)
       | Slab i \<Rightarrow>
           kbind (if freehead (kmalloc_caches s i) = 0 then slub_add_page tbl i s else ret (True, s)) (\<lambda>(ok, s).
             if \<not> ok then ret (0, s)
             else let pf = freehead (kmalloc_caches s i) in
               kbind (kassert (pf \<noteq> 0) ''kmalloc'') (\<lambda>_.
                 ret (pf, s\<lparr>kmalloc_caches :=
                   (kmalloc_caches s)(i := (kmalloc_caches s i)\<lparr>freehead := pnext_at s pf\<rparr>)\<rparr>))))"

text \<open>The loop that marks the pages of a large block after the first.\<close>

partial_function (option) mark_large :: "u64 \<Rightarrow> u64 \<Rightarrow> u8 list \<Rightarrow> u8 list kres" where
  "mark_large stop offset pb =
     (if offset < stop
      then kbind (or_page_bits pb offset LARGE_NEXT) (\<lambda>pb. mark_large stop (offset + 1) pb)
      else ret pb)"

definition kmalloc_large :: "slub yaoscall_table \<Rightarrow> u64 \<Rightarrow> slub \<Rightarrow> (u64 \<times> slub) kres" where
  "kmalloc_large tbl sz s0 =
     (let newsize = (sz + 0xfff) AND NOT 0xfff in
      kbind (yaos_heap_alloc_4k tbl newsize s0) (\<lambda>(addr, s).
        if addr = 0 then ret (0, s)
        else let offset = drop_bit 12 addr in
          kbind (or_page_bits (page_bits s) offset LARGE_IDX) (\<lambda>pb.
          kbind (mark_large (drop_bit 12 (addr + newsize)) (offset + 1) pb) (\<lambda>pb.
            ret (addr, s\<lparr>page_bits := pb\<rparr>)))))"

section \<open>The services and the module\<close>

text \<open>
  The services call the heap through the table in which they are registered; no code
  changes the slots of the heap after boot, so \<open>tbl\<close> is the table that the module found.
\<close>

definition slub_mfree :: "slub yaoscall_table \<Rightarrow> slub yaoscall_t" where
  "slub_mfree tbl p a2 s = kbind (kmfree tbl p s) (\<lambda>s. ret (\<lparr>ret_v = 0, ret_e = YAOSCALL_OK\<rparr>, s))"

definition slub_malloc :: "slub yaoscall_table \<Rightarrow> slub yaoscall_t" where
  "slub_malloc tbl sz a2 s =
     kbind (if sz > KMALLOC_MAX_CACHE_SIZE then kmalloc_large tbl sz s else kmalloc tbl sz s) (\<lambda>(addr, s).
       ret (\<lparr>ret_v = addr, ret_e = (if addr = 0 then ERR_YAOSCALL_NO_MEM else YAOSCALL_OK)\<rparr>, s))"

text \<open>The result of the allocation is not tested before it is cleared.\<close>

definition init_slub_bp :: "slub yaoscall_table \<Rightarrow> slub \<Rightarrow> slub kres" where
  "init_slub_bp tbl s =
     kbind (yaos_max_physical_mem tbl s) (\<lambda>(maxaddr, s).
     let sz = ((drop_bit 12 maxaddr div 2 + 1) + (0x1000 - 1)) AND NOT 0xfff in
     kbind (yaos_heap_alloc_4k tbl sz s) (\<lambda>(addr, s).
       if addr = 0 then halt (Wild ''page_bits'')
       else ret (s\<lparr>page_bits := replicate (unat sz) 0\<rparr>)))"

definition init_slub_ap :: "slub \<Rightarrow> slub kres" where
  "init_slub_ap s = kbind (create_kmalloc_caches s) (\<lambda>s. ret (s\<lparr>slub_ok := True\<rparr>))"

definition slub_main ::
  "bool \<Rightarrow> modeventtype \<Rightarrow> slub yaoscall_table \<Rightarrow> slub \<Rightarrow> (int \<times> slub yaoscall_table \<times> slub) kres" where
  "slub_main is_bp env tbl s =
     (case env of
        MOD_BPLOAD \<Rightarrow>
          kbind (init_slub_bp tbl (s\<lparr>slub_ok := False\<rparr>)) (\<lambda>s.
          kbind (init_slub_ap s) (\<lambda>s.
          kbind (regist_yaoscall (enum_of YAOS_malloc) (slub_malloc tbl) tbl) (\<lambda>t.
          kbind (regist_yaoscall (enum_of YAOS_mfree) (slub_mfree tbl) t) (\<lambda>t.
            ret (0, t, s)))))
      | MOD_APLOAD \<Rightarrow>
          kbind (if \<not> is_bp then init_slub_ap s else ret s) (\<lambda>s. ret (0, tbl, s))
      | _ \<Rightarrow> ret (0, tbl, s))"


section \<open>The classes\<close>

definition fresh_cache :: "nat \<Rightarrow> kmem_cache" where
  "fresh_cache i =
     \<lparr>c_page = 0, c_idx = of_nat i, c_size = sint (ucast (snd (kmalloc_info ! i)) :: u32),
      c_name = fst (kmalloc_info ! i), freehead = 0\<rparr>"

lemma new_kmalloc_cache_ret:
  "i < 27 \<Longrightarrow> new_kmalloc_cache i s = ret (s\<lparr>kmalloc_caches := (kmalloc_caches s)(i := fresh_cache i)\<rparr>)"
  by (simp add: new_kmalloc_cache_def aget_def kmalloc_info_def fresh_cache_def split_beta)

lemma classes: "{1..12} = {1, 2, 3, 4, 5, 6, 7, 8, 9, 10, 11, 12 :: nat}"
  by (rule set_eqI) (simp, presburger)

lemma create_kmalloc_caches_ret:
  "create_kmalloc_caches s =
     ret (s\<lparr>kmalloc_caches := (\<lambda>i. if i \<in> {1..12} \<union> {14, 15} then fresh_cache i else kmalloc_caches s i)\<rparr>)"
proof -
  have "[3..<Suc 12] = [3, 4, 5, 6, 7, 8, 9, 10, 11, 12 :: nat]" by (simp add: upt_rec)
  then have "create_kmalloc_caches s = ret (s\<lparr>kmalloc_caches :=
      (kmalloc_caches s)(3 := fresh_cache 3, 4 := fresh_cache 4, 5 := fresh_cache 5, 6 := fresh_cache 6,
        1 := fresh_cache 1, 7 := fresh_cache 7, 2 := fresh_cache 2, 8 := fresh_cache 8, 9 := fresh_cache 9,
        10 := fresh_cache 10, 11 := fresh_cache 11, 12 := fresh_cache 12, 15 := fresh_cache 15, 14 := fresh_cache 14)\<rparr>)"
    by (simp add: create_kmalloc_caches_def KMALLOC_SHIFT_LOW_def KMALLOC_SHIFT_HIGH_def KMALLOC_MIN_SIZE_def
        LARGE_IDX_def LARGE_NEXT_def new_kmalloc_cache_ret)
  moreover have "(kmalloc_caches s)(3 := fresh_cache 3, 4 := fresh_cache 4, 5 := fresh_cache 5, 6 := fresh_cache 6,
        1 := fresh_cache 1, 7 := fresh_cache 7, 2 := fresh_cache 2, 8 := fresh_cache 8, 9 := fresh_cache 9,
        10 := fresh_cache 10, 11 := fresh_cache 11, 12 := fresh_cache 12, 15 := fresh_cache 15, 14 := fresh_cache 14)
      = (\<lambda>i. if i \<in> {1..12} \<union> {14, 15} then fresh_cache i else kmalloc_caches s i)"
    unfolding classes by (rule ext) auto
  ultimately show ?thesis by simp
qed

text \<open>The object size of a class.\<close>

definition class_size :: "nat \<Rightarrow> nat" where
  "class_size i = (if i = 1 then 96 else if i = 2 then 192 else 2 ^ i)"

lemma fresh_cache_size: "i \<in> {1..12} \<Longrightarrow> c_size (fresh_cache i) = int (class_size i)"
  unfolding classes by (auto simp: fresh_cache_def kmalloc_info_def class_size_def)

lemma fresh_cache_fields [simp]:
  "c_idx (fresh_cache i) = of_nat i" "freehead (fresh_cache i) = 0"
  by (simp_all add: fresh_cache_def)


lemma slab_small:
  assumes "0 < unat sz" "unat sz \<le> 192"
  shows "kmalloc_slab sz = ret (Slab (size_index ! ((unat sz - 1) div 8)))"
proof -
  have u: "unat (sz - 1) = unat sz - 1"
    using assms(1) by (intro unat_minus_one) auto
  have k: "(unat sz - 1) div 8 < 24" using assms by linarith
  have "aget size_index (size_index_elem sz) = ret (size_index ! ((unat sz - 1) div 8))"
    using k by (simp add: aget_def size_index_elem_def unat_div u) (simp add: size_index_def)
  moreover have "sz \<noteq> 0" using assms by auto
  ultimately show ?thesis
    using assms by (simp add: kmalloc_slab_def KMALLOC_MAX_SIZE_def word_le_nat_alt word_less_nat_alt)
qed

lemma slab_big:
  assumes "192 < unat sz" "2 ^ n < unat sz" "unat sz \<le> 2 ^ Suc n" "n < 12"
  shows "kmalloc_slab sz = ret (Slab (Suc n))"
proof -
  have u: "unat (sz - 1) = unat sz - 1" using assms(1) by (intro unat_minus_one) auto
  have "(2 :: nat) ^ Suc n \<le> 2 ^ 12" by (rule power_increasing) (use assms(4) in auto)
  then have le: "unat sz \<le> 4096" using assms(3) by simp
  then have w: "unat (ucast (sz - 1) :: u32) = unat sz - 1"
    by (simp add: unsigned_ucast_eq u take_bit_nat_eq_self)
  have "fls (ucast (sz - 1)) = int (Suc n)"
    by (rule fls_eqI) (use assms in \<open>auto simp: w\<close>)
  with assms le show ?thesis
    by (simp add: kmalloc_slab_def KMALLOC_MAX_SIZE_def word_le_nat_alt word_less_nat_alt)
qed

text \<open>Both ways to choose a class, by intervals of the size \<open>n\<close>.\<close>

definition class_of :: "nat \<Rightarrow> nat" where
  "class_of n =
     (if n \<le> 8 then 3 else if 64 < n \<and> n \<le> 96 then 1 else if 128 < n \<and> n \<le> 192 then 2
      else if n \<le> 16 then 4 else if n \<le> 32 then 5 else if n \<le> 64 then 6 else if n \<le> 128 then 7
      else if n \<le> 256 then 8 else if n \<le> 512 then 9 else if n \<le> 1024 then 10 else if n \<le> 2048 then 11 else 12)"

lemma kmalloc_index_class:
  "0 < unat sz \<Longrightarrow> unat sz \<le> 4096 \<Longrightarrow> kmalloc_index sz = ret (class_of (unat sz))"
  by (simp add: kmalloc_index_def class_of_def KMALLOC_MIN_SIZE_def KMALLOC_SHIFT_LOW_def
      word_le_nat_alt word_less_nat_alt unat_eq_0[symmetric])

lemma size_index_class:
  assumes "0 < n" "n \<le> 192"
  shows "size_index ! ((n - 1) div 8) = class_of n"
proof -
  let ?k = "(n - 1) div 8"
  have n: "8 * ?k < n" "n \<le> 8 * ?k + 8" using assms by linarith+
  have k: "?k < 24" using assms by linarith
  have "k < 24 \<Longrightarrow> 8 * k < n \<Longrightarrow> n \<le> 8 * k + 8 \<Longrightarrow> size_index ! k = class_of n" for k
    by (simp add: size_index_def numeral_nat(2-) less_Suc_eq) (auto simp: class_of_def)
  from this[OF k n] show ?thesis .
qed


lemma kmalloc_slab_class:
  assumes "0 < unat sz" "unat sz \<le> 4096"
  shows "kmalloc_slab sz = ret (Slab (class_of (unat sz)))"
proof (cases "unat sz \<le> 192")
  case True
  with assms show ?thesis using slab_small size_index_class by metis
next
  case False
  then consider "unat sz \<le> 256" | "256 < unat sz" "unat sz \<le> 512" | "512 < unat sz" "unat sz \<le> 1024"
    | "1024 < unat sz" "unat sz \<le> 2048" | "2048 < unat sz" by linarith
  then show ?thesis
    by cases (use False assms slab_big[of sz 7] slab_big[of sz 8] slab_big[of sz 9] slab_big[of sz 10] slab_big[of sz 11]
        in \<open>simp_all add: class_of_def\<close>)
qed

lemma class_of_range: "class_of n \<in> {1..12}"
  by (simp add: class_of_def)

lemma class_of_least:
  assumes "0 < n" "n \<le> 4096"
  shows "n \<le> class_size (class_of n)"
    "j \<in> {1..12} \<Longrightarrow> class_size j < class_size (class_of n) \<Longrightarrow> class_size j < n"
proof -
  show "n \<le> class_size (class_of n)"
    using assms by (auto simp: class_of_def class_size_def)
  show "j \<in> {1..12} \<Longrightarrow> class_size j < class_size (class_of n) \<Longrightarrow> class_size j < n"
    unfolding classes by (elim insertE; simp) (auto simp: class_of_def class_size_def split: if_splits)
qed

text \<open>
  C28: A request of 1 to 4096 bytes is served from the cache with the smallest objects that are large enough,
  and the table lookup and the chain of comparisons in slub.h choose the same cache.
\<close>

theorem kmalloc_slab_least:
  assumes "0 < unat sz" "unat sz \<le> 4096" "create_kmalloc_caches s = ret s'"
  shows "\<exists>i \<in> {1..12}. kmalloc_slab sz = ret (Slab i) \<and> kmalloc_index sz = ret i \<and>
     unat sz \<le> nat (c_size (kmalloc_caches s' i)) \<and>
     (\<forall>j \<in> {1..12}. c_size (kmalloc_caches s' j) < c_size (kmalloc_caches s' i) \<longrightarrow>
        nat (c_size (kmalloc_caches s' j)) < unat sz)"
proof (rule bexI[of _ "class_of (unat sz)"])
  let ?i = "class_of (unat sz)"
  have s': "c_size (kmalloc_caches s' i) = int (class_size i)" if "i \<in> {1..12}" for i
    using assms(3) that fresh_cache_size[OF that] by (auto simp: create_kmalloc_caches_ret)
  show "kmalloc_slab sz = ret (Slab ?i) \<and> kmalloc_index sz = ret ?i \<and>
     unat sz \<le> nat (c_size (kmalloc_caches s' ?i)) \<and>
     (\<forall>j \<in> {1..12}. c_size (kmalloc_caches s' j) < c_size (kmalloc_caches s' ?i) \<longrightarrow>
        nat (c_size (kmalloc_caches s' j)) < unat sz)"
    using assms class_of_least[OF assms(1,2)] class_of_range[of "unat sz"]
    by (simp add: s' kmalloc_slab_class kmalloc_index_class)
qed (rule class_of_range)


section \<open>The bits of the pages\<close>

lemma mask4: "(0xf :: u8) = mask 4"
  by (simp add: mask_eq_exp_minus_1)

lemma nibble_or:
  fixes b v :: u8
  assumes "v AND 0xf = v"
  shows "(b OR v) AND 0xf = (b AND 0xf) OR v" "drop_bit 4 (b OR v) AND 0xf = drop_bit 4 b AND 0xf"
    "(b OR push_bit 4 v) AND 0xf = b AND 0xf" "drop_bit 4 (b OR push_bit 4 v) AND 0xf = (drop_bit 4 b AND 0xf) OR v"
proof -
  have v: "bit v n \<Longrightarrow> n < 4" for n
    using assms unfolding mask4 by (metis bit_and_iff bit_mask_iff)
  show "(b OR v) AND 0xf = (b AND 0xf) OR v" "drop_bit 4 (b OR v) AND 0xf = drop_bit 4 b AND 0xf"
    "(b OR push_bit 4 v) AND 0xf = b AND 0xf" "drop_bit 4 (b OR push_bit 4 v) AND 0xf = (drop_bit 4 b AND 0xf) OR v"
    unfolding mask4 by (rule bit_word_eqI, auto simp: bit_simps dest: v)+
qed

lemma offset_split:
  fixes x y :: u64
  assumes "unat (x div 2) = unat (y div 2)"
  shows "x = y \<longleftrightarrow> (x AND 1 \<noteq> 0 \<longleftrightarrow> y AND 1 \<noteq> 0)"
proof -
  have "x div 2 = y div 2" using assms by (simp only: unsigned_word_eqI)
  moreover have "x = 2 * (x div 2) + x mod 2" "y = 2 * (y div 2) + y mod 2"
    by (rule mult_div_mod_eq[symmetric])+
  moreover have "x mod 2 = (if x AND 1 \<noteq> 0 then 1 else 0)" "y mod 2 = (if y AND 1 \<noteq> 0 then 1 else 0)"
    by (simp_all add: and_one_eq mod_2_eq_odd)
  ultimately show ?thesis by (metis (full_types))
qed

text \<open>Marking a page adds bits to that page only.\<close>

lemma or_page_bits_get:
  assumes "get_page_bits pb x = ret u" "v AND 0xf = v"
  shows "\<exists>pb'. or_page_bits pb x v = ret pb' \<and> length pb' = length pb \<and> get_page_bits pb' x = ret (u OR v) \<and>
     (\<forall>y. y \<noteq> x \<longrightarrow> get_page_bits pb' y = get_page_bits pb y)"
proof -
  have l: "unat (x div 2) < length pb" using assms(1) by (auto simp: get_page_bits_def aget_def split: if_splits)
  have other: "get_page_bits (pb[unat (x div 2) := if x AND 1 \<noteq> 0 then (pb ! unat (x div 2)) OR push_bit 4 v else (pb ! unat (x div 2)) OR v]) y
      = get_page_bits pb y" if "y \<noteq> x" for y
  proof (cases "unat (y div 2) = unat (x div 2)")
    case True
    with offset_split[OF this] that l show ?thesis
      by (auto simp: get_page_bits_def nibble_or[OF assms(2)] simp del: drop_bit_or)
  next
    case False
    then show ?thesis by (simp add: get_page_bits_def aget_def)
  qed
  show ?thesis
    using assms(1) l other by (auto simp: or_page_bits_def get_page_bits_def nibble_or[OF assms(2)] simp del: drop_bit_or split: if_splits)
qed


section \<open>Free lists\<close>

definition ptr :: "u64 \<Rightarrow> u64 option" where
  "ptr a = (if a = 0 then None else Some a)"

definition lnx :: "(u64 \<Rightarrow> u64) \<Rightarrow> u64 \<Rightarrow> u64 option" where
  "lnx m a = ptr (m a)"

lemma lnx_upd [simp]: "lnx (m(p := q)) = (lnx m)(p := ptr q)"
  by (auto simp: lnx_def)

lemma chain_ptr_nz: "chain (lnx m) (ptr p) xs \<Longrightarrow> 0 \<notin> set xs"
proof (induction xs arbitrary: p)
  case (Cons x xs)
  then have "ptr p = Some x" "0 \<notin> set xs" by (auto simp: lnx_def)
  then show ?case by (auto simp: ptr_def split: if_splits)
qed simp

text \<open>The objects of a page at \<open>addr\<close>: those that start before its end.\<close>

definition obj :: "u64 \<Rightarrow> u64 \<Rightarrow> nat \<Rightarrow> u64" where
  "obj addr sz k = addr + of_nat k * sz"

definition nobjs :: "u64 \<Rightarrow> nat" where
  "nobjs sz = 4095 div unat sz + 1"

lemma unat_obj:
  assumes "unat addr + 0x2000 \<le> 2 ^ 64" "0 < unat sz" "unat sz \<le> 4096" "k \<le> nobjs sz"
  shows "unat (obj addr sz k) = unat addr + k * unat sz"
proof -
  have "4095 div unat sz * unat sz \<le> 4095" by (rule div_times_less_eq_dividend)
  then have b: "k * unat sz \<le> 4095 + unat sz"
    using mult_le_mono1[OF assms(4), of "unat sz"] unfolding nobjs_def add_mult_distrib by linarith
  have "k \<le> k * unat sz" using assms(2) by simp
  then have "k \<le> 8191" using b assms(3) by linarith
  then have k: "k < 2 ^ 64" by simp
  have "unat (of_nat k :: u64) = k" using k by (simp add: unat_of_nat)
  then have "unat (of_nat k * sz) = k * unat sz"
    using b assms(3) by (simp add: unat_word_ariths(2))
  then show ?thesis
    using b assms(1,3) by (simp add: obj_def unat_word_ariths(1))
qed

lemma nobjs_bound:
  assumes "0 < unat sz"
  shows "k < nobjs sz \<longleftrightarrow> k * unat sz < 4096"
proof -
  have "k < nobjs sz \<longleftrightarrow> k \<le> 4095 div unat sz" by (auto simp: nobjs_def)
  also have "\<dots> \<longleftrightarrow> k * unat sz \<le> 4095" using assms by (simp add: less_eq_div_iff_mult_less_eq)
  finally show ?thesis by auto
qed

lemma obj_inj:
  assumes "unat addr + 0x2000 \<le> 2 ^ 64" "0 < unat sz" "unat sz \<le> 4096" "j \<le> nobjs sz" "k \<le> nobjs sz"
  shows "obj addr sz j = obj addr sz k \<longleftrightarrow> j = k"
  using unat_obj[OF assms(1-4)] unat_obj[OF assms(1-3,5)] assms(2) by (metis add_left_cancel mult_cancel2 neq0_conv)

lemma obj_less_end:
  assumes "unat addr + 0x2000 \<le> 2 ^ 64" "0 < unat sz" "unat sz \<le> 4096" "k \<le> nobjs sz"
  shows "obj addr sz k < addr + 0x1000 \<longleftrightarrow> k < nobjs sz"
proof -
  have "unat (addr + 0x1000) = unat addr + 4096" using assms(1) by (simp add: unat_word_ariths(1))
  then show ?thesis
    using unat_obj[OF assms] by (simp add: word_less_nat_alt nobjs_bound[OF assms(2)])
qed

lemma obj_Suc: "obj addr sz k + sz = obj addr sz (Suc k)"
  by (simp add: obj_def algebra_simps)

text \<open>What the linking loop leaves behind.\<close>

lemma link_objects_chain:
  assumes g: "unat addr + 0x2000 \<le> 2 ^ 64" "0 < unat sz" "unat sz \<le> 4096" and k: "k < nobjs sz"
  shows "\<exists>m'. link_objects sz (addr + 0x1000) (obj addr sz k) (obj addr sz (Suc k)) m = ret (obj addr sz (nobjs sz - 1), m') \<and>
     (\<forall>a. a \<notin> obj addr sz ` {k..<nobjs sz - 1} \<longrightarrow> m' a = m a) \<and>
     (\<forall>j. k \<le> j \<longrightarrow> Suc j < nobjs sz \<longrightarrow> m' (obj addr sz j) = obj addr sz (Suc j))"
  using k
proof (induction "nobjs sz - k" arbitrary: k m)
  case (Suc d)
  note lim = obj_less_end[OF g, of "Suc k"]
  show ?case
  proof (cases "Suc k < nobjs sz")
    case True
    let ?m = "m(obj addr sz k := obj addr sz (Suc k))"
    have "d = nobjs sz - Suc k" using Suc.hyps(2) by simp
    from Suc.hyps(1)[OF this True, of ?m] obtain m' where m':
      "link_objects sz (addr + 0x1000) (obj addr sz (Suc k)) (obj addr sz (Suc (Suc k))) ?m = ret (obj addr sz (nobjs sz - 1), m')"
      "\<And>a. a \<notin> obj addr sz ` {Suc k..<nobjs sz - 1} \<Longrightarrow> m' a = ?m a"
      "\<And>j. Suc k \<le> j \<Longrightarrow> Suc j < nobjs sz \<Longrightarrow> m' (obj addr sz j) = obj addr sz (Suc j)" by blast
    have "obj addr sz k \<notin> obj addr sz ` {Suc k..<nobjs sz - 1}"
    proof
      assume "obj addr sz k \<in> obj addr sz ` {Suc k..<nobjs sz - 1}"
      then obtain x where x: "obj addr sz k = obj addr sz x" "Suc k \<le> x" "x < nobjs sz - 1" by auto
      then have "k \<le> nobjs sz" "x \<le> nobjs sz" by linarith+
      from obj_inj[OF g this] x show False by simp
    qed
    then have mk: "m' (obj addr sz k) = obj addr sz (Suc k)" using m'(2) by simp
    have "obj addr sz ` {Suc k..<nobjs sz - 1} \<subseteq> obj addr sz ` {k..<nobjs sz - 1}"
      "obj addr sz k \<in> obj addr sz ` {k..<nobjs sz - 1}"
      using True by (auto intro: image_mono)
    then have "a \<notin> obj addr sz ` {k..<nobjs sz - 1} \<Longrightarrow> m' a = m a" for a
      using m'(2)[of a] by (cases "a = obj addr sz k") auto
    moreover have "m' (obj addr sz j) = obj addr sz (Suc j)" if "k \<le> j" "Suc j < nobjs sz" for j
      using that mk m'(3)[of j] by (cases "j = k") auto
    moreover have "link_objects sz (addr + 0x1000) (obj addr sz k) (obj addr sz (Suc k)) m = ret (obj addr sz (nobjs sz - 1), m')"
      using True lim m'(1) by (subst link_objects.simps) (simp add: obj_Suc)
    ultimately show ?thesis by blast
  next
    case False
    then have "k = nobjs sz - 1" using Suc.prems by simp
    with False lim show ?thesis
      by (subst link_objects.simps) (use Suc.prems in auto)
  qed
qed simp

lemma page_chain:
  assumes g: "unat addr + 0x2000 \<le> 2 ^ 64" "0 < unat sz" "unat sz \<le> 4096" and nz: "addr \<noteq> 0"
    and old: "chain (lnx m) (ptr h) xs" "set xs \<inter> obj addr sz ` {..<nobjs sz} = {}"
    and link: "link_objects sz (addr + 0x1000) addr (addr + sz) m = ret (pf, m')"
  shows "chain (lnx (m'(pf := h))) (Some addr) (map (obj addr sz) [0..<nobjs sz] @ xs) \<and>
     (\<forall>a. a \<notin> obj addr sz ` {..<nobjs sz} \<longrightarrow> (m'(pf := h)) a = m a)"
proof -
  have n: "0 < nobjs sz" by (simp add: nobjs_def)
  from link_objects_chain[OF g n, of m] obtain m1 where m1:
    "link_objects sz (addr + 0x1000) (obj addr sz 0) (obj addr sz (Suc 0)) m = ret (obj addr sz (nobjs sz - 1), m1)"
    "\<forall>a. a \<notin> obj addr sz ` {0..<nobjs sz - 1} \<longrightarrow> m1 a = m a"
    "\<forall>j. 0 \<le> j \<longrightarrow> Suc j < nobjs sz \<longrightarrow> m1 (obj addr sz j) = obj addr sz (Suc j)"
    by (elim exE conjE) (rule that)
  have pf: "pf = obj addr sz (nobjs sz - 1)" "m' = m1"
    using m1(1) link by (simp_all add: obj_def)
  let ?m = "m'(pf := h)"
  have frame: "?m a = m a" if "a \<notin> obj addr sz ` {..<nobjs sz}" for a
  proof -
    have "pf \<in> obj addr sz ` {..<nobjs sz}" "obj addr sz ` {0..<nobjs sz - 1} \<subseteq> obj addr sz ` {..<nobjs sz}"
      using n by (auto simp: pf intro: image_mono)
    then have "a \<noteq> pf" "a \<notin> obj addr sz ` {0..<nobjs sz - 1}" using that by blast+
    then show ?thesis using m1(2) by (simp add: pf(2))
  qed
  have nzo: "obj addr sz j \<noteq> 0" if "j < nobjs sz" for j
  proof -
    have "unat addr \<noteq> 0" using nz by (simp add: unat_eq_0)
    then have "unat (obj addr sz j) \<noteq> 0" using unat_obj[OF g, of j] that by simp
    then show ?thesis by (simp add: unat_eq_0)
  qed
  have nxt: "lnx ?m (obj addr sz j) = Some (obj addr sz (Suc j))" if "Suc j < nobjs sz" for j
  proof -
    have "j \<le> nobjs sz" "nobjs sz - 1 \<le> nobjs sz" "j \<noteq> nobjs sz - 1" using that by linarith+
    then have "obj addr sz j \<noteq> pf" using obj_inj[OF g, of j "nobjs sz - 1"] by (simp add: pf)
    then show ?thesis
      using m1(3)[rule_format, OF le0 that] nzo[OF that] by (simp add: pf(2) lnx_def ptr_def)
  qed
  have xs: "chain (lnx ?m) (ptr h) xs"
  proof -
    have "lnx m x = lnx ?m x" if "x \<in> set xs" for x
    proof -
      have "x \<notin> obj addr sz ` {..<nobjs sz}" using old(2) that by blast
      from frame[OF this] show ?thesis unfolding lnx_def by (rule arg_cong[OF sym])
    qed
    with old(1) show ?thesis using chain_cong_next[of xs "lnx m" "lnx ?m"] by blast
  qed
  have "k < nobjs sz \<Longrightarrow> chain (lnx ?m) (Some (obj addr sz k)) (map (obj addr sz) [k..<nobjs sz] @ xs)" for k
  proof (induction "nobjs sz - k" arbitrary: k)
    case (Suc d)
    show ?case
    proof (cases "Suc k < nobjs sz")
      case True
      then show ?thesis using Suc.hyps(1)[of "Suc k"] Suc.hyps(2) Suc.prems nxt[OF True]
        by (simp add: upt_rec[of k] del: lnx_upd)
    next
      case False
      then have "k = nobjs sz - 1" "[k..<nobjs sz] = [k]" using Suc.prems by (auto simp: upt_rec[of k])
      then show ?thesis using xs pf by simp
    qed
  qed simp
  from this[OF n] frame show ?thesis by (simp add: obj_def)
qed


section \<open>The invariant\<close>

text \<open>
  For each class \<open>i\<close> the list \<open>xs\<close> of free objects and the set \<open>L\<close> of objects in use: the list is
  threaded from the head of the cache, no object is in both, and the bits of
  the page of every object name the class.
\<close>

definition class_ok :: "slub \<Rightarrow> nat \<Rightarrow> u64 list \<Rightarrow> u64 set \<Rightarrow> bool" where
  "class_ok s i xs L \<longleftrightarrow>
     chain (lnx (pnext_at s)) (ptr (freehead (kmalloc_caches s i))) xs \<and> set xs \<inter> L = {} \<and>
     c_idx (kmalloc_caches s i) = of_nat i \<and> c_size (kmalloc_caches s i) = int (class_size i) \<and>
     (\<forall>p \<in> set xs \<union> L. 0x1000 \<le> p \<and> get_page_bits (page_bits s) (drop_bit 12 p) = ret (of_nat i))"

definition slub_inv :: "slub \<Rightarrow> (nat \<Rightarrow> u64 list) \<Rightarrow> (nat \<Rightarrow> u64 set) \<Rightarrow> bool" where
  "slub_inv s fl live \<longleftrightarrow>
     kheap_ok (kheap_of s) \<and> aligned_holes (holes_4k (kheap_of s)) \<and>
     (\<forall>i \<in> {1..12}. class_ok s i (fl i) (live i))"

lemma slub_invD: "slub_inv s fl live \<Longrightarrow> i \<in> {1..12} \<Longrightarrow> class_ok s i (fl i) (live i)"
  unfolding slub_inv_def by blast

lemma class_ok_bits:
  assumes "class_ok s i xs L" "p \<in> set xs \<union> L"
  shows "0x1000 \<le> p" "get_page_bits (page_bits s) (drop_bit 12 p) = ret (of_nat i)"
  using assms unfolding class_ok_def by blast+

lemma class_ok_kheap [simp]: "class_ok (s\<lparr>kheap_of := h\<rparr>) i xs L = class_ok s i xs L"
  by (simp add: class_ok_def)

lemma slub_inv_kheap:
  assumes "slub_inv s fl live" "alloc_kheap_4k sz (kheap_of s) = ret (a, h)"
  shows "slub_inv (s\<lparr>kheap_of := h\<rparr>) fl live" "a AND 0xfff = 0"
  using assms alloc_kheap_4k_sound[OF _ assms(2)] alloc_kheap_4k_keeps_aligned[OF _ _ assms(2)]
  by (simp_all add: slub_inv_def)

text \<open>A class is not concerned by links at other objects, by other caches, and by the bits of other pages.\<close>

lemma class_ok_frame:
  assumes ok: "class_ok s j xs L" and c: "kmalloc_caches s' j = kmalloc_caches s j"
    and m: "\<And>p. p \<in> set xs \<Longrightarrow> pnext_at s' p = pnext_at s p"
    and b: "\<And>p. p \<in> set xs \<union> L \<Longrightarrow> get_page_bits (page_bits s') (drop_bit 12 p) = get_page_bits (page_bits s) (drop_bit 12 p)"
  shows "class_ok s' j xs L"
proof -
  have "chain (lnx (pnext_at s')) q xs = chain (lnx (pnext_at s)) q xs" for q
    by (rule chain_cong_next) (simp add: lnx_def m)
  with ok b show ?thesis by (simp add: class_ok_def c)
qed

lemma classes_differ: "i \<in> {1..12} \<Longrightarrow> j \<in> {1..12} \<Longrightarrow> (of_nat i :: u8) = of_nat j \<longleftrightarrow> i = j"
  unfolding classes by (elim insertE; simp)

lemma class_not_0: "i \<in> {1..12} \<Longrightarrow> (of_nat i :: u8) \<noteq> 0"
  unfolding classes by (elim insertE; simp)

lemma class_not_large: "i \<in> {1..12} \<Longrightarrow> (of_nat i :: u8) \<noteq> LARGE_IDX"
  unfolding classes LARGE_IDX_def by (elim insertE; simp)

lemma class_nibble: "i \<in> {1..12} \<Longrightarrow> (of_nat i :: u8) AND 0xf = of_nat i" "i \<in> {1..12} \<Longrightarrow> (of_nat i :: u8) < 16"
  unfolding classes by (elim insertE; simp)+

lemma unat_class: "i \<in> {1..12} \<Longrightarrow> unat (of_nat i :: u8) = i"
  unfolding classes by (elim insertE; simp)

lemma class_size_bounds: "i \<in> {1..12} \<Longrightarrow> 0 < class_size i \<and> class_size i \<le> 4096"
  unfolding classes by (elim insertE; simp add: class_size_def)

text \<open>Objects of different classes are different.\<close>

lemma classes_apart:
  assumes "class_ok s i xs L" "class_ok s j ys M" "i \<in> {1..12}" "j \<in> {1..12}" "i \<noteq> j"
  shows "(set xs \<union> L) \<inter> (set ys \<union> M) = {}"
proof (rule ccontr)
  assume "(set xs \<union> L) \<inter> (set ys \<union> M) \<noteq> {}"
  then obtain p where p: "p \<in> set xs \<union> L" "p \<in> set ys \<union> M" by blast
  have "(of_nat i :: u8) = of_nat j"
    using class_ok_bits(2)[OF assms(1) p(1)] class_ok_bits(2)[OF assms(2) p(2)] by simp
  with classes_differ[OF assms(3,4)] assms(5) show False by simp
qed

lemma slub_inv_upd:
  assumes "slub_inv s fl live" "kheap_of s' = kheap_of s" "class_ok s' i xs L"
    and "\<And>j. j \<in> {1..12} \<Longrightarrow> j \<noteq> i \<Longrightarrow> class_ok s' j (fl j) (live j)"
  shows "slub_inv s' (fl(i := xs)) (live(i := L))"
  using assms by (simp add: slub_inv_def)

section \<open>Releasing and taking single objects\<close>

lemma kmfree_inv:
  assumes inv: "slub_inv s fl live" and i: "i \<in> {1..12}" and p: "p \<in> live i"
  shows "\<exists>s'. kmfree tbl p s = ret s' \<and> slub_inv s' (fl(i := p # fl i)) (live(i := live i - {p}))"
proof -
  note ok = slub_invD[OF inv i]
  have bits: "get_page_bits (page_bits s) (drop_bit 12 p) = ret (of_nat i)" and ge: "0x1000 \<le> p"
    and nin: "p \<notin> set (fl i)" using ok p by (auto simp: class_ok_def)
  have "p \<noteq> ZERO_SIZE_PTR" "p \<noteq> 0" using ge by (auto simp: ZERO_SIZE_PTR_def)
  let ?s = "s\<lparr>pnext_at := (pnext_at s)(p := freehead (kmalloc_caches s i)),
                 kmalloc_caches := (kmalloc_caches s)(i := (kmalloc_caches s i)\<lparr>freehead := p\<rparr>)\<rparr>"
  have "kmfree tbl p s = ret ?s"
    using bits ok i \<open>p \<noteq> ZERO_SIZE_PTR\<close> class_not_large[OF i]
    by (simp add: kmfree_def get_cache_from_addr_def unat_class[OF i] class_ok_def)
  moreover have "class_ok ?s i (p # fl i) (live i - {p})"
    using ok nin p \<open>p \<noteq> 0\<close> by (auto simp: class_ok_def ptr_def)
  moreover have "class_ok ?s j (fl j) (live j)" if j: "j \<in> {1..12}" "j \<noteq> i" for j
    by (rule class_ok_frame[OF slub_invD[OF inv j(1)]])
      (use classes_apart[OF ok slub_invD[OF inv j(1)] i j(1)] j p in auto)
  ultimately show ?thesis using slub_inv_upd[OF inv, of ?s i] by auto
qed

text \<open>Taking the first object of a class.\<close>

definition take_object :: "nat \<Rightarrow> slub \<Rightarrow> slub" where
  "take_object i s =
     s\<lparr>kmalloc_caches := (kmalloc_caches s)(i := (kmalloc_caches s i)
        \<lparr>freehead := pnext_at s (freehead (kmalloc_caches s i))\<rparr>)\<rparr>"

lemma take_object_inv:
  assumes inv: "slub_inv s fl live" and i: "i \<in> {1..12}" and xs: "fl i = p # xs"
  shows "freehead (kmalloc_caches s i) = p \<and> p \<noteq> 0 \<and> p \<notin> live i \<and>
     slub_inv (take_object i s) (fl(i := xs)) (live(i := insert p (live i)))"
proof -
  note ok = slub_invD[OF inv i]
  have ch: "chain (lnx (pnext_at s)) (ptr (freehead (kmalloc_caches s i))) (p # xs)" using ok xs by (simp add: class_ok_def)
  then have p: "freehead (kmalloc_caches s i) = p" "p \<noteq> 0" by (auto simp: ptr_def split: if_splits)
  have d: "p \<notin> set xs" using chain_distinct[OF ch] by simp
  have "class_ok (take_object i s) i xs (insert p (live i))"
    using ok xs p d ch by (auto simp: class_ok_def take_object_def lnx_def)
  moreover have "class_ok (take_object i s) j (fl j) (live j)" if "j \<in> {1..12}" "j \<noteq> i" for j
    by (rule class_ok_frame[OF slub_invD[OF inv that(1)]]) (use that in \<open>auto simp: take_object_def\<close>)
  moreover have "p \<notin> live i" using ok xs by (auto simp: class_ok_def)
  ultimately show ?thesis using p slub_inv_upd[OF inv, of "take_object i s" i] by (simp add: take_object_def)
qed


section \<open>Adding a page\<close>

lemma obj_page:
  assumes g: "unat a + 0x2000 \<le> 2 ^ 64" "0 < unat sz" "unat sz \<le> 4096" and k: "k < nobjs sz"
    and al: "a AND 0xfff = 0"
  shows "drop_bit 12 (obj a sz k) = drop_bit 12 a" "a \<le> obj a sz k"
proof -
  have u: "unat (obj a sz k) = unat a + k * unat sz" using unat_obj[OF g] k by simp
  have r: "k * unat sz < 4096" using k by (simp add: nobjs_bound[OF g(2)])
  have "4096 dvd unat a" using al unfolding aligned_4k_iff by simp
  then have "(unat a + k * unat sz) div 4096 = unat a div 4096"
    using r by (simp add: div_plus_div_distrib_dvd_left)
  then have "unat (drop_bit 12 (obj a sz k)) = unat (drop_bit 12 a)"
    by (simp add: drop_bit_eq_div unat_div u)
  then show "drop_bit 12 (obj a sz k) = drop_bit 12 a" by (rule unsigned_word_eqI)
  show "a \<le> obj a sz k" using u by (simp add: word_le_nat_alt)
qed

lemma aligned_ge: "a \<noteq> 0 \<Longrightarrow> a AND 0xfff = 0 \<Longrightarrow> (0x1000 :: u64) \<le> a"
proof -
  assume "a \<noteq> 0" "a AND 0xfff = 0"
  then have "4096 dvd unat a" "unat a \<noteq> 0" using aligned_4k_iff[of a] by (auto simp: unat_eq_0)
  then have "4096 \<le> unat a" by (metis dvd_imp_le neq0_conv)
  then show ?thesis by (simp add: word_le_nat_alt)
qed

text \<open>A page that the allocator has not used yet, below the end of the address space.\<close>

definition clean_page :: "slub \<Rightarrow> u64 \<Rightarrow> bool" where
  "clean_page s a \<longleftrightarrow> unat a + 0x2000 \<le> 2 ^ 64 \<and> get_page_bits (page_bits s) (drop_bit 12 a) = ret 0"

lemma clean_page_apart:
  assumes "class_ok s j xs L" "j \<in> {1..12}" "clean_page s a" "p \<in> set xs \<union> L"
  shows "drop_bit 12 p \<noteq> drop_bit 12 a"
  using class_ok_bits(2)[OF assms(1,4)] class_not_0[OF assms(2)] assms(3) by (auto simp: clean_page_def)

lemma slub_add_page_full:
  assumes "slub_inv s fl live" "alloc_kheap_4k 0x1000 (kheap_of s) = ret (0, h)"
  shows "slub_add_page boot_table i s = ret (False, s\<lparr>kheap_of := h\<rparr>)"
  using assms(2) by (simp add: slub_add_page_def yaos_heap_alloc_4k_boot)

lemma slub_add_page_inv:
  assumes inv: "slub_inv s fl live" and i: "i \<in> {1..12}"
    and heap: "alloc_kheap_4k 0x1000 (kheap_of s) = ret (a, h)" and a: "a \<noteq> 0" "clean_page s a"
  shows "\<exists>s'. slub_add_page boot_table i s = ret (True, s') \<and> kheap_of s' = h \<and>
     slub_inv s' (fl(i := map (obj a (of_nat (class_size i))) [0..<nobjs (of_nat (class_size i))] @ fl i)) live"
proof -
  let ?sz = "of_nat (class_size i) :: u64" and ?s = "s\<lparr>kheap_of := h\<rparr>"
  let ?O = "obj a ?sz ` {..<nobjs ?sz}"
  note inv1 = slub_inv_kheap(1)[OF inv heap] and al = slub_inv_kheap(2)[OF inv heap]
  note ok = slub_invD[OF inv i] and cb = class_size_bounds[OF i]
  have usz: "unat ?sz = class_size i" using cb by (simp add: unat_of_nat)
  have g: "unat a + 0x2000 \<le> 2 ^ 64" "0 < unat ?sz" "unat ?sz \<le> 4096" using a(2) cb by (simp_all add: clean_page_def usz)
  have pg: "drop_bit 12 p = drop_bit 12 a \<and> 0x1000 \<le> p" if "p \<in> ?O" for p
    using that obj_page[OF g _ al] order_trans[OF aligned_ge[OF a(1) al]] by blast
  have apart: "(set (fl j) \<union> live j) \<inter> ?O = {}" if "j \<in> {1..12}" for j
    using clean_page_apart[OF slub_invD[OF inv that] that a(2)] pg by blast
  obtain pf m' where link: "link_objects ?sz (a + 0x1000) a (a + ?sz) (pnext_at s) = ret (pf, m')"
    using link_objects_chain[OF g, of 0 "pnext_at s"] by (auto simp: obj_def nobjs_def)
  have "set (fl i) \<inter> ?O = {}" using apart[OF i] by blast
  from page_chain[OF g a(1) _ this link, of "freehead (kmalloc_caches s i)"] ok
  have ch: "chain (lnx (m'(pf := freehead (kmalloc_caches s i)))) (Some a) (map (obj a ?sz) [0..<nobjs ?sz] @ fl i)"
    and fr: "\<And>p. p \<notin> ?O \<Longrightarrow> (m'(pf := freehead (kmalloc_caches s i))) p = pnext_at s p"
    by (simp_all add: class_ok_def)
  obtain pb where pb: "or_page_bits (page_bits s) (drop_bit 12 a) (of_nat i) = ret pb"
    "get_page_bits pb (drop_bit 12 a) = ret (of_nat i)"
    "\<And>y. y \<noteq> drop_bit 12 a \<Longrightarrow> get_page_bits pb y = get_page_bits (page_bits s) y"
    using or_page_bits_get[of "page_bits s" "drop_bit 12 a" 0 "of_nat i"] a(2) class_nibble(1)[OF i]
    by (auto simp: clean_page_def)
  let ?s' = "?s\<lparr>pnext_at := m'(pf := freehead (kmalloc_caches s i)),
      kmalloc_caches := (kmalloc_caches s)(i := (kmalloc_caches s i)\<lparr>freehead := a\<rparr>), page_bits := pb\<rparr>"
  have run: "slub_add_page boot_table i s = ret (True, ?s')"
    using heap a ok link pb(1) class_nibble(2)[OF i]
    by (simp add: slub_add_page_def yaos_heap_alloc_4k_boot class_ok_def Let_def)
  have bits: "get_page_bits pb (drop_bit 12 p) = get_page_bits (page_bits s) (drop_bit 12 p)"
    if "p \<in> set (fl j) \<union> live j" "j \<in> {1..12}" for p j
    using pb(3) clean_page_apart[OF slub_invD[OF inv that(2)] that(2) a(2) that(1)] by blast
  have "class_ok ?s' i (map (obj a ?sz) [0..<nobjs ?sz] @ fl i) (live i)"
  proof -
    have set: "set (map (obj a ?sz) [0..<nobjs ?sz] @ fl i) \<union> live i = ?O \<union> (set (fl i) \<union> live i)" by auto
    have "0x1000 \<le> p \<and> get_page_bits pb (drop_bit 12 p) = ret (of_nat i)" if "p \<in> ?O \<union> (set (fl i) \<union> live i)" for p
      using that pg[of p] pb(2) bits[OF _ i, of p] class_ok_bits[OF ok, of p] by (elim UnE) simp_all
    then show ?thesis
      unfolding class_ok_def set using ch ok apart[OF i] a(1) by (auto simp: class_ok_def ptr_def)
  qed
  moreover have "class_ok ?s' j (fl j) (live j)" if j: "j \<in> {1..12}" "j \<noteq> i" for j
  proof (rule class_ok_frame[OF slub_invD[OF inv j(1)]])
    show "pnext_at ?s' p = pnext_at s p" if "p \<in> set (fl j)" for p
    proof -
      have "p \<notin> ?O" using apart[OF j(1)] that by blast
      from fr[OF this] show ?thesis by simp
    qed
  qed (use j bits[OF _ j(1)] in auto)
  ultimately have "slub_inv ?s' (fl(i := map (obj a ?sz) [0..<nobjs ?sz] @ fl i)) (live(i := live i))"
    by (intro slub_inv_upd[OF inv1]) simp_all
  with run show ?thesis by auto
qed


section \<open>What callers of malloc and mfree rely on\<close>

lemma not_large: "unat sz \<le> 4096 \<Longrightarrow> \<not> sz > KMALLOC_MAX_CACHE_SIZE"
  by (simp add: KMALLOC_MAX_CACHE_SIZE_def KMALLOC_SHIFT_HIGH_def word_less_nat_alt)

lemma slub_malloc_take:
  assumes inv: "slub_inv s fl live" and sz: "0 < unat sz" "unat sz \<le> 4096"
    and xs: "fl (class_of (unat sz)) = p # xs"
  shows "slub_malloc tbl sz a2 s = ret (\<lparr>ret_v = p, ret_e = YAOSCALL_OK\<rparr>, take_object (class_of (unat sz)) s)"
  using take_object_inv[OF inv class_of_range xs] not_large[OF sz(2)] kmalloc_slab_class[OF sz]
  by (simp add: slub_malloc_def kmalloc_def take_object_def Let_def)

lemma slub_malloc_page:
  assumes inv: "slub_inv s fl live" and sz: "0 < unat sz" "unat sz \<le> 4096"
    and xs: "fl (class_of (unat sz)) = []" and page: "slub_add_page boot_table (class_of (unat sz)) s = ret (True, s1)"
  shows "slub_malloc boot_table sz a2 s = slub_malloc boot_table sz a2 s1 \<or> freehead (kmalloc_caches s1 (class_of (unat sz))) = 0"
proof -
  have "freehead (kmalloc_caches s (class_of (unat sz))) = 0"
    using slub_invD[OF inv class_of_range[of "unat sz"]] xs by (auto simp: class_ok_def ptr_def split: if_splits)
  then show ?thesis
    using not_large[OF sz(2)] kmalloc_slab_class[OF sz] page by (simp add: slub_malloc_def kmalloc_def)
qed

lemma live_apart:
  assumes "slub_inv s fl live" "p \<in> live c" "c \<in> {1..12}" "i \<in> {1..12}" "i \<noteq> c"
  shows "p \<notin> live i"
  using classes_apart[OF slub_invD[OF assms(1,3)] slub_invD[OF assms(1,4)] assms(3,4)] assms(2,5) by blast

lemma slub_malloc_ok:
  assumes inv: "slub_inv s fl live" and sz: "0 < unat sz" "unat sz \<le> 4096"
    and heap: "fl (class_of (unat sz)) = [] \<longrightarrow>
      alloc_kheap_4k 0x1000 (kheap_of s) = ret (a, h) \<and> a \<noteq> 0 \<and> clean_page s a"
  shows "\<exists>p s' fl'. slub_malloc boot_table sz a2 s = ret (\<lparr>ret_v = p, ret_e = YAOSCALL_OK\<rparr>, s') \<and>
     p \<noteq> 0 \<and> (\<forall>i \<in> {1..12}. p \<notin> live i) \<and>
     slub_inv s' fl' (live(class_of (unat sz) := insert p (live (class_of (unat sz)))))"
proof -
  let ?c = "class_of (unat sz)"
  note c = class_of_range[of "unat sz"]
  have main: ?thesis if inv1: "slub_inv s1 fl1 live" and xs: "fl1 ?c = p # xs"
      and run: "slub_malloc boot_table sz a2 s = slub_malloc boot_table sz a2 s1" for s1 fl1 p xs
  proof -
    note t = take_object_inv[OF inv1 c xs]
    then have inv2: "slub_inv (take_object ?c s1) (fl1(?c := xs)) (live(?c := insert p (live ?c)))" by blast
    have "p \<notin> live i" if "i \<in> {1..12}" for i
      using live_apart[OF inv2 _ c that, of p] t by (cases "i = ?c") auto
    moreover have "slub_malloc boot_table sz a2 s = ret (\<lparr>ret_v = p, ret_e = YAOSCALL_OK\<rparr>, take_object ?c s1)"
      unfolding run by (rule slub_malloc_take[OF inv1 sz xs])
    ultimately show ?thesis using t by (intro exI conjI ballI) blast+
  qed
  show ?thesis
  proof (cases "fl ?c")
    case Nil
    let ?z = "of_nat (class_size ?c) :: u64"
    obtain s1 where s1: "slub_add_page boot_table ?c s = ret (True, s1)"
      "slub_inv s1 (fl(?c := map (obj a ?z) [0..<nobjs ?z] @ fl ?c)) live"
      using slub_add_page_inv[OF inv c] heap Nil by blast
    have up: "[0..<nobjs ?z] = 0 # [1..<nobjs ?z]" by (simp add: nobjs_def upt_conv_Cons)
    have xs: "(fl(?c := map (obj a ?z) [0..<nobjs ?z] @ fl ?c)) ?c = obj a ?z 0 # map (obj a ?z) [1..<nobjs ?z]"
      using Nil by (simp add: up)
    have "freehead (kmalloc_caches s1 ?c) \<noteq> 0" using take_object_inv[OF s1(2) c xs] by auto
    with slub_malloc_page[OF inv sz Nil s1(1)] have "slub_malloc boot_table sz a2 s = slub_malloc boot_table sz a2 s1" by blast
    from main[OF s1(2) xs this] show ?thesis .
  next
    case (Cons p xs)
    from main[OF inv this refl] show ?thesis .
  qed
qed

lemma slub_mfree_malloc:
  assumes inv: "slub_inv s fl live" and sz: "0 < unat sz" "unat sz \<le> 4096" and p: "p \<in> live (class_of (unat sz))"
  shows "\<exists>s1 s2. slub_mfree tbl p x s = ret (\<lparr>ret_v = 0, ret_e = YAOSCALL_OK\<rparr>, s1) \<and>
     slub_malloc tbl sz y s1 = ret (\<lparr>ret_v = p, ret_e = YAOSCALL_OK\<rparr>, s2) \<and> slub_inv s2 fl live"
proof -
  let ?c = "class_of (unat sz)"
  note c = class_of_range[of "unat sz"]
  obtain s1 where s1: "kmfree tbl p s = ret s1" "slub_inv s1 (fl(?c := p # fl ?c)) (live(?c := live ?c - {p}))"
    using kmfree_inv[OF inv c p] by blast
  have xs: "(fl(?c := p # fl ?c)) ?c = p # fl ?c" by simp
  have "fl(?c := p # fl ?c, ?c := fl ?c) = fl" "live(?c := live ?c - {p}, ?c := insert p ((live(?c := live ?c - {p})) ?c)) = live"
    using p by (auto simp: fun_eq_iff)
  then have "slub_inv (take_object ?c s1) fl live"
    using take_object_inv[OF s1(2) c xs] by (simp only:)
  with slub_malloc_take[OF s1(2) sz xs] s1(1) show ?thesis by (auto simp: slub_mfree_def)
qed


section \<open>Large blocks\<close>

lemma LARGE_nibbles: "LARGE_IDX AND 0xf = LARGE_IDX" "LARGE_NEXT AND 0xf = LARGE_NEXT"
  by (simp_all add: LARGE_IDX_def LARGE_NEXT_def)

lemma of_nat_u64_neq: "j < 2 ^ 64 \<Longrightarrow> k < 2 ^ 64 \<Longrightarrow> j \<noteq> k \<Longrightarrow> (x :: u64) + of_nat j \<noteq> x + of_nat k"
proof
  assume b: "j < 2 ^ 64" "k < 2 ^ 64" "j \<noteq> k" and "x + of_nat j = x + of_nat k"
  then have "unat (of_nat j :: u64) = unat (of_nat k :: u64)" by simp
  with b show False by (simp add: unat_of_nat)
qed

text \<open>The pages from \<open>off\<close> on, \<open>n\<close> of them.\<close>

definition pages_at :: "u64 \<Rightarrow> nat \<Rightarrow> u64 set" where
  "pages_at off n = (\<lambda>k. off + of_nat k) ` {..<n}"

lemma pages_at_Suc: "pages_at off (Suc n) = insert off (pages_at (off + 1) n)"
  unfolding pages_at_def lessThan_Suc_eq_insert_0 by (simp add: image_image add.assoc)

lemma pages_at_notin: "n \<le> 2 ^ 63 \<Longrightarrow> off \<notin> pages_at (off + 1) n"
proof
  assume n: "n \<le> 2 ^ 63" and "off \<in> pages_at (off + 1) n"
  then obtain k where k: "k < n" "off = off + 1 + of_nat k" by (auto simp: pages_at_def)
  then have "off + of_nat 0 = off + of_nat (Suc k)" by (simp add: add.assoc)
  with of_nat_u64_neq[of 0 "Suc k" off] n k(1) show False by simp
qed

lemma mark_large_ret:
  assumes "unat stop = unat off + n" "n \<le> 2 ^ 63" "\<forall>y \<in> pages_at off n. get_page_bits pb y = ret 0"
  shows "\<exists>pb'. mark_large stop off pb = ret pb' \<and>
     (\<forall>y. get_page_bits pb' y = (if y \<in> pages_at off n then ret LARGE_NEXT else get_page_bits pb y))"
  using assms
proof (induction n arbitrary: off pb)
  case 0
  then show ?case by (subst mark_large.simps) (simp add: pages_at_def word_less_nat_alt)
next
  case (Suc n)
  have lt: "off < stop" using Suc.prems(1) by (simp add: word_less_nat_alt)
  have "unat off + 1 < 2 ^ 64" using Suc.prems(1) u64_bound[of stop] by simp
  then have up: "unat (off + 1) = unat off + 1" by (simp add: unat_word_ariths(1))
  note notin = pages_at_notin[of n off]
  have z: "get_page_bits pb off = ret 0" using Suc.prems(3) by (simp add: pages_at_Suc)
  obtain pb1 where pb1: "or_page_bits pb off LARGE_NEXT = ret pb1" "get_page_bits pb1 off = ret LARGE_NEXT"
    "\<And>y. y \<noteq> off \<Longrightarrow> get_page_bits pb1 y = get_page_bits pb y"
    using or_page_bits_get[OF z LARGE_nibbles(2)] by auto
  have "\<forall>y \<in> pages_at (off + 1) n. get_page_bits pb1 y = ret 0"
  proof
    fix y assume y: "y \<in> pages_at (off + 1) n"
    then have "y \<noteq> off" using notin Suc.prems(2) by auto
    from pb1(3)[OF this] y show "get_page_bits pb1 y = ret 0" using Suc.prems(3) by (simp add: pages_at_Suc)
  qed
  with Suc.IH[of "off + 1" pb1] Suc.prems(1,2) up obtain pb' where
    "mark_large stop (off + 1) pb1 = ret pb'"
    "\<forall>y. get_page_bits pb' y = (if y \<in> pages_at (off + 1) n then ret LARGE_NEXT else get_page_bits pb1 y)"
    by auto
  with lt pb1 notin Suc.prems(2) show ?case
    by (subst mark_large.simps) (auto simp: pages_at_Suc)
qed

lemma large_size_ret:
  assumes "n \<le> 2 ^ 63" "\<forall>y \<in> pages_at (off + 1) n. get_page_bits pb y = ret LARGE_NEXT"
    and "get_page_bits pb (off + 1 + of_nat n) = ret v" "v \<noteq> LARGE_NEXT"
  shows "large_size pb off sz = ret (sz + of_nat (Suc n) * 0x1000)"
  using assms
proof (induction n arbitrary: off sz)
  case 0
  then show ?case by (subst large_size.simps) simp
next
  case (Suc n)
  have "large_size pb (off + 1) (sz + 0x1000) = ret (sz + 0x1000 + of_nat (Suc n) * 0x1000)"
    using Suc.prems by (intro Suc.IH) (auto simp: pages_at_Suc add.assoc)
  then show ?case
    using Suc.prems(2) by (subst large_size.simps) (simp add: pages_at_Suc algebra_simps)
qed

text \<open>The number of pages of a request, and its size rounded up.\<close>

definition npages :: "u64 \<Rightarrow> nat" where
  "npages sz = (unat sz + 4095) div 4096"

lemma newsize_pages:
  assumes "unat sz + 4095 < 2 ^ 64"
  shows "(sz + 0xfff) AND NOT 0xfff = of_nat (npages sz) * 0x1000" "unat (of_nat (npages sz) * 0x1000 :: u64) = npages sz * 4096"
    "(of_nat (npages sz) * 0x1000 :: u64) AND 0xfff = 0"
proof -
  have u: "unat (sz + 0xfff) = unat sz + 4095" using assms by (simp add: unat_word_ariths(1))
  have "unat ((sz + 0xfff) AND NOT 0xfff) = npages sz * 4096"
    unfolding mask12 unat_and_not_mask using u by (simp add: npages_def minus_mod_eq_div_mult mask_eq_exp_minus_1)
  moreover have n: "npages sz * 4096 < 2 ^ 64"
    using assms unfolding npages_def by (metis div_times_less_eq_dividend le_less_trans)
  then have nn: "npages sz < 2 ^ 64" by simp
  have "unat (of_nat (npages sz) :: u64) = npages sz" using nn by (simp add: unat_of_nat)
  then show w: "unat (of_nat (npages sz) * 0x1000 :: u64) = npages sz * 4096"
    using n by (simp add: unat_word_ariths(2))
  ultimately show "(sz + 0xfff) AND NOT 0xfff = of_nat (npages sz) * 0x1000" by (metis unsigned_word_eqI)
  show "(of_nat (npages sz) * 0x1000 :: u64) AND 0xfff = 0" unfolding aligned_4k_iff w by simp
qed


lemma npages_large:
  fixes a :: u64
  assumes "4096 < unat sz" "unat a + npages sz * 4096 < 2 ^ 64" "a AND 0xfff = 0"
  shows "npages sz = Suc (npages sz - 1)" "npages sz \<le> 2 ^ 52"
    "unat (drop_bit 12 (a + of_nat (npages sz) * 0x1000)) = unat (drop_bit 12 a + 1) + (npages sz - 1)"
proof -
  have n1: "1 \<le> npages sz" using assms(1) by (simp add: npages_def)
  then show "npages sz = Suc (npages sz - 1)" by simp
  show n2: "npages sz \<le> 2 ^ 52" using assms(2) by simp
  have "unat (of_nat (npages sz) :: u64) = npages sz" using n2 by (simp add: unat_of_nat)
  then have "unat (of_nat (npages sz) * 0x1000 :: u64) = npages sz * 4096"
    using assms(2) by (simp add: unat_word_ariths(2))
  then have e: "unat (a + of_nat (npages sz) * 0x1000) = unat a + npages sz * 4096"
    using assms(2) by (simp add: unat_word_ariths(1))
  have o: "unat (drop_bit 12 x :: u64) = unat x div 4096" for x by (simp add: drop_bit_eq_div unat_div)
  have "unat (drop_bit 12 a + 1) = unat a div 4096 + 1"
    using u64_bound[of a] by (simp add: unat_word_ariths(1) o)
  then show "unat (drop_bit 12 (a + of_nat (npages sz) * 0x1000)) = unat (drop_bit 12 a + 1) + (npages sz - 1)"
    using n1 by (simp add: o e)
qed

lemma slub_malloc_large:
  assumes inv: "slub_inv s fl live" and sz: "4096 < unat sz" "unat sz + 4095 < 2 ^ 64"
    and heap: "alloc_kheap_4k (of_nat (npages sz) * 0x1000) (kheap_of s) = ret (a, h)" "a \<noteq> 0"
    and room: "unat a + npages sz * 4096 < 2 ^ 64"
    and clean: "\<forall>y \<in> pages_at (drop_bit 12 a) (npages sz). get_page_bits (page_bits s) y = ret 0"
  shows "\<exists>pb. slub_malloc boot_table sz x s =
       ret (\<lparr>ret_v = a, ret_e = YAOSCALL_OK\<rparr>, s\<lparr>kheap_of := h, page_bits := pb\<rparr>) \<and>
     (\<forall>y. get_page_bits pb y = (if y = drop_bit 12 a then ret LARGE_IDX
        else if y \<in> pages_at (drop_bit 12 a + 1) (npages sz - 1) then ret LARGE_NEXT else get_page_bits (page_bits s) y))"
proof -
  let ?o = "drop_bit 12 a" and ?n = "npages sz - 1"
  note al = slub_inv_kheap(2)[OF inv heap(1)] and ns = newsize_pages[OF sz(2)]
  note np = npages_large[OF sz(1) room al]
  have pgs: "pages_at ?o (npages sz) = insert ?o (pages_at (?o + 1) ?n)" by (subst np(1)) (rule pages_at_Suc)
  have notin: "?o \<notin> pages_at (?o + 1) ?n" using np(2) by (intro pages_at_notin) simp
  have z: "get_page_bits (page_bits s) ?o = ret 0" using clean by (simp add: pgs)
  obtain pb1 where pb1: "or_page_bits (page_bits s) ?o LARGE_IDX = ret pb1" "get_page_bits pb1 ?o = ret LARGE_IDX"
    "\<And>y. y \<noteq> ?o \<Longrightarrow> get_page_bits pb1 y = get_page_bits (page_bits s) y"
    using or_page_bits_get[OF z LARGE_nibbles(1)] by auto
  have "get_page_bits pb1 y = ret 0" if "y \<in> pages_at (?o + 1) ?n" for y
    using pb1(3)[of y] that notin clean by (cases "y = ?o") (auto simp: pgs)
  then have "\<forall>y \<in> pages_at (?o + 1) ?n. get_page_bits pb1 y = ret 0" by blast
  moreover have "?n \<le> 2 ^ 63" using np(2) by simp
  ultimately obtain pb where
    pb: "mark_large (drop_bit 12 (a + of_nat (npages sz) * 0x1000)) (?o + 1) pb1 = ret pb"
    "\<And>y. get_page_bits pb y = (if y \<in> pages_at (?o + 1) ?n then ret LARGE_NEXT else get_page_bits pb1 y)"
    using mark_large_ret[OF np(3), of pb1] by auto
  have big: "sz > KMALLOC_MAX_CACHE_SIZE" using sz(1) by (simp add: KMALLOC_MAX_CACHE_SIZE_def KMALLOC_SHIFT_HIGH_def word_less_nat_alt)
  have "slub_malloc boot_table sz x s =
       ret (\<lparr>ret_v = a, ret_e = YAOSCALL_OK\<rparr>, s\<lparr>kheap_of := h, page_bits := pb\<rparr>)"
    unfolding slub_malloc_def kmalloc_large_def ns(1)
    using big heap pb(1) pb1(1) by (simp add: ns(3) yaos_heap_alloc_4k_boot Let_def)
  moreover have "get_page_bits pb y = (if y = ?o then ret LARGE_IDX
        else if y \<in> pages_at (?o + 1) ?n then ret LARGE_NEXT else get_page_bits (page_bits s) y)" for y
    using pb(2)[of y] pb1(2) pb1(3)[of y] notin by auto
  ultimately show ?thesis by blast
qed

lemma slub_mfree_large:
  assumes "0x1000 \<le> a" "a AND 0xfff = 0" "c_idx (kmalloc_caches s 15) = LARGE_IDX"
    and "get_page_bits (page_bits s) (drop_bit 12 a) = ret LARGE_IDX"
    and "n \<le> 2 ^ 52" "\<forall>y \<in> pages_at (drop_bit 12 a + 1) n. get_page_bits (page_bits s) y = ret LARGE_NEXT"
    and "get_page_bits (page_bits s) (drop_bit 12 a + 1 + of_nat n) = ret v" "v \<noteq> LARGE_NEXT"
    and "(of_nat (Suc n) * 0x1000 :: u64) AND 0xfff = 0"
  shows "slub_mfree boot_table a x s =
     kbind (free_kheap_4k a (of_nat (Suc n) * 0x1000) (kheap_of s)) (\<lambda>h.
       ret (\<lparr>ret_v = 0, ret_e = YAOSCALL_OK\<rparr>, s\<lparr>kheap_of := h\<rparr>))"
proof -
  have "a \<noteq> ZERO_SIZE_PTR" using assms(1) by (auto simp: ZERO_SIZE_PTR_def)
  moreover have "large_size (page_bits s) (drop_bit 12 a) 0 = ret (of_nat (Suc n) * 0x1000)"
    using large_size_ret[of n "drop_bit 12 a" "page_bits s" v 0] assms(5-8) by simp
  moreover have "unat LARGE_IDX = 15" by (simp add: LARGE_IDX_def)
  ultimately show ?thesis
    using assms(2,3,4,9) by (simp add: slub_mfree_def kmfree_def get_cache_from_addr_def yaos_heap_free_4k_boot kbind_assoc)
qed


section \<open>Properties\<close>


text \<open>The state after the module was loaded over a heap \<open>h\<close>, with bits for the pages of 4 MB.\<close>

definition demo_slub :: "kheap \<Rightarrow> slub" where
  "demo_slub h = \<lparr>kheap_of = h, kmalloc_caches = fresh_cache, page_bits = replicate 0x200 0, pnext_at = (\<lambda>_. 0), slub_ok = True\<rparr>"

lemma demo_slub_fields [simp]:
  "kheap_of (demo_slub h) = h" "kmalloc_caches (demo_slub h) = fresh_cache" "page_bits (demo_slub h) = replicate 0x200 0"
  by (simp_all add: demo_slub_def)

lemma demo_slub_inv:
  assumes "kheap_ok h" "aligned_holes (holes_4k h)"
  shows "slub_inv (demo_slub h) (\<lambda>_. []) (\<lambda>_. {})"
  using assms fresh_cache_size by (simp add: slub_inv_def class_ok_def ptr_def)

lemma demo_slub_bits: "unat y < 0x400 \<Longrightarrow> get_page_bits (page_bits (demo_slub h)) y = ret 0"
proof -
  assume "unat y < 0x400"
  then have "unat (y div 2) < 0x200" by (simp add: unat_div)
  then show ?thesis by (simp add: get_page_bits_def)
qed

lemma demo_kheap:
  obtains s where "kheap_ok s" "holes_4k s = [(0x100000, 0x3000)]" "aligned_holes (holes_4k s)"
proof -
  obtain s where "kheap_ok s" "holes_4k s = [(0x100000, 0x3000)]" using demo_heap_freed by blast
  then show ?thesis using that by (simp add: aligned_holes_def)
qed

lemma demo_kheap_alloc:
  assumes "kheap_ok s" "holes_4k s = [(0x100000, 0x3000)]"
  obtains s1 s2 where "alloc_kheap_4k 0x1000 s = ret (0x100000, s1)" "alloc_kheap_4k 0x2000 s = ret (0x100000, s2)"
  using alloc_kheap_4k_fit[OF assms(1), of "0x1000" "0x100000" "[(0x101000, 0x2000)]"]
    alloc_kheap_4k_fit[OF assms(1), of "0x2000" "0x100000" "[(0x102000, 0x1000)]"] assms(2) that
  by (auto simp: align_4k_def)


text \<open>
  C26: An object in use that is released is the next object handed out of its class, and the state is as before.
\<close>

theorem slub_mfree_then_malloc:
  assumes "slub_inv s fl live" and "0 < unat sz" "unat sz \<le> 4096" and "p \<in> live (class_of (unat sz))"
  shows "\<exists>s1 s2. slub_mfree tbl p x s = ret (\<lparr>ret_v = 0, ret_e = YAOSCALL_OK\<rparr>, s1) \<and>
     slub_malloc tbl sz y s1 = ret (\<lparr>ret_v = p, ret_e = YAOSCALL_OK\<rparr>, s2) \<and> slub_inv s2 fl live"
  using assms by (rule slub_mfree_malloc)

theorem slub_mfree_then_malloc_witness:
  "\<exists>s p s1 s2. slub_mfree boot_table p 0 s = ret (\<lparr>ret_v = 0, ret_e = YAOSCALL_OK\<rparr>, s1) \<and>
     slub_malloc boot_table 128 0 s1 = ret (\<lparr>ret_v = p, ret_e = YAOSCALL_OK\<rparr>, s2)"
proof -
  obtain h where h: "kheap_ok h" "holes_4k h = [(0x100000, 0x3000)]" "aligned_holes (holes_4k h)" by (rule demo_kheap)
  obtain h1 where h1: "alloc_kheap_4k 0x1000 h = ret (0x100000, h1)" using demo_kheap_alloc[OF h(1,2)] by blast
  have cl: "clean_page (demo_slub h) 0x100000"
    using demo_slub_bits[of "drop_bit 12 0x100000" h] by (simp add: clean_page_def)
  have c: "class_of 100 = 7" "class_of 128 = 7" by (simp_all add: class_of_def)
  obtain p s fl where "slub_inv s fl ((\<lambda>_. {})(7 := {p}))"
    using slub_malloc_ok[OF demo_slub_inv[OF h(1,3)], of 100 "0x100000" h1 0] h1 cl c by auto
  from slub_mfree_then_malloc[OF this, of 128 p boot_table 0 0] c show ?thesis by auto
qed




text \<open>
  The objects of a new page are what the free list of its class then begins with; they do not overlap. They lie inside
  the page for the ten classes that are powers of two. In the classes of 96 and 192 bytes the last object
  starts 64 bytes before the end of the page and so reaches into the next one.
\<close>

theorem slub_page_objects:
  assumes "slub_inv s fl live" "i \<in> {1..12}" "alloc_kheap_4k 0x1000 (kheap_of s) = ret (a, h)" "a \<noteq> 0" "clean_page s a"
  shows "\<exists>s' fl' n. slub_add_page boot_table i s = ret (True, s') \<and> slub_inv s' fl' live \<and>
     fl' i = map (\<lambda>k. a + of_nat (k * class_size i)) [0..<n] @ fl i \<and>
     (\<forall>k < n. unat (a + of_nat (k * class_size i)) = unat a + k * class_size i) \<and> (n - 1) * class_size i < 4096 \<and>
     (if i \<in> {1, 2} then (n - 1) * class_size i = 4032 else n * class_size i = 4096)"
proof -
  let ?z = "of_nat (class_size i) :: u64"
  let ?n = "nobjs ?z"
  have cb: "0 < class_size i" "class_size i \<le> 4096" using class_size_bounds[OF assms(2)] by auto
  then have uz: "unat ?z = class_size i" by (simp add: unat_of_nat)
  obtain s' where s': "slub_add_page boot_table i s = ret (True, s')"
    "slub_inv s' (fl(i := map (obj a ?z) [0..<?n] @ fl i)) live"
    using slub_add_page_inv[OF assms] by blast
  have o: "obj a ?z = (\<lambda>k. a + of_nat (k * class_size i))" by (simp add: obj_def fun_eq_iff)
  have u: "unat (obj a ?z k) = unat a + k * class_size i" if "k < ?n" for k
    using unat_obj[of a ?z k] assms(5) cb that by (simp add: clean_page_def uz)
  have "(?n - 1) * class_size i < 4096" using nobjs_bound[of ?z "?n - 1"] cb by (simp add: uz nobjs_def)
  moreover have "if i \<in> {1, 2} then (?n - 1) * class_size i = 4032 else ?n * class_size i = 4096"
    using assms(2) unfolding nobjs_def uz classes by (elim insertE; simp add: class_size_def)
  ultimately have "(fl(i := map (obj a ?z) [0..<?n] @ fl i)) i = map (\<lambda>k. a + of_nat (k * class_size i)) [0..<?n] @ fl i \<and>
     (\<forall>k < ?n. unat (a + of_nat (k * class_size i)) = unat a + k * class_size i) \<and> (?n - 1) * class_size i < 4096 \<and>
     (if i \<in> {1, 2} then (?n - 1) * class_size i = 4032 else ?n * class_size i = 4096)"
    using u unfolding o by auto
  with s' show ?thesis by blast
qed

theorem slub_page_objects_witness:
  "\<exists>h s' fl' n. slub_add_page boot_table 1 (demo_slub h) = ret (True, s') \<and> slub_inv s' fl' (\<lambda>_. {}) \<and>
     fl' 1 = map (\<lambda>k. 0x100000 + of_nat (k * 96)) [0..<n] \<and> (n - 1) * 96 = 4032"
proof -
  obtain h where h: "kheap_ok h" "holes_4k h = [(0x100000, 0x3000)]" "aligned_holes (holes_4k h)" by (rule demo_kheap)
  obtain h1 where h1: "alloc_kheap_4k 0x1000 h = ret (0x100000, h1)" using demo_kheap_alloc[OF h(1,2)] by blast
  have cl: "clean_page (demo_slub h) 0x100000"
    using demo_slub_bits[of "drop_bit 12 0x100000" h] by (simp add: clean_page_def)
  have c: "class_size 1 = 96" "(1 :: nat) \<in> {1..12}" "(1 :: nat) \<in> {1, 2}" by (simp_all add: class_size_def)
  have h1': "alloc_kheap_4k 0x1000 (kheap_of (demo_slub h)) = ret (0x100000, h1)" using h1 by simp
  from slub_page_objects[OF demo_slub_inv[OF h(1,3)] c(2) h1' _ cl] show ?thesis
    unfolding c(1) if_P[OF c(3)] by (simp del: of_nat_mult) blast
qed


lemma link_second:
  assumes g: "unat a + 0x2000 \<le> 2 ^ 64" "0 < unat z" "unat z \<le> 4096" and a: "a \<noteq> 0" and n: "1 < nobjs z"
    and link: "link_objects z (a + 0x1000) a (a + z) m0 = ret (pf, m)"
  shows "(m(pf := 0)) a = a + z \<and> a + z \<noteq> 0"
proof -
  have "[0..<nobjs z] = 0 # 1 # [2..<nobjs z]" using n by (simp add: upt_conv_Cons numeral_2_eq_2)
  then have "lnx (m(pf := 0)) a = Some (a + z)"
    using page_chain[OF g a _ _ link, of 0 "[]"] by (simp add: obj_def ptr_def del: lnx_upd)
  then show ?thesis by (auto simp: lnx_def ptr_def split: if_splits)
qed

text \<open>A small object on a page that is marked as a large block cannot be released.\<close>

lemma slub_mfree_stale:
  assumes g: "unat a + 0x2000 \<le> 2 ^ 64" "0 < unat z" "unat z \<le> 2048" and a: "a \<noteq> 0" "a AND 0xfff = 0"
    and bits: "c_idx (kmalloc_caches s 15) = LARGE_IDX" "get_page_bits (page_bits s) (drop_bit 12 a) = ret LARGE_IDX"
      "get_page_bits (page_bits s) (drop_bit 12 a + 1) = ret v" "v \<noteq> LARGE_NEXT"
  shows "slub_mfree boot_table (a + z) x s = halt (Assertion ''heap_free_4k'')"
proof -
  have g': "unat z \<le> 4096" using g(3) by simp
  have n: "1 < nobjs z" using nobjs_bound[OF g(2), of 1] g(3) by simp
  have ob: "obj a z 1 = a + z" by (simp add: obj_def)
  note pg = obj_page[OF g(1,2) g' n a(2), unfolded ob]
  have "0x1000 \<le> a + z" using aligned_ge[OF a] pg(2) by (rule order_trans)
  then have nz: "a + z \<noteq> ZERO_SIZE_PTR" by (auto simp: ZERO_SIZE_PTR_def)
  have "\<not> 4096 dvd unat a + unat z"
  proof
    assume "4096 dvd unat a + unat z"
    moreover have "4096 dvd unat a" using a(2) unfolding aligned_4k_iff by simp
    ultimately have "4096 dvd unat z" by (simp only: dvd_add_right_iff)
    from dvd_imp_le[OF this g(2)] g(3) show False by simp
  qed
  then have un: "(a + z) AND 0xfff \<noteq> 0"
    using unat_obj[OF g(1,2) g', of 1, unfolded ob] n unfolding aligned_4k_iff by simp
  have "large_size (page_bits s) (drop_bit 12 a) 0 = ret 0x1000"
    using large_size_ret[of 0 "drop_bit 12 a" "page_bits s" v 0] bits by (simp add: pages_at_def)
  then show ?thesis
    using nz un pg(1) bits
    by (simp add: slub_mfree_def kmfree_def get_cache_from_addr_def yaos_heap_free_4k_boot LARGE_IDX_def)
qed

text \<open>
  The bits of a page are never cleared. When the heap hands out a page that was once the start of a large
  block, the objects of the new class on it are taken for large blocks: after two requests, releasing the second
  object stops the machine in the assertion of the heap.
\<close>

theorem slub_stale_bits:
  assumes "slub_inv s fl live" and "0 < unat sz" "unat sz \<le> 2048" and "fl (class_of (unat sz)) = []"
    and "alloc_kheap_4k 0x1000 (kheap_of s) = ret (a, h)" "a \<noteq> 0" "unat a + 0x2000 \<le> 2 ^ 64"
    and "c_idx (kmalloc_caches s 15) = LARGE_IDX"
    and "get_page_bits (page_bits s) (drop_bit 12 a) = ret LARGE_IDX"
    and "get_page_bits (page_bits s) (drop_bit 12 a + 1) = ret v" "v \<noteq> LARGE_NEXT"
  shows "\<exists>r s1 p s2. slub_malloc boot_table sz x s = ret (r, s1) \<and>
     slub_malloc boot_table sz x s1 = ret (\<lparr>ret_v = p, ret_e = YAOSCALL_OK\<rparr>, s2) \<and>
     slub_mfree boot_table p x s2 = halt (Assertion ''heap_free_4k'')"
proof -
  let ?c = "class_of (unat sz)"
  let ?z = "of_nat (class_size ?c) :: u64"
  note c = class_of_range[of "unat sz"] and al = slub_inv_kheap(2)[OF assms(1,5)]
  have sz: "unat sz \<le> 4096" using assms(3) by simp
  have "?c \<noteq> 12" using assms(3) by (simp add: class_of_def)
  then have cs: "0 < class_size ?c" "class_size ?c \<le> 2048"
    using c unfolding classes by (elim insertE; simp add: class_size_def)+
  then have uz: "unat ?z = class_size ?c" by (simp add: unat_of_nat)
  have g: "unat a + 0x2000 \<le> 2 ^ 64" "0 < unat ?z" "unat ?z \<le> 4096" "unat ?z \<le> 2048" using assms(7) cs by (simp_all add: uz)
  have n2: "1 < nobjs ?z" using nobjs_bound[OF g(2), of 1] cs by (simp add: uz)
  have ok: "class_ok s ?c [] (live ?c)" using slub_invD[OF assms(1) c] assms(4) by simp
  then have fh: "freehead (kmalloc_caches s ?c) = 0" by (auto simp: class_ok_def ptr_def split: if_splits)
  note nl = class_nibble[OF c]
  have "LARGE_IDX OR of_nat ?c = LARGE_IDX" using c unfolding classes LARGE_IDX_def by (elim insertE; simp)
  then obtain pb where pb: "or_page_bits (page_bits s) (drop_bit 12 a) (of_nat ?c) = ret pb"
    "get_page_bits pb (drop_bit 12 a) = ret LARGE_IDX" "get_page_bits pb (drop_bit 12 a + 1) = ret v"
    using or_page_bits_get[OF assms(9) nl(1)] assms(10) by auto
  obtain pf m where link: "link_objects ?z (a + 0x1000) a (a + ?z) (pnext_at s) = ret (pf, m)"
    using link_objects_chain[OF g(1-3), of 0 "pnext_at s"] by (auto simp: obj_def nobjs_def)
  note nx = link_second[OF g(1-3) assms(6) n2 link]
  let ?s1 = "\<lambda>q. s\<lparr>kheap_of := h, pnext_at := m(pf := 0),
      kmalloc_caches := (kmalloc_caches s)(?c := (kmalloc_caches s ?c)\<lparr>freehead := q\<rparr>), page_bits := pb\<rparr>"
  have add: "slub_add_page boot_table ?c s = ret (True, ?s1 a)"
    using assms(5,6) ok link pb(1) nl(2) fh
    by (simp add: slub_add_page_def yaos_heap_alloc_4k_boot class_ok_def Let_def)
  note small = not_large[OF sz] kmalloc_slab_class[OF assms(2) sz]
  have m1: "slub_malloc boot_table sz x s = ret (\<lparr>ret_v = a, ret_e = YAOSCALL_OK\<rparr>, ?s1 (a + ?z))"
    using add fh small assms(6) nx by (simp add: slub_malloc_def kmalloc_def Let_def)
  have m2: "slub_malloc boot_table sz x (?s1 (a + ?z)) =
      ret (\<lparr>ret_v = a + ?z, ret_e = YAOSCALL_OK\<rparr>, ?s1 ((m(pf := 0)) (a + ?z)))"
    using small nx by (simp add: slub_malloc_def kmalloc_def Let_def)
  have "slub_mfree boot_table (a + ?z) x (?s1 q) = halt (Assertion ''heap_free_4k'')" for q
    using assms(8,11) pb c \<open>?c \<noteq> 12\<close> by (intro slub_mfree_stale[OF g(1,2,4) assms(6) al]) auto
  with m1 m2 show ?thesis by blast
qed

theorem slub_stale_bits_witness:
  "\<exists>s r s1 p s2. slub_malloc boot_table 8 0 s = ret (r, s1) \<and>
     slub_malloc boot_table 8 0 s1 = ret (\<lparr>ret_v = p, ret_e = YAOSCALL_OK\<rparr>, s2) \<and>
     slub_mfree boot_table p 0 s2 = halt (Assertion ''heap_free_4k'')"
proof -
  obtain h where h: "kheap_ok h" "holes_4k h = [(0x100000, 0x3000)]" "aligned_holes (holes_4k h)" by (rule demo_kheap)
  obtain h1 where h1: "alloc_kheap_4k 0x1000 h = ret (0x100000, h1)" using demo_kheap_alloc[OF h(1,2)] by blast
  let ?s = "demo_slub h\<lparr>page_bits := (replicate 0x200 0)[0x80 := 15]\<rparr>"
  have "slub_inv ?s (\<lambda>_. []) (\<lambda>_. {})"
    using demo_slub_inv[OF h(1,3)] by (simp add: slub_inv_def class_ok_def demo_slub_def)
  moreover have "get_page_bits (page_bits ?s) (drop_bit 12 0x100000) = ret LARGE_IDX"
    "get_page_bits (page_bits ?s) (drop_bit 12 0x100000 + 1) = ret 0"
    by (simp_all add: get_page_bits_def aget_def LARGE_IDX_def)
  ultimately have "\<exists>r s1 p s2. slub_malloc boot_table 8 0 ?s = ret (r, s1) \<and>
     slub_malloc boot_table 8 0 s1 = ret (\<lparr>ret_v = p, ret_e = YAOSCALL_OK\<rparr>, s2) \<and>
     slub_mfree boot_table p 0 s2 = halt (Assertion ''heap_free_4k'')"
    using slub_stale_bits[of ?s "\<lambda>_. []" "\<lambda>_. {}" 8 "0x100000" h1 0 0] h1
    by (simp add: LARGE_IDX_def LARGE_NEXT_def demo_slub_def)
  then show ?thesis by - (rule exI[of _ ?s])
qed

theorem kmalloc_slab_least_witness:
  "\<exists>i \<in> {1..12}. kmalloc_slab 100 = ret (Slab i) \<and> kmalloc_index 100 = ret i"
  using kmalloc_slab_least[OF _ _ create_kmalloc_caches_ret[of "demo_slub demo_heap"], of 100] by auto


text \<open>The size of the bits for memory up to \<open>m\<close>, before it is rounded to pages.\<close>

definition bits_size :: "u64 \<Rightarrow> u64" where
  "bits_size m = drop_bit 12 m div 2 + 1"

lemma bits_size_bounds:
  "unat (bits_size m) + 4095 < 2 ^ 64" "unat (y :: u64) < unat m div 4096 \<Longrightarrow> unat (y div 2) < npages (bits_size m) * 4096"
proof -
  have "unat (drop_bit 12 m div 2) = unat m div 4096 div 2" by (simp add: drop_bit_eq_div unat_div)
  moreover have "unat m div 4096 div 2 < 2 ^ 51" using u64_bound[of m] by simp
  ultimately have u: "unat (bits_size m) = unat m div 4096 div 2 + 1"
    by (simp add: bits_size_def unat_word_ariths(1))
  then show "unat (bits_size m) + 4095 < 2 ^ 64" using \<open>unat m div 4096 div 2 < 2 ^ 51\<close> by simp
  assume "unat y < unat m div 4096"
  then have "unat (y div 2) < unat (bits_size m)" using u by (simp add: unat_div)
  moreover have "unat (bits_size m) \<le> npages (bits_size m) * 4096" by (simp add: npages_def)
  ultimately show "unat (y div 2) < npages (bits_size m) * 4096" by linarith
qed

lemma get_page_bits_zero: "unat (y div 2) < n \<Longrightarrow> get_page_bits (replicate n 0) y = ret 0"
  by (simp add: get_page_bits_def)

lemma init_slub_bp_boot:
  assumes "alloc_kheap_4k (of_nat (npages (bits_size (max_phy_addr (phy (kheap_of s))))) * 0x1000) (kheap_of s) = ret (a, h)" "a \<noteq> 0"
  shows "init_slub_bp boot_table s =
     ret (s\<lparr>kheap_of := h, page_bits := replicate (npages (bits_size (max_phy_addr (phy (kheap_of s)))) * 4096) 0\<rparr>)"
proof -
  let ?b = "bits_size (max_phy_addr (phy (kheap_of s)))"
  note ns = newsize_pages[OF bits_size_bounds(1)[of "max_phy_addr (phy (kheap_of s))"]]
  have "(?b + (0x1000 - 1)) AND NOT 0xfff = of_nat (npages ?b) * 0x1000" using ns(1) by simp
  then show ?thesis
    unfolding init_slub_bp_def using assms ns(3)
    by (simp add: bits_size_def[symmetric] yaos_max_physical_mem_boot yaos_heap_alloc_4k_boot ns(2) Let_def)
qed




end
