(* ===== verification/Initcall.thy ===== *)
theory Initcall
  imports Data_Section
begin

text \<open>
  The order in which the kernel starts its parts (kernel/main.c). Each part puts the address of
  its start function into a section of the level it belongs to; the linker places the sections of the levels one
  behind the other. Two levels run before the other processors are started, the rest afterwards.
  A start function acts on the kernel state \<open>'w\<close> and may stop.
\<close>

definition PRE_SMP_ENDLVL :: nat where
  "PRE_SMP_ENDLVL = 2"

type_synonym 'w initcall_t = "bool \<Rightarrow> 'w \<Rightarrow> (int \<times> 'w) kres"

text \<open>
  What the linker script defines: the functions at their addresses, eight bytes each, the start of
  the sections, and the bounds of the levels.
\<close>

record 'w initcalls =
  setup_at :: "u64 \<Rightarrow> 'w initcall_t option"
  setup_start :: u64
  setup_end :: u64
  initcall_at :: "u64 \<Rightarrow> 'w initcall_t option"
  initcall_start :: u64
  initcall_levels :: "u64 list"

definition do_one_initcall_debug :: "'w initcall_t \<Rightarrow> bool \<Rightarrow> 'w \<Rightarrow> (int \<times> 'w) kres" where
  "do_one_initcall_debug fn isbp w = kbind (fn isbp w) (\<lambda>(r, w'). ret (r, w'))"

definition do_one_initcall :: "bool \<Rightarrow> 'w initcall_t \<Rightarrow> bool \<Rightarrow> 'w \<Rightarrow> (int \<times> 'w) kres" where
  "do_one_initcall initcall_debug fn isbp w =
     (if initcall_debug then do_one_initcall_debug fn isbp w else fn isbp w)"

text \<open>The value a start function returns is printed and then dropped.\<close>

definition do_early_setup :: "'w initcalls \<Rightarrow> bool \<Rightarrow> 'w \<Rightarrow> (int \<times> 'w) kres" where
  "do_early_setup k isbp w =
     kbind (each_entry (setup_at k) 8 (setup_end k) (\<lambda>fn w. kbind (fn isbp w) (\<lambda>(r, w'). ret w')) (setup_start k) w)
       (\<lambda>w. ret (0, w))"

definition do_initcall_level :: "bool \<Rightarrow> 'w initcalls \<Rightarrow> nat \<Rightarrow> bool \<Rightarrow> 'w \<Rightarrow> 'w kres" where
  "do_initcall_level dbg k level isbp w =
     kbind (aget (initcall_levels k) level) (\<lambda>start.
     kbind (aget (initcall_levels k) (level + 1)) (\<lambda>stop.
       each_entry (initcall_at k) 8 stop (\<lambda>fn w. kbind (do_one_initcall dbg fn isbp w) (\<lambda>(r, w'). ret w')) start w))"

definition do_initcalls :: "bool \<Rightarrow> 'w initcalls \<Rightarrow> bool \<Rightarrow> 'w \<Rightarrow> 'w kres" where
  "do_initcalls dbg k isbp w =
     kfold (\<lambda>level. do_initcall_level dbg k level isbp) [PRE_SMP_ENDLVL ..< length (initcall_levels k) - 1] w"

definition do_basic_setup :: "bool \<Rightarrow> 'w initcalls \<Rightarrow> bool \<Rightarrow> 'w \<Rightarrow> 'w kres" where
  "do_basic_setup dbg k isbp w = do_initcalls dbg k isbp w"

definition do_pre_smp_initcalls :: "bool \<Rightarrow> 'w initcalls \<Rightarrow> bool \<Rightarrow> 'w \<Rightarrow> 'w kres" where
  "do_pre_smp_initcalls dbg k isbp w =
     kbind (aget (initcall_levels k) 0) (\<lambda>stop.
     kbind (each_entry (initcall_at k) 8 stop (\<lambda>fn w. kbind (do_one_initcall dbg fn isbp w) (\<lambda>(r, w'). ret w')) (initcall_start k) w)
       (kfold (\<lambda>level. do_initcall_level dbg k level isbp) [0 ..< PRE_SMP_ENDLVL]))"

text \<open>
  The steps of \<^verbatim>\<open>start_kernel\<close> and \<^verbatim>\<open>start_kernel_ap\<close> up to the idle loop. Setting up the processor, the
  scheduler and the other processors are arguments.
\<close>

definition start_kernel ::
  "bool \<Rightarrow> ('w \<Rightarrow> 'w kres) \<Rightarrow> (bool \<Rightarrow> 'w \<Rightarrow> 'w kres) \<Rightarrow> ('w \<Rightarrow> 'w kres) \<Rightarrow> 'w initcalls \<Rightarrow> 'w \<Rightarrow> 'w kres" where
  "start_kernel dbg arch_setup init_sched smp_init k w =
     kbind (arch_setup w) (\<lambda>w.
     kbind (init_sched True w) (\<lambda>w.
     kbind (do_early_setup k True w) (\<lambda>(r, w).
     kbind (do_pre_smp_initcalls dbg k True w) (\<lambda>w.
     kbind (smp_init w) (\<lambda>w.
       do_basic_setup dbg k True w)))))"

definition start_kernel_ap :: "bool \<Rightarrow> ('w \<Rightarrow> 'w kres) \<Rightarrow> 'w initcalls \<Rightarrow> 'w \<Rightarrow> 'w kres" where
  "start_kernel_ap dbg smp_ap_init k w =
     kbind (smp_ap_init w) (\<lambda>w.
     kbind (do_early_setup k False w) (\<lambda>(r, w).
     kbind (do_pre_smp_initcalls dbg k False w) (\<lambda>w.
       do_basic_setup dbg k False w)))"

section \<open>The order of the calls\<close>

text \<open>Running a list of start functions one after the other.\<close>

definition run_calls :: "bool \<Rightarrow> 'w initcall_t list \<Rightarrow> 'w \<Rightarrow> 'w kres" where
  "run_calls isbp fs = kfold (\<lambda>fn w. kbind (fn isbp w) (\<lambda>(r, w'). ret w')) fs"

text \<open>
  A linked kernel: the early functions \<open>su\<close>, those before the first level \<open>pre\<close>, and for each of the eight
  levels the list of its functions.
\<close>

definition linked :: "'w initcalls \<Rightarrow> 'w initcall_t list \<Rightarrow> 'w initcall_t list \<Rightarrow> 'w initcall_t list list \<Rightarrow> bool" where
  "linked k su pre lv \<longleftrightarrow>
     laid_out (setup_at k) (setup_start k) 8 su (setup_end k) \<and> length lv = 8 \<and> length (initcall_levels k) = 9 \<and>
     laid_out (initcall_at k) (initcall_start k) 8 pre (initcall_levels k ! 0) \<and>
     (\<forall>i < 8. laid_out (initcall_at k) (initcall_levels k ! i) 8 (lv ! i) (initcall_levels k ! Suc i))"

lemma do_one_initcall_eq [simp]: "do_one_initcall dbg fn isbp w = fn isbp w"
  by (cases "fn isbp w" rule: kres_cases) (auto simp: do_one_initcall_def do_one_initcall_debug_def)

lemma run_calls_append: "run_calls b (xs @ ys) w = kbind (run_calls b xs w) (run_calls b ys)"
  unfolding run_calls_def by (rule kfold_append)

lemma linkedD:
  assumes "linked k su pre lv"
  shows "length lv = 8" "length (initcall_levels k) = 9"
    "each_entry (setup_at k) 8 (setup_end k) body (setup_start k) w = kfold body su w"
    "each_entry (initcall_at k) 8 (initcall_levels k ! 0) body (initcall_start k) w = kfold body pre w"
    "i < 8 \<Longrightarrow> each_entry (initcall_at k) 8 (initcall_levels k ! Suc i) body (initcall_levels k ! i) w = kfold body (lv ! i) w"
  using assms by (auto simp: linked_def intro!: each_entry_fold)

lemma do_initcall_level_run:
  assumes "linked k su pre lv" "i < 8"
  shows "do_initcall_level dbg k i isbp w = run_calls isbp (lv ! i) w"
  using assms(2) by (simp add: do_initcall_level_def run_calls_def linkedD[OF assms(1)])

lemma levels_run:
  assumes "linked k su pre lv" "i \<le> j" "j \<le> 8"
  shows "kfold (\<lambda>level. do_initcall_level dbg k level isbp) [i..<j] w = run_calls isbp (concat (map ((!) lv) [i..<j])) w"
  using assms(2,3)
proof (induction j arbitrary: w rule: dec_induct)
  case base
  show ?case by (simp add: run_calls_def)
next
  case (step j)
  then have "do_initcall_level dbg k j isbp w' = run_calls isbp (lv ! j) w'" for w'
    using do_initcall_level_run[OF assms(1)] by simp
  with step show ?case by (simp add: kfold_append run_calls_append)
qed

lemma map_nth_upt: "i \<le> j \<Longrightarrow> j \<le> length xs \<Longrightarrow> map ((!) xs) [i..<j] = take (j - i) (drop i xs)"
  by (rule nth_equalityI) auto

lemma pre_smp_run:
  assumes "linked k su pre lv"
  shows "do_pre_smp_initcalls dbg k isbp w = run_calls isbp (pre @ concat (take 2 lv)) w"
proof -
  have "map ((!) lv) [0..<2] = take 2 lv" using map_nth_upt[of 0 2 lv] linkedD(1)[OF assms] by simp
  with levels_run[OF assms, of 0 2 dbg isbp]
  have "kfold (\<lambda>level. do_initcall_level dbg k level isbp) [0..<2] = run_calls isbp (concat (take 2 lv))"
    by (simp add: fun_eq_iff)
  then show ?thesis
    by (simp add: do_pre_smp_initcalls_def PRE_SMP_ENDLVL_def run_calls_append linkedD[OF assms])
      (simp add: run_calls_def)
qed

lemma basic_setup_run:
  assumes "linked k su pre lv"
  shows "do_basic_setup dbg k isbp w = run_calls isbp (concat (drop 2 lv)) w"
proof -
  have m: "map ((!) lv) [2..<8] = drop 2 lv"
    using map_nth_upt[of 2 8 lv] linkedD(1)[OF assms] by (subst map_nth_upt) simp_all
  have "(9 :: nat) - 1 = 8" "(2 :: nat) \<le> 8" "(8 :: nat) \<le> 8" by simp_all
  then show ?thesis
    unfolding do_basic_setup_def do_initcalls_def PRE_SMP_ENDLVL_def linkedD(2)[OF assms]
    by (simp only: levels_run[OF assms] m)
qed

lemma early_setup_run:
  assumes "linked k su pre lv"
  shows "do_early_setup k isbp w = kbind (run_calls isbp su w) (\<lambda>w. ret (0, w))"
  by (simp add: do_early_setup_def run_calls_def linkedD(3)[OF assms])



text \<open>A kernel with one function before the first level, one in the first and one in the last level, which write a log.\<close>

definition demo_call :: "nat \<Rightarrow> nat list initcall_t" where
  "demo_call n isbp w = ret (0, w @ [n])"

definition demo_calls :: "nat list initcalls" where
  "demo_calls =
     \<lparr>setup_at = (\<lambda>_. None), setup_start = 0x100, setup_end = 0x100,
      initcall_at = [0x1000 \<mapsto> demo_call 1, 0x1008 \<mapsto> demo_call 2, 0x1010 \<mapsto> demo_call 3], initcall_start = 0x1000,
      initcall_levels = [0x1008, 0x1010, 0x1010, 0x1010, 0x1010, 0x1010, 0x1010, 0x1010, 0x1018]\<rparr>"

lemma all_less_8: "(\<forall>i < 8. P i) \<longleftrightarrow> P 0 \<and> P 1 \<and> P 2 \<and> P 3 \<and> P 4 \<and> P 5 \<and> P 6 \<and> P (7 :: nat)"
  by (simp add: eval_nat_numeral All_less_Suc conj_ac)

lemma demo_linked: "linked demo_calls [] [demo_call 1] [[demo_call 2], [], [], [], [], [], [], [demo_call 3]]"
  unfolding linked_def all_less_8 by (simp add: laid_out_def demo_calls_def)


end
