(* ===== verification/Libfs.thy ===== *)
theory Libfs
  imports Yaos_Prelude
begin

text \<open>
  Blocks and files of the disk image that the tools work on (tools/libfs.c, tools/libfs.h). The header
  include/fs.h that defines the layout of the structures is not part of the sources: the sizes that the comment at the head of
  libfs.c gives (512 bytes in a block, 8 inodes in a block, 12 direct blocks) are taken from there, and what else the
  code uses of the header is an argument \<open>h\<close>. The image is kept in parts: the super block, the inodes by their
  number, the bits of the bitmap blocks by block number, and the bytes of the data blocks. A block
  number that is not one of a data block must not be used as one; the operations below stop where the code would.
\<close>

section \<open>Arithmetic\<close>

definition imin :: "int \<Rightarrow> int \<Rightarrow> int" where
  "imin x y = (if x < y then x else y)"

definition imax :: "int \<Rightarrow> int \<Rightarrow> int" where
  "imax x y = (if x > y then x else y)"

definition divceil :: "int \<Rightarrow> int \<Rightarrow> int" where
  "divceil x y = (if x = 0 then 0 else (x - 1) div y + 1)"

definition bitcount :: "u32 \<Rightarrow> u32" where
  "bitcount x0 =
     (let x1 = x0 - (drop_bit 1 x0 AND 0x55555555);
          x2 = (x1 AND 0x33333333) + (drop_bit 2 x1 AND 0x33333333);
          x3 = (x2 + drop_bit 4 x2) AND 0x0f0f0f0f;
          x4 = x3 + drop_bit 8 x3;
          x5 = x4 + drop_bit 16 x4
      in x5 AND 0x3f)"

section \<open>The image\<close>

definition BSIZE :: nat where
  "BSIZE = 512"

definition IPB :: nat where
  "IPB = 8"

definition BPB :: nat where
  "BPB = BSIZE * 8"

definition NDIRECT :: nat where
  "NDIRECT = 12"

definition T_DIR :: u16 where
  "T_DIR = 1"

definition T_FILE :: u16 where
  "T_FILE = 2"

definition T_DEV :: u16 where
  "T_DEV = 3"

record superblock =
  sb_size :: u32
  sb_nblocks :: u32
  sb_ninodes :: u32
  sb_nlog :: u32

record dinode =
  d_type :: u16
  d_major :: u16
  d_minor :: u16
  d_nlink :: u16
  d_size :: u32
  addrs :: "nat \<Rightarrow> u32"

record img =
  sblk :: superblock
  inode :: "nat \<Rightarrow> dinode"
  bmbits :: "nat \<Rightarrow> bool"
  blocks :: "nat \<Rightarrow> nat \<Rightarrow> u8"

text \<open>
  A directory entry, and what the missing header says: the number of blocks behind the indirect block, the largest file in blocks,
  the length of names, and how an entry is laid out in bytes.
\<close>

record dirent =
  de_inum :: nat
  de_name :: string

record fs_h =
  NINDIRECT :: nat
  MAXFILE :: nat
  DIRSIZ :: nat
  de_size :: nat
  de_enc :: "dirent \<Rightarrow> u8 list"
  de_dec :: "u8 list \<Rightarrow> dirent"

definition MAXFILESIZE :: "fs_h \<Rightarrow> nat" where
  "MAXFILESIZE h = MAXFILE h * BSIZE"

definition typename :: "u16 \<Rightarrow> string" where
  "typename t =
     (if t = T_DIR then ''directory'' else if t = T_FILE then ''file'' else if t = T_DEV then ''device''
      else ''unknown'')"

section \<open>Blocks\<close>

definition valid_data_block :: "img \<Rightarrow> u32 \<Rightarrow> bool" where
  "valid_data_block im b =
     (let Ni = sb_ninodes (sblk im) div of_nat IPB + 1;
          Nm = sb_size (sblk im) div of_nat (BSIZE * 8) + 1;
          Nd = sb_nblocks (sblk im);
          d = 2 + Ni + Nm
      in d \<le> b \<and> b \<le> d + Nd - 1)"

text \<open>The two loops that look for a clear bit: within one bitmap block, and over the blocks.\<close>

function balloc_bits :: "img \<Rightarrow> nat \<Rightarrow> nat \<Rightarrow> nat option" where
  "balloc_bits im b bi =
     (if bi < BPB \<and> b + bi < unat (sb_size (sblk im))
      then if \<not> bmbits im (b + bi) then Some (b + bi) else balloc_bits im b (Suc bi)
      else None)"
  by pat_completeness auto
termination by (relation "measure (\<lambda>(im, b, bi). BPB - bi)") auto

declare balloc_bits.simps [simp del]

function balloc_blocks :: "img \<Rightarrow> nat \<Rightarrow> nat option" where
  "balloc_blocks im b =
     (if b < unat (sb_size (sblk im))
      then case balloc_bits im b 0 of Some r \<Rightarrow> Some r | None \<Rightarrow> balloc_blocks im (b + BPB)
      else None)"
  by pat_completeness auto
termination by (relation "measure (\<lambda>(im, b). unat (sb_size (sblk im)) - b)") (auto simp: BPB_def BSIZE_def)

declare balloc_blocks.simps [simp del]

text \<open>\<^verbatim>\<open>fatal\<close> leaves by a long jump to the tool's main function.\<close>

definition balloc :: "img \<Rightarrow> (u32 \<times> img) kres" where
  "balloc im =
     (case balloc_blocks im 0 of
        None \<Rightarrow> halt (Panic ''balloc: no free blocks'')
      | Some b \<Rightarrow>
          let im1 = im\<lparr>bmbits := (bmbits im)(b := True)\<rparr> in
          if \<not> valid_data_block im1 (of_nat b) then halt (Panic ''balloc: invalid data block number'')
          else ret (of_nat b, im1\<lparr>blocks := (blocks im1)(b := (\<lambda>_. 0))\<rparr>))"

definition bfree :: "img \<Rightarrow> u32 \<Rightarrow> int \<times> img" where
  "bfree im b =
     (if \<not> valid_data_block im b then (- 1, im)
      else (0, im\<lparr>bmbits := (bmbits im)(unat b := False)\<rparr>))"

section \<open>Inodes\<close>

definition root_inode_number :: nat where
  "root_inode_number = 1"

text \<open>A pointer to an inode is its number.\<close>

definition iget :: "img \<Rightarrow> nat \<Rightarrow> nat option" where
  "iget im inum = (if 0 < inum \<and> inum < unat (sb_ninodes (sblk im)) then Some inum else None)"

function geti_from :: "img \<Rightarrow> nat \<Rightarrow> nat \<Rightarrow> nat" where
  "geti_from im ip i =
     (if i < unat (sb_ninodes (sblk im)) div IPB + 1
      then if i * IPB \<le> ip \<and> ip < i * IPB + IPB then (ip - i * IPB) + i * IPB else geti_from im ip (Suc i)
      else 0)"
  by pat_completeness auto
termination by (relation "measure (\<lambda>(im, ip, i). unat (sb_ninodes (sblk im)) div IPB + 1 - i)") auto

declare geti_from.simps [simp del]

definition geti :: "img \<Rightarrow> nat \<Rightarrow> nat" where
  "geti im ip = geti_from im ip 0"

definition upd_inode :: "nat \<Rightarrow> (dinode \<Rightarrow> dinode) \<Rightarrow> img \<Rightarrow> img" where
  "upd_inode ip f im = im\<lparr>inode := (inode im)(ip := f (inode im ip))\<rparr>"

definition ialloc :: "img \<Rightarrow> u16 \<Rightarrow> (nat \<times> img) kres" where
  "ialloc im type =
     (case find (\<lambda>inum. d_type (inode im inum) = 0) [1..<unat (sb_ninodes (sblk im))] of
        None \<Rightarrow> halt (Panic ''ialloc: cannot allocate'')
      | Some inum \<Rightarrow> ret (inum, upd_inode inum (\<lambda>_.
          \<lparr>d_type = type, d_major = 0, d_minor = 0, d_nlink = 0, d_size = 0, addrs = (\<lambda>_. 0)\<rparr>) im))"

definition ifree :: "img \<Rightarrow> nat \<Rightarrow> int \<times> img" where
  "ifree im inum =
     (case iget im inum of
        None \<Rightarrow> (- 1, im)
      | Some ip \<Rightarrow> (0, upd_inode ip (\<lambda>d. d\<lparr>d_type := 0\<rparr>) im))"

section \<open>The blocks of a file\<close>

text \<open>The \<open>k\<close>-th word of a block, in the byte order of the machine.\<close>

definition ld32 :: "(nat \<Rightarrow> u8) \<Rightarrow> nat \<Rightarrow> u32" where
  "ld32 m k = ucast (m (4 * k)) OR push_bit 8 (ucast (m (4 * k + 1)))
     OR push_bit 16 (ucast (m (4 * k + 2))) OR push_bit 24 (ucast (m (4 * k + 3)))"

definition st32 :: "(nat \<Rightarrow> u8) \<Rightarrow> nat \<Rightarrow> u32 \<Rightarrow> nat \<Rightarrow> u8" where
  "st32 m k v = m(4 * k := ucast v, 4 * k + 1 := ucast (drop_bit 8 v),
     4 * k + 2 := ucast (drop_bit 16 v), 4 * k + 3 := ucast (drop_bit 24 v))"

definition need_block :: "img \<Rightarrow> u32 \<Rightarrow> unit kres" where
  "need_block im b = (if valid_data_block im b then ret () else halt (Wild ''block''))"

definition bmap :: "fs_h \<Rightarrow> img \<Rightarrow> nat \<Rightarrow> nat \<Rightarrow> (u32 \<times> img) kres" where
  "bmap h im ip n =
     (if n < NDIRECT then
        let addr = addrs (inode im ip) n in
        if addr = 0 then
          kbind (balloc im) (\<lambda>(addr, im). ret (addr, upd_inode ip (\<lambda>d. d\<lparr>addrs := (addrs d)(n := addr)\<rparr>) im))
        else ret (addr, im)
      else
        let k = n - NDIRECT in
        if k \<ge> NINDIRECT h then ret (0, im)
        else
          kbind (let iaddr = addrs (inode im ip) NDIRECT in
                 if iaddr = 0 then
                   kbind (balloc im) (\<lambda>(iaddr, im).
                     ret (iaddr, upd_inode ip (\<lambda>d. d\<lparr>addrs := (addrs d)(NDIRECT := iaddr)\<rparr>) im))
                 else ret (iaddr, im)) (\<lambda>(iaddr, im).
          kbind (need_block im iaddr) (\<lambda>_.
            let v = ld32 (blocks im (unat iaddr)) k in
            if v = 0 then
              kbind (balloc im) (\<lambda>(v, im).
                ret (v, im\<lparr>blocks := (blocks im)(unat iaddr := st32 (blocks im (unat iaddr)) k v)\<rparr>))
            else ret (v, im))))"

section \<open>Reading and writing\<close>

text \<open>The length of one step: \<open>r\<close> bytes are left, at offset \<open>off\<close>. The arguments of \<^verbatim>\<open>min\<close> are of type \<^verbatim>\<open>int\<close>.\<close>

definition chunk :: "nat \<Rightarrow> nat \<Rightarrow> nat" where
  "chunk r off = nat (imin (int r) (int (BSIZE - off mod BSIZE)))"

lemma chunk_eq: "chunk r off = min r (BSIZE - off mod BSIZE)"
  by (simp add: chunk_def imin_def min_def)

lemma chunk_pos [simp]: "0 < r \<Longrightarrow> 0 < chunk r off" "chunk r off \<le> r" "off mod BSIZE + chunk r off \<le> BSIZE"
proof -
  have "off mod BSIZE < BSIZE" by (simp add: BSIZE_def)
  then show "0 < r \<Longrightarrow> 0 < chunk r off" "chunk r off \<le> r" "off mod BSIZE + chunk r off \<le> BSIZE"
    by (simp_all add: chunk_eq)
qed

function iread_loop :: "fs_h \<Rightarrow> img \<Rightarrow> nat \<Rightarrow> nat \<Rightarrow> nat \<Rightarrow> (u8 list \<times> img) kres" where
  "iread_loop h im ip r off =
     (if r = 0 then ret ([], im)
      else if r \<ge> 2 ^ 31 then halt (Wild ''min'')
      else kbind (bmap h im ip (off div BSIZE)) (\<lambda>(b, im).
        if \<not> valid_data_block im b then ret ([], im)
        else let m = chunk r off in
          kbind (iread_loop h im ip (r - m) (off + m)) (\<lambda>(rest, im').
            ret (map (\<lambda>j. blocks im (unat b) (off mod BSIZE + j)) [0..<m] @ rest, im'))))"
  by pat_completeness auto
termination by (relation "measure (\<lambda>(h, im, ip, r, off). r)") auto

declare iread_loop.simps [simp del]

text \<open>The bytes read, or the result -1; the number of bytes read is the length of the list.\<close>

definition iread :: "fs_h \<Rightarrow> img \<Rightarrow> nat \<Rightarrow> u32 \<Rightarrow> u32 \<Rightarrow> (u8 list option \<times> img) kres" where
  "iread h im ip n off =
     (let sz = d_size (inode im ip) in
      if d_type (inode im ip) = T_DEV then ret (None, im)
      else if off > sz \<or> off + n < off then ret (None, im)
      else let n = (if off + n > sz then sz - off else n) in
        kbind (iread_loop h im ip (unat n) (unat off)) (\<lambda>(bs, im). ret (Some bs, im)))"

definition put_bytes :: "(nat \<Rightarrow> u8) \<Rightarrow> nat \<Rightarrow> u8 list \<Rightarrow> nat \<Rightarrow> u8" where
  "put_bytes m o' bs = (\<lambda>j. if o' \<le> j \<and> j < o' + length bs then bs ! (j - o') else m j)"

function iwrite_loop :: "fs_h \<Rightarrow> img \<Rightarrow> nat \<Rightarrow> u8 list \<Rightarrow> nat \<Rightarrow> (nat \<times> img) kres" where
  "iwrite_loop h im ip buf off =
     (if buf = [] then ret (0, im)
      else if length buf \<ge> 2 ^ 31 then halt (Wild ''min'')
      else kbind (bmap h im ip (off div BSIZE)) (\<lambda>(b, im).
        if \<not> valid_data_block im b then ret (0, im)
        else let m = chunk (length buf) off in
          kbind (iwrite_loop h
              (im\<lparr>blocks := (blocks im)(unat b := put_bytes (blocks im (unat b)) (off mod BSIZE) (take m buf))\<rparr>)
              ip (drop m buf) (off + m)) (\<lambda>(t, im'). ret (m + t, im'))))"
  by pat_completeness auto
termination by (relation "measure (\<lambda>(h, im, ip, buf, off). length buf)") auto

declare iwrite_loop.simps [simp del]

definition iwrite :: "fs_h \<Rightarrow> img \<Rightarrow> nat \<Rightarrow> u8 list \<Rightarrow> u32 \<Rightarrow> (int \<times> img) kres" where
  "iwrite h im ip buf off =
     (let n = of_nat (length buf) in
      if d_type (inode im ip) = T_DEV then ret (- 1, im)
      else if off > d_size (inode im ip) \<or> off + n < off \<or> unat (off + n) > MAXFILESIZE h then ret (- 1, im)
      else
        kbind (iwrite_loop h im ip buf (unat off)) (\<lambda>(t, im).
          let off' = off + of_nat t in
          if t > 0 \<and> off' > d_size (inode im ip)
          then ret (int t, upd_inode ip (\<lambda>d. d\<lparr>d_size := off'\<rparr>) im)
          else ret (int t, im)))"

section \<open>Truncating\<close>

text \<open>The loops that release the direct and the indirect blocks from \<open>i\<close> up to \<open>n\<close>.\<close>

definition free_direct :: "nat \<Rightarrow> nat \<Rightarrow> img \<Rightarrow> img" where
  "free_direct ip i im =
     upd_inode ip (\<lambda>d. d\<lparr>addrs := (addrs d)(i := 0)\<rparr>) (snd (bfree im (addrs (inode im ip) i)))"

definition free_indirect :: "u32 \<Rightarrow> nat \<Rightarrow> img \<Rightarrow> img" where
  "free_indirect iaddr i im =
     (let im1 = snd (bfree im (ld32 (blocks im (unat iaddr)) i)) in
      im1\<lparr>blocks := (blocks im1)(unat iaddr := st32 (blocks im1 (unat iaddr)) i 0)\<rparr>)"

function zero_loop :: "fs_h \<Rightarrow> img \<Rightarrow> nat \<Rightarrow> nat \<Rightarrow> nat \<Rightarrow> img kres" where
  "zero_loop h im ip r off =
     (if r = 0 then ret im
      else if r \<ge> 2 ^ 31 then halt (Wild ''min'')
      else kbind (bmap h im ip (off div BSIZE)) (\<lambda>(b, im).
        kbind (need_block im b) (\<lambda>_.
        let m = chunk r off in
          zero_loop h
            (im\<lparr>blocks := (blocks im)(unat b := put_bytes (blocks im (unat b)) (off mod BSIZE) (replicate m 0))\<rparr>)
            ip (r - m) (off + m))))"
  by pat_completeness auto
termination by (relation "measure (\<lambda>(h, im, ip, r, off). r)") auto

declare zero_loop.simps [simp del]

definition itruncate :: "fs_h \<Rightarrow> img \<Rightarrow> nat \<Rightarrow> u32 \<Rightarrow> (int \<times> img) kres" where
  "itruncate h im ip sz =
     (if d_type (inode im ip) = T_DEV then ret (- 1, im)
      else if unat sz > MAXFILESIZE h then ret (- 1, im)
      else
        kbind (if sz < d_size (inode im ip) then
            let n = nat (divceil (sint (d_size (inode im ip))) (int BSIZE));
                k = nat (divceil (sint sz) (int BSIZE));
                nd = min n NDIRECT;
                kd = min k NDIRECT;
                im = fold (free_direct ip) [kd..<nd] im
            in if n > NDIRECT then
                 let iaddr = addrs (inode im ip) NDIRECT in
                 kbind (kassert (iaddr \<noteq> 0) ''itruncate'') (\<lambda>_.
                 kbind (need_block im iaddr) (\<lambda>_.
                 let ni = n - NDIRECT;
                     ki = k - NDIRECT;
                     im = fold (free_indirect iaddr) [ki..<ni] im
                 in if ni > NINDIRECT h then halt (Wild ''iblock'')
                    else if ki = 0
                    then ret (upd_inode ip (\<lambda>d. d\<lparr>addrs := (addrs d)(NDIRECT := 0)\<rparr>) (snd (bfree im iaddr)))
                    else ret im))
               else ret im
          else zero_loop h im ip (unat (sz - d_size (inode im ip))) (unat (d_size (inode im ip)))) (\<lambda>im.
        ret (0, upd_inode ip (\<lambda>d. d\<lparr>d_size := sz\<rparr>) im)))"


section \<open>The free block that is found\<close>

lemma find_upt_Cons: "i < j \<Longrightarrow> find P [i..<j] = (if P i then Some i else find P [Suc i..<j])"
  by (simp add: upt_conv_Cons)

lemma find_append: "find P (xs @ ys) = (case find P xs of None \<Rightarrow> find P ys | Some x \<Rightarrow> Some x)"
  by (induction xs) auto

lemma balloc_bits_find:
  "balloc_bits im b bi = find (\<lambda>b. \<not> bmbits im b) [b + bi..<min (b + BPB) (unat (sb_size (sblk im)))]"
proof (induction "BPB - bi" arbitrary: bi)
  case 0
  then show ?case by (subst balloc_bits.simps) simp
next
  case (Suc d)
  show ?case
  proof (cases "b + bi < min (b + BPB) (unat (sb_size (sblk im)))")
    case True
    then show ?thesis using Suc.hyps(1)[of "Suc bi"] Suc.hyps(2)
      by (subst balloc_bits.simps) (auto simp: find_upt_Cons)
  next
    case False
    then show ?thesis by (subst balloc_bits.simps) auto
  qed
qed

text \<open>The nested loops find the first clear bit.\<close>

lemma balloc_blocks_find:
  "balloc_blocks im b = find (\<lambda>b. \<not> bmbits im b) [b..<unat (sb_size (sblk im))]"
proof (induction "unat (sb_size (sblk im)) - b" arbitrary: b rule: less_induct)
  case less
  let ?s = "unat (sb_size (sblk im))"
  show ?case
  proof (cases "b < ?s")
    case True
    have "[b..<?s] = [b..<min (b + BPB) ?s] @ [min (b + BPB) ?s..<?s]"
      using upt_add_eq_append[of b "min (b + BPB) ?s" "?s - min (b + BPB) ?s"] True by simp
    moreover have "find P [min (b + BPB) ?s..<?s] = find P [b + BPB..<?s]" for P
      by (cases "b + BPB \<le> ?s") (auto simp: min_def)
    moreover have "balloc_blocks im (b + BPB) = find (\<lambda>b. \<not> bmbits im b) [b + BPB..<?s]"
      using True by (intro less.hyps) (auto simp: BPB_def BSIZE_def)
    ultimately show ?thesis using True
      by (subst balloc_blocks.simps) (simp add: balloc_bits_find find_append cong: option.case_cong)
  next
    case False
    then show ?thesis by (subst balloc_blocks.simps) simp
  qed
qed

section \<open>Consistent images\<close>

lemma unat_u32_inj [simp]: "unat (x :: u32) = unat y \<longleftrightarrow> x = y"
  by (auto intro: unsigned_word_eqI)

text \<open>What the code relies on of the missing header.\<close>

definition h_ok :: "fs_h \<Rightarrow> bool" where
  "h_ok h \<longleftrightarrow> 4 * NINDIRECT h \<le> BSIZE \<and> MAXFILE h = NDIRECT + NINDIRECT h"

definition first_data :: "img \<Rightarrow> nat" where
  "first_data im = 2 + (unat (sb_ninodes (sblk im)) div IPB + 1) + (unat (sb_size (sblk im)) div BPB + 1)"

definition sb_ok :: "img \<Rightarrow> bool" where
  "sb_ok im \<longleftrightarrow> unat (sb_size (sblk im)) < 2 ^ 31 \<and>
     first_data im + unat (sb_nblocks (sblk im)) \<le> unat (sb_size (sblk im))"

lemma valid_data_block_iff:
  assumes "sb_ok im"
  shows "valid_data_block im b \<longleftrightarrow> first_data im \<le> unat b \<and> unat b < first_data im + unat (sb_nblocks (sblk im))"
proof -
  define d where "d = 2 + (sb_ninodes (sblk im) div of_nat IPB + 1) + (sb_size (sblk im) div of_nat (BSIZE * 8) + 1)"
  define e where "e = d + sb_nblocks (sblk im)"
  have lim: "first_data im + unat (sb_nblocks (sblk im)) < 2 ^ 31" using assms by (simp add: sb_ok_def)
  have d: "unat d = first_data im"
    using lim by (simp add: d_def unat_word_ariths(1) unat_div first_data_def IPB_def BPB_def BSIZE_def)
  have e: "unat e = first_data im + unat (sb_nblocks (sblk im))"
    using lim by (simp add: e_def unat_word_ariths(1) d)
  then have "e \<noteq> 0" by (auto simp: first_data_def)
  from unat_minus_one[OF this] e have "unat (e - 1) = first_data im + unat (sb_nblocks (sblk im)) - 1" by simp
  with d show ?thesis
    unfolding valid_data_block_def Let_def d_def[symmetric] e_def[symmetric] word_le_nat_alt by (auto simp: first_data_def)
qed

lemma valid_nz: "sb_ok im \<Longrightarrow> valid_data_block im b \<Longrightarrow> b \<noteq> 0"
  by (auto simp: valid_data_block_iff first_data_def)

text \<open>
  The places that hold the number of a block: block \<open>n\<close> of a file, and the indirect block of a file.
\<close>

datatype slot = Data nat | Ind

definition ref :: "fs_h \<Rightarrow> img \<Rightarrow> nat \<Rightarrow> slot \<Rightarrow> u32" where
  "ref h im ip q =
     (case q of
        Ind \<Rightarrow> addrs (inode im ip) NDIRECT
      | Data n \<Rightarrow>
          if n < NDIRECT then addrs (inode im ip) n
          else if n < NDIRECT + NINDIRECT h \<and> addrs (inode im ip) NDIRECT \<noteq> 0
          then ld32 (blocks im (unat (addrs (inode im ip) NDIRECT))) (n - NDIRECT)
          else 0)"

text \<open>
  An image is consistent if every number stored is one of a data block marked as used, and no two places hold the same
  one; the blocks before the data blocks are marked as well. Marked data blocks that no place holds are leaked.
\<close>

definition fs_ok :: "fs_h \<Rightarrow> img \<Rightarrow> bool" where
  "fs_ok h im \<longleftrightarrow> sb_ok im \<and>
     (\<forall>b < first_data im. bmbits im b) \<and>
     (\<forall>ip q. ref h im ip q \<noteq> 0 \<longrightarrow> valid_data_block im (ref h im ip q) \<and> bmbits im (unat (ref h im ip q))) \<and>
     (\<forall>ip q jp r. ref h im ip q = ref h im jp r \<longrightarrow> ref h im ip q \<noteq> 0 \<longrightarrow> ip = jp \<and> q = r)"

definition leaked :: "fs_h \<Rightarrow> img \<Rightarrow> u32 set" where
  "leaked h im = {b. valid_data_block im b \<and> bmbits im (unat b) \<and> (\<forall>ip q. ref h im ip q \<noteq> b)}"

lemma fs_okD:
  assumes "fs_ok h im"
  shows "sb_ok im" "ref h im ip q \<noteq> 0 \<Longrightarrow> valid_data_block im (ref h im ip q)"
    "ref h im ip q \<noteq> 0 \<Longrightarrow> bmbits im (unat (ref h im ip q))"
    "ref h im ip q = ref h im jp r \<Longrightarrow> ref h im ip q \<noteq> 0 \<Longrightarrow> ip = jp \<and> q = r"
    "d < first_data im \<Longrightarrow> bmbits im d"
  using assms unfolding fs_ok_def by blast+

lemma valid_data_block_upd [simp]:
  "valid_data_block (im\<lparr>blocks := m\<rparr>) = valid_data_block im" "valid_data_block (im\<lparr>bmbits := t\<rparr>) = valid_data_block im"
  "valid_data_block (upd_inode ip f im) = valid_data_block im"
  by (simp_all add: valid_data_block_def fun_eq_iff upd_inode_def)

lemma valid_data_block_sb:
  "sblk im' = sblk im \<Longrightarrow> valid_data_block im' = valid_data_block im"
  by (simp add: valid_data_block_def fun_eq_iff)

lemma sb_ok_sb: "sblk im' = sblk im \<Longrightarrow> sb_ok im' = sb_ok im" "sblk im' = sblk im \<Longrightarrow> first_data im' = first_data im"
  by (simp_all add: sb_ok_def first_data_def)

lemma first_data_upd [simp]:
  "first_data (im\<lparr>blocks := m\<rparr>) = first_data im" "first_data (im\<lparr>bmbits := t\<rparr>) = first_data im"
  "first_data (im\<lparr>inode := d\<rparr>) = first_data im" "first_data (upd_inode ip f im) = first_data im"
  by (simp_all add: first_data_def upd_inode_def)

text \<open>Entering a free block at one place keeps the image consistent.\<close>

lemma fs_ok_enter:
  assumes ok: "fs_ok h im" and b: "valid_data_block im b" "\<not> bmbits im (unat b)"
    and im': "sblk im' = sblk im" "bmbits im' = (bmbits im)(unat b := True)"
    and z: "ref h im ip q = 0"
    and refs: "\<And>jp r. ref h im' jp r = (if jp = ip \<and> r = q then b else ref h im jp r)"
  shows "fs_ok h im'"
proof -
  have nz: "b \<noteq> 0" by (rule valid_nz[OF fs_okD(1)[OF ok] b(1)])
  have nb: "ref h im jp r \<noteq> b" for jp r
    using fs_okD(3)[OF ok, of jp r] b(2) nz by (cases "ref h im jp r = b") auto
  have v: "valid_data_block im' = valid_data_block im" by (rule valid_data_block_sb[OF im'(1)])
  have "valid_data_block im' (ref h im' jp r) \<and> bmbits im' (unat (ref h im' jp r))" if "ref h im' jp r \<noteq> 0" for jp r
    using that fs_okD(2,3)[OF ok, of jp r] b(1) by (auto simp: v refs im'(2))
  moreover have "jp = kp \<and> r = t" if "ref h im' jp r = ref h im' kp t" "ref h im' jp r \<noteq> 0" for jp r kp t
    using that fs_okD(4)[OF ok, of jp r kp t] nb[of jp r] nb[of kp t] by (auto simp: refs split: if_splits)
  moreover have "bmbits im' c" if "c < first_data im" for c
    using fs_okD(5)[OF ok that] by (simp add: im'(2))
  ultimately show ?thesis
    using fs_okD(1)[OF ok] unfolding fs_ok_def v sb_ok_sb[OF im'(1)] im'(1) by blast
qed

lemma leaked_enter:
  assumes ok: "fs_ok h im" and b: "valid_data_block im b" "\<not> bmbits im (unat b)"
    and im': "sblk im' = sblk im" "bmbits im' = (bmbits im)(unat b := True)"
    and z: "ref h im ip q = 0"
    and refs: "\<And>jp r. ref h im' jp r = (if jp = ip \<and> r = q then b else ref h im jp r)"
  shows "leaked h im' = leaked h im"
proof -
  have v: "valid_data_block im' = valid_data_block im" by (rule valid_data_block_sb[OF im'(1)])
  have "c \<in> leaked h im' \<longleftrightarrow> c \<in> leaked h im" for c
  proof (cases "c = b")
    case True
    have "ref h im' ip q = b" by (simp add: refs)
    then show ?thesis using True b(2) by (auto simp: leaked_def)
  next
    case False
    have "(\<forall>jp r. ref h im' jp r \<noteq> c) \<longleftrightarrow> (\<forall>jp r. ref h im jp r \<noteq> c)" if "c \<noteq> 0"
      using that False z unfolding refs by metis
    then show ?thesis using False valid_nz[OF fs_okD(1)[OF ok], of c] by (auto simp: leaked_def v im'(2))
  qed
  then show ?thesis by blast
qed

section \<open>Words in blocks\<close>

lemma ld32_zero [simp]: "ld32 (\<lambda>_. 0) k = 0"
  by (simp add: ld32_def)

lemma bytes_of_word:
  "(ucast (ucast v :: u8) :: u32) OR push_bit 8 (ucast (ucast (drop_bit 8 v) :: u8))
    OR push_bit 16 (ucast (ucast (drop_bit 16 v) :: u8)) OR push_bit 24 (ucast (ucast (drop_bit 24 v) :: u8)) = v"
proof (rule bit_word_eqI)
  fix n assume "n < LENGTH(32)"
  then consider "n < 8" | "8 \<le> n" "n < 16" | "16 \<le> n" "n < 24" | "24 \<le> n" "n < 32" by fastforce
  then show "bit ((ucast (ucast v :: u8) :: u32) OR push_bit 8 (ucast (ucast (drop_bit 8 v) :: u8))
    OR push_bit 16 (ucast (ucast (drop_bit 16 v) :: u8)) OR push_bit 24 (ucast (ucast (drop_bit 24 v) :: u8))) n = bit v n"
    by cases (auto simp: bit_simps)
qed

lemma ld32_st32: "ld32 (st32 m k v) j = (if j = k then v else ld32 m j)"
proof (cases "j = k")
  case True
  then show ?thesis by (simp add: ld32_def st32_def bytes_of_word)
next
  case False
  then have "st32 m k v (4 * j + i) = m (4 * j + i)" if "i < 4" for i
    using that by (auto simp: st32_def)
  from this[of 0] this[of 1] this[of 2] this[of 3] False show ?thesis by (simp add: ld32_def)
qed

section \<open>The bytes of a file\<close>

text \<open>
  Byte \<open>k\<close> of a file, as the blocks hold it; a block that is not allocated counts as zero. And the rest of an inode.
\<close>

definition byte :: "fs_h \<Rightarrow> img \<Rightarrow> nat \<Rightarrow> nat \<Rightarrow> u8" where
  "byte h im ip k =
     (let b = ref h im ip (Data (k div BSIZE)) in if b = 0 then 0 else blocks im (unat b) (k mod BSIZE))"

definition meta :: "dinode \<Rightarrow> u16 \<times> u16 \<times> u16 \<times> u16 \<times> u32" where
  "meta d = (d_type d, d_major d, d_minor d, d_nlink d, d_size d)"

text \<open>Two images with the same files.\<close>

definition same_files :: "fs_h \<Rightarrow> img \<Rightarrow> img \<Rightarrow> bool" where
  "same_files h im im' \<longleftrightarrow> sblk im' = sblk im \<and> (\<forall>ip. meta (inode im' ip) = meta (inode im ip)) \<and>
     (\<forall>ip k. byte h im' ip k = byte h im ip k) \<and> leaked h im' = leaked h im"

lemma same_files_refl [simp]: "same_files h im im"
  by (simp add: same_files_def)

lemma same_files_trans: "same_files h a b \<Longrightarrow> same_files h b c \<Longrightarrow> same_files h a c"
  by (simp add: same_files_def)

lemma same_filesD:
  assumes "same_files h im im'"
  shows "sblk im' = sblk im" "byte h im' ip k = byte h im ip k" "d_type (inode im' ip) = d_type (inode im ip)"
    "d_size (inode im' ip) = d_size (inode im ip)" "valid_data_block im' = valid_data_block im"
    "d_nlink (inode im' ip) = d_nlink (inode im ip)"
  using assms by (auto simp: same_files_def meta_def intro!: valid_data_block_sb)

text \<open>Filling a block that no place refers to.\<close>

lemma ref_free_block:
  assumes "fs_ok h im" "\<not> bmbits im b"
  shows "ref h (im\<lparr>blocks := (blocks im)(b := m)\<rparr>) ip q = ref h im ip q"
proof -
  have "addrs (inode im ip) NDIRECT \<noteq> 0 \<Longrightarrow> unat (addrs (inode im ip) NDIRECT) \<noteq> b"
    using fs_okD(3)[OF assms(1), of ip Ind] assms(2) by (auto simp: ref_def)
  then show ?thesis by (auto simp: ref_def split: slot.splits)
qed

lemma byte_free_block:
  assumes "fs_ok h im" "\<not> bmbits im b"
  shows "byte h (im\<lparr>blocks := (blocks im)(b := m)\<rparr>) ip k = byte h im ip k"
  using fs_okD(3)[OF assms(1), of ip "Data (k div BSIZE)"] assms(2)
  by (auto simp: byte_def Let_def ref_free_block[OF assms])

lemma ref_bmbits [simp]: "ref h (im\<lparr>bmbits := t\<rparr>) = ref h im"
  by (simp add: fun_eq_iff ref_def split: slot.splits)

lemma byte_bmbits [simp]: "byte h (im\<lparr>bmbits := t\<rparr>) = byte h im"
  by (simp add: fun_eq_iff byte_def Let_def)

text \<open>The state after \<open>balloc\<close> has returned block \<open>b\<close>.\<close>

definition taken :: "u32 \<Rightarrow> img \<Rightarrow> img" where
  "taken b im = im\<lparr>bmbits := (bmbits im)(unat b := True), blocks := (blocks im)(unat b := (\<lambda>_. 0))\<rparr>"

lemma taken_simps [simp]:
  "sblk (taken b im) = sblk im" "first_data (taken b im) = first_data im" "inode (taken b im) = inode im" "bmbits (taken b im) = (bmbits im)(unat b := True)"
  "blocks (taken b im) = (blocks im)(unat b := (\<lambda>_. 0))" "valid_data_block (taken b im) = valid_data_block im"
  by (simp_all add: taken_def valid_data_block_def fun_eq_iff first_data_def)

lemma ref_taken:
  assumes "fs_ok h im" "\<not> bmbits im (unat b)"
  shows "ref h (taken b im) ip q = ref h im ip q" "byte h (taken b im) ip k = byte h im ip k"
proof -
  have t: "taken b im = im\<lparr>blocks := (blocks im)(unat b := (\<lambda>_. 0))\<rparr>\<lparr>bmbits := (bmbits im)(unat b := True)\<rparr>"
    by (simp add: taken_def)
  show "ref h (taken b im) ip q = ref h im ip q" "byte h (taken b im) ip k = byte h im ip k"
    unfolding t by (simp_all only: ref_bmbits byte_bmbits ref_free_block[OF assms] byte_free_block[OF assms])
qed

text \<open>Entering the block at place \<open>q\<close> of file \<open>ip\<close>, where nothing was: the bytes of all files stay.\<close>

lemma enter_same_files:
  assumes ok: "fs_ok h im" and b: "valid_data_block im b" "\<not> bmbits im (unat b)" "b \<noteq> 0"
    and z: "ref h im ip q = 0"
    and im': "sblk im' = sblk im" "bmbits im' = (bmbits im)(unat b := True)"
      "\<And>jp. meta (inode im' jp) = meta (inode im jp)"
      "\<And>c. c \<noteq> 0 \<Longrightarrow> (\<exists>jp n. c = ref h im jp (Data n)) \<or> c = b \<Longrightarrow> blocks im' (unat c) = blocks (taken b im) (unat c)"
    and refs: "\<And>jp r. ref h im' jp r = (if jp = ip \<and> r = q then b else ref h im jp r)"
  shows "fs_ok h im' \<and> same_files h im im'"
proof
  show "fs_ok h im'" by (rule fs_ok_enter[OF ok b(1,2) im'(1,2) z refs])
  have "byte h im' jp k = byte h im jp k" for jp k
  proof (cases "jp = ip \<and> Data (k div BSIZE) = q")
    case True
    then show ?thesis using z refs[of jp "Data (k div BSIZE)"] im'(4)[of b] b(3) by (auto simp: byte_def Let_def)
  next
    case False
    let ?c = "ref h im jp (Data (k div BSIZE))"
    have c: "ref h im' jp (Data (k div BSIZE)) = ?c" using refs False by auto
    have "?c \<noteq> 0 \<Longrightarrow> ?c \<noteq> b" using fs_okD(3)[OF ok, of jp "Data (k div BSIZE)"] b(2) by auto
    moreover have "\<exists>kp n. ?c = ref h im kp (Data n)" by blast
    ultimately show ?thesis using im'(4)[of ?c] by (auto simp: byte_def c Let_def)
  qed
  then show "same_files h im im'" using im'(1,3) leaked_enter[OF ok b(1,2) im'(1,2) z refs] by (simp add: same_files_def)
qed

section \<open>Looking up a block\<close>

definition enter :: "nat \<Rightarrow> nat \<Rightarrow> u32 \<Rightarrow> img \<Rightarrow> img" where
  "enter ip i b im = upd_inode ip (\<lambda>d. d\<lparr>addrs := (addrs d)(i := b)\<rparr>) (taken b im)"

definition place :: "nat \<Rightarrow> slot" where
  "place i = (if i < NDIRECT then Data i else Ind)"

lemma enter_field:
  assumes ok: "fs_ok h im" and b: "valid_data_block im b" "\<not> bmbits im (unat b)" "b \<noteq> 0"
    and i: "i \<le> NDIRECT" "addrs (inode im ip) i = 0"
  shows "fs_ok h (enter ip i b im)" "same_files h im (enter ip i b im)"
    "ref h (enter ip i b im) jp r = (if jp = ip \<and> r = place i then b else ref h im jp r)"
proof -
  have nb: "addrs (inode im jp) NDIRECT \<noteq> 0 \<Longrightarrow> addrs (inode im jp) NDIRECT \<noteq> b" for jp
    using fs_okD(3)[OF ok, of jp Ind] b(2) by (auto simp: ref_def)
  have refs: "ref h (enter ip i b im) jp r = (if jp = ip \<and> r = place i then b else ref h im jp r)" for jp r
    using i b(3) nb[of jp] by (auto simp: ref_def enter_def upd_inode_def place_def split: slot.splits)
  have z: "ref h im ip (place i) = 0" using i by (auto simp: ref_def place_def)
  have "fs_ok h (enter ip i b im) \<and> same_files h im (enter ip i b im)"
    by (rule enter_same_files[OF ok b z _ _ _ _ refs]) (auto simp: enter_def upd_inode_def meta_def)
  then show "fs_ok h (enter ip i b im)" "same_files h im (enter ip i b im)"
    "ref h (enter ip i b im) jp r = (if jp = ip \<and> r = place i then b else ref h im jp r)"
    using refs by auto
qed

definition enter_ind :: "u32 \<Rightarrow> nat \<Rightarrow> u32 \<Rightarrow> img \<Rightarrow> img" where
  "enter_ind a k b im = (taken b im)\<lparr>blocks := (blocks (taken b im))(unat a := st32 (blocks (taken b im) (unat a)) k b)\<rparr>"

lemma enter_indirect:
  assumes ok: "fs_ok h im" and b: "valid_data_block im b" "\<not> bmbits im (unat b)" "b \<noteq> 0"
    and a: "a = addrs (inode im ip) NDIRECT" "a \<noteq> 0" and k: "k < NINDIRECT h" "ld32 (blocks im (unat a)) k = 0"
  shows "fs_ok h (enter_ind a k b im)" "same_files h im (enter_ind a k b im)"
    "ref h (enter_ind a k b im) jp r = (if jp = ip \<and> r = Data (NDIRECT + k) then b else ref h im jp r)"
proof -
  have nb: "addrs (inode im jp) NDIRECT \<noteq> 0 \<Longrightarrow> addrs (inode im jp) NDIRECT \<noteq> b" for jp
    using fs_okD(3)[OF ok, of jp Ind] b(2) by (auto simp: ref_def)
  have own: "addrs (inode im jp) NDIRECT = a \<Longrightarrow> jp = ip" for jp
    using fs_okD(4)[OF ok, of jp Ind ip Ind] a by (auto simp: ref_def)
  have data: "ref h im jp (Data n) \<noteq> a" for jp n
    using fs_okD(4)[OF ok, of jp "Data n" ip Ind] a by (auto simp: ref_def[of h im ip Ind])
  have refs: "ref h (enter_ind a k b im) jp r = (if jp = ip \<and> r = Data (NDIRECT + k) then b else ref h im jp r)" for jp r
    using a(2) k b(3) nb[of jp] own[of jp] a(1)
    by (auto simp: ref_def enter_ind_def ld32_st32 split: slot.splits)
  have z: "ref h im ip (Data (NDIRECT + k)) = 0" using a k by (auto simp: ref_def)
  have ba: "b \<noteq> a" using nb[of ip] a by auto
  have "fs_ok h (enter_ind a k b im) \<and> same_files h im (enter_ind a k b im)"
    by (rule enter_same_files[OF ok b z _ _ _ _ refs]) (use data ba in \<open>auto simp: enter_ind_def\<close>)
  then show "fs_ok h (enter_ind a k b im)" "same_files h im (enter_ind a k b im)"
    "ref h (enter_ind a k b im) jp r = (if jp = ip \<and> r = Data (NDIRECT + k) then b else ref h im jp r)"
    using refs by auto
qed


text \<open>
  The tool stops because it finds no free data block: the bitmap is full, or the first clear bit is one of a block
  behind the data blocks.
\<close>

definition no_space :: "'a kres \<Rightarrow> bool" where
  "no_space m \<longleftrightarrow> m = halt (Panic ''balloc: no free blocks'') \<or> m = halt (Panic ''balloc: invalid data block number'')"

lemma no_space_simps [simp]: "no_space m \<Longrightarrow> no_space (kbind m f)" "\<not> no_space (ret x)"
  by (auto simp: no_space_def)

text \<open>The places in use, and those that block \<open>n\<close> of a file needs.\<close>

definition used :: "fs_h \<Rightarrow> img \<Rightarrow> (nat \<times> slot) set" where
  "used h im = {(jp, r). ref h im jp r \<noteq> 0}"

definition slots :: "nat \<Rightarrow> slot set" where
  "slots n = (if NDIRECT \<le> n then {Data n, Ind} else {Data n})"

text \<open>The number of free blocks, and of those that a file needs in addition to get all of \<open>S\<close>.\<close>

definition free_blocks :: "img \<Rightarrow> nat set" where
  "free_blocks im = {b. first_data im \<le> b \<and> b < first_data im + unat (sb_nblocks (sblk im)) \<and> \<not> bmbits im b}"

definition lacks :: "fs_h \<Rightarrow> img \<Rightarrow> nat \<Rightarrow> slot set \<Rightarrow> nat" where
  "lacks h im ip S = card (Pair ip ` S - used h im)"

lemma lacks_Un:
  assumes "finite A" "finite B" "used h im1 = Pair ip ` A \<union> used h im"
  shows "lacks h im ip (A \<union> B) = lacks h im ip A + lacks h im1 ip B"
proof -
  have "Pair ip ` (A \<union> B) - used h im = (Pair ip ` A - used h im) \<union> (Pair ip ` B - used h im1)"
    using assms(3) by auto
  then show ?thesis using assms by (auto simp: lacks_def intro!: card_Un_disjoint)
qed

lemma lacks_single: "lacks h im ip {q} = (if ref h im ip q = 0 then 1 else 0)"
  by (simp add: lacks_def used_def insert_Diff_if)

lemma lacks_mono: "finite B \<Longrightarrow> A \<subseteq> B \<Longrightarrow> lacks h im ip A \<le> lacks h im ip B"
  by (auto simp: lacks_def intro: card_mono)

lemma free_taken:
  assumes "sb_ok im" "valid_data_block im b" "\<not> bmbits im (unat b)" "sblk im' = sblk im" "bmbits im' = (bmbits im)(unat b := True)"
  shows "card (free_blocks im) = Suc (card (free_blocks im'))"
proof -
  have "unat b \<in> free_blocks im" using assms(1-3) by (auto simp: free_blocks_def valid_data_block_iff)
  moreover have "free_blocks im' = free_blocks im - {unat b}" using assms(4,5) by (auto simp: free_blocks_def sb_ok_sb(2)[OF assms(4)])
  moreover have "finite (free_blocks im)" by (simp add: free_blocks_def)
  ultimately show ?thesis using card.remove[of "free_blocks im" "unat b"] by simp
qed

lemma balloc_got:
  assumes ok: "fs_ok h im"
  obtains (full) "no_space (balloc im)" "card (free_blocks im) = 0"
  | (got) b where "balloc im = ret (b, taken b im)" "valid_data_block im b" "\<not> bmbits im (unat b)" "b \<noteq> 0"
proof -
  note sb = fs_okD(1)[OF ok]
  have lim: "first_data im + unat (sb_nblocks (sblk im)) \<le> unat (sb_size (sblk im))" using sb by (simp add: sb_ok_def)
  show ?thesis
  proof (cases "balloc_blocks im 0")
    case None
    then have "bmbits im b" if "b < unat (sb_size (sblk im))" for b
      using that by (auto simp: balloc_blocks_find find_None_iff)
    then have "free_blocks im = {}" using lim by (auto simp: free_blocks_def)
    then show ?thesis using None full by (simp add: balloc_def no_space_def)
  next
    case (Some c)
    then have c: "c < unat (sb_size (sblk im))" "\<not> bmbits im c" "\<And>b. b < c \<Longrightarrow> bmbits im b"
      by (auto simp: balloc_blocks_find find_Some_iff)
    have u: "unat (of_nat c :: u32) = c"
      using c(1) unsigned_less[of "sb_size (sblk im)", where 'a = nat] by (simp add: unat_of_nat)
    show ?thesis
    proof (cases "valid_data_block im (of_nat c)")
      case True
      then show ?thesis
        by (intro got[of "of_nat c"]) (use Some c(2) u valid_nz[OF sb True] in \<open>simp_all add: balloc_def taken_def Let_def\<close>)
    next
      case False
      then have "first_data im + unat (sb_nblocks (sblk im)) \<le> c"
        using fs_okD(5)[OF ok, of c] c(2) by (auto simp: valid_data_block_iff[OF sb] u)
      then have "free_blocks im = {}" using c(3) by (auto simp: free_blocks_def)
      then show ?thesis using Some False full by (simp add: balloc_def no_space_def Let_def)
    qed
  qed
qed

text \<open>The direct entry \<open>i\<close>, or the indirect block for \<open>i = NDIRECT\<close>, allocated when it is missing.\<close>

definition field :: "img \<Rightarrow> nat \<Rightarrow> nat \<Rightarrow> (u32 \<times> img) kres" where
  "field im ip i =
     (let a = addrs (inode im ip) i in
      if a = 0 then kbind (balloc im) (\<lambda>(a, im). ret (a, upd_inode ip (\<lambda>d. d\<lparr>addrs := (addrs d)(i := a)\<rparr>) im))
      else ret (a, im))"

lemma field_cases:
  assumes ok: "fs_ok h im" and i: "i \<le> NDIRECT"
  obtains (full) "no_space (field im ip i)" "card (free_blocks im) < lacks h im ip {place i}"
  | (got) b im' where "field im ip i = ret (b, im')" "fs_ok h im'" "same_files h im im'" "b \<noteq> 0"
      "ref h im' ip (place i) = b" "addrs (inode im' ip) i = b" "used h im' = Pair ip ` {place i} \<union> used h im"
      "card (free_blocks im) = lacks h im ip {place i} + card (free_blocks im')"
proof (cases "addrs (inode im ip) i = 0")
  case z: True
  have r: "ref h im ip (place i) = 0" using z i by (auto simp: ref_def place_def)
  show ?thesis
  proof (cases rule: balloc_got[OF ok])
    case 1
    then show ?thesis using full z r by (simp add: field_def lacks_single)
  next
    case (2 b)
    have "field im ip i = ret (b, enter ip i b im)" using z 2(1) by (simp add: field_def enter_def)
    moreover have "addrs (inode (enter ip i b im) ip) i = b" by (simp add: enter_def upd_inode_def)
    moreover have "card (free_blocks im) = Suc (card (free_blocks (enter ip i b im)))"
      by (rule free_taken[OF fs_okD(1)[OF ok] 2(2,3)]) (simp_all add: enter_def upd_inode_def)
    ultimately show ?thesis using enter_field[OF ok 2(2-4) i z] 2(4) r
      by (intro got[of b "enter ip i b im"]) (auto simp: used_def lacks_single)
  qed
next
  case False
  then show ?thesis using ok i by (intro got[of "addrs (inode im ip) i" im]) (auto simp: field_def ref_def place_def used_def lacks_single)
qed

lemma bmap_field:
  "bmap h im ip n =
     (if n < NDIRECT then field im ip n
      else if n - NDIRECT \<ge> NINDIRECT h then ret (0, im)
      else kbind (field im ip NDIRECT) (\<lambda>(iaddr, im).
        kbind (need_block im iaddr) (\<lambda>_.
          let v = ld32 (blocks im (unat iaddr)) (n - NDIRECT) in
          if v = 0 then
            kbind (balloc im) (\<lambda>(v, im).
              ret (v, im\<lparr>blocks := (blocks im)(unat iaddr := st32 (blocks im (unat iaddr)) (n - NDIRECT) v)\<rparr>))
          else ret (v, im))))"
  by (simp add: bmap_def field_def Let_def)

lemma bmap_cases:
  assumes ok: "fs_ok h im" and n: "n < NDIRECT + NINDIRECT h"
  obtains (full) "no_space (bmap h im ip n)" "card (free_blocks im) < lacks h im ip (slots n)"
  | (got) b im' where "bmap h im ip n = ret (b, im')" "fs_ok h im'" "same_files h im im'" "b \<noteq> 0"
      "ref h im' ip (Data n) = b" "used h im' = Pair ip ` slots n \<union> used h im"
      "card (free_blocks im) = lacks h im ip (slots n) + card (free_blocks im')"
proof (cases "n < NDIRECT")
  case True
  then show ?thesis using full got by (cases rule: field_cases[OF ok, of n ip]) (auto simp: bmap_field place_def slots_def)
next
  case False
  let ?k = "n - NDIRECT"
  have k: "?k < NINDIRECT h" "NDIRECT + ?k = n" using n False by auto
  show ?thesis
  proof (cases rule: field_cases[OF ok, of NDIRECT ip])
    case 2
    then have "card (free_blocks im) < lacks h im ip (slots n)"
      using lacks_mono[of "slots n" "{place NDIRECT}" h im ip] False by (simp add: slots_def place_def)
    then show ?thesis using full False k 2(1) by (simp add: bmap_field)
  next
    case (3 a im1)
    have lk: "lacks h im ip (slots n) = lacks h im ip {place NDIRECT} + lacks h im1 ip {Data n}"
      using lacks_Un[OF _ _ 3(7), of "{Data n}"] False by (simp add: slots_def place_def insert_commute)
    have rn: "ref h im1 ip (Data n) = ld32 (blocks im1 (unat a)) ?k" using 3(4,6) False n by (simp add: ref_def)
    have v: "need_block im1 a = ret ()"
      using fs_okD(2)[OF 3(2), of ip Ind] 3(4,6) by (auto simp: need_block_def ref_def)
    show ?thesis
    proof (cases "ld32 (blocks im1 (unat a)) ?k = 0")
      case z: True
      show ?thesis
      proof (cases rule: balloc_got[OF 3(2)])
        case 1
        then show ?thesis using full False k 3(1,8) v z lk rn by (simp add: bmap_field lacks_single)
      next
        case (2 b)
        have "bmap h im ip n = ret (b, enter_ind a ?k b im1)"
          using False k 3(1) v z 2(1) by (simp add: bmap_field enter_ind_def)
        moreover note e = enter_indirect[OF 3(2) 2(2-4) 3(6)[symmetric] 3(4) k(1) z]
        moreover have "card (free_blocks im1) = Suc (card (free_blocks (enter_ind a ?k b im1)))"
          by (rule free_taken[OF fs_okD(1)[OF 3(2)] 2(2,3)]) (simp_all add: enter_ind_def)
        moreover have "{(jp, r). ref h (enter_ind a ?k b im1) jp r \<noteq> 0} = insert (ip, Data n) (used h im1)"
          using e(3) k(2) 2(4) by (auto simp: used_def)
        ultimately show ?thesis using same_files_trans[OF 3(3) e(2)] 2(4) 3(7,8) k(2) False lk rn z
          by (intro got[of b "enter_ind a ?k b im1"]) (auto simp: e(3) used_def[of h "enter_ind a ?k b im1"] slots_def place_def lacks_single)
      qed
    next
      case nz: False
      then have "bmap h im ip n = ret (ld32 (blocks im1 (unat a)) ?k, im1)"
        using False k 3(1) v by (simp add: bmap_field)
      moreover have "(ip, Data n) \<in> used h im1" using nz rn by (simp add: used_def)
      ultimately show ?thesis using 3 nz False lk rn
        by (intro got[of "ld32 (blocks im1 (unat a)) ?k" im1]) (auto simp: slots_def place_def lacks_single)
    qed
  qed simp
qed


section \<open>Reading and writing files\<close>

lemma chunk_div [simp]:
  "j < chunk r off \<Longrightarrow> (off + j) div BSIZE = off div BSIZE" "j < chunk r off \<Longrightarrow> (off + j) mod BSIZE = off mod BSIZE + j"
proof -
  assume "j < chunk r off"
  then have lt: "off mod BSIZE + j < BSIZE" using chunk_pos(3)[of off r] by linarith
  have e: "off + j = off div BSIZE * BSIZE + (off mod BSIZE + j)" by simp
  show "(off + j) div BSIZE = off div BSIZE" by (subst e) (use lt in \<open>simp only: div_mult_self3 div_less; simp\<close>)
  show "(off + j) mod BSIZE = off mod BSIZE + j" by (subst e) (use lt in \<open>simp only: mod_mult_self3 mod_less\<close>)
qed

definition max_size :: "fs_h \<Rightarrow> nat" where
  "max_size h = (NDIRECT + NINDIRECT h) * BSIZE"

lemma in_file:
  assumes "off + r \<le> max_size h" "0 < r"
  shows "off div BSIZE < NDIRECT + NINDIRECT h"
proof -
  have "off < (NDIRECT + NINDIRECT h) * BSIZE" using assms by (simp add: max_size_def)
  then show ?thesis by (rule less_mult_imp_div_less)
qed

text \<open>The bytes of the block at \<open>off\<close> are bytes of the file.\<close>

lemma byte_chunk:
  assumes "ref h im ip (Data (off div BSIZE)) = b" "b \<noteq> 0"
  shows "map (\<lambda>j. blocks im (unat b) (off mod BSIZE + j)) [0..<chunk r off] = map (byte h im ip) [off..<off + chunk r off]"
proof -
  have "[off..<off + chunk r off] = map (\<lambda>j. off + j) [0..<chunk r off]" by (simp add: map_add_upt add.commute)
  then show ?thesis using assms by (simp add: byte_def Let_def)
qed

text \<open>The places that the bytes from \<open>off\<close> on need.\<close>

definition span :: "nat \<Rightarrow> nat \<Rightarrow> slot set" where
  "span off l = (\<Union>k\<in>{off..<off + l}. slots (k div BSIZE))"

lemma span_chunk:
  assumes "0 < r"
  shows "span off r = slots (off div BSIZE) \<union> span (off + chunk r off) (r - chunk r off)"
proof -
  have "{off..<off + r} = {off..<off + chunk r off} \<union> {off + chunk r off..<off + chunk r off + (r - chunk r off)}"
    using chunk_pos(2)[of r off] by (auto simp del: chunk_pos)
  moreover have "{off..<off + chunk r off} = (\<lambda>j. off + j) ` {0..<chunk r off}" by (simp add: add.commute)
  ultimately show ?thesis using assms by (auto simp: span_def image_iff simp del: image_add_atLeastLessThan)
qed

lemma bmap_present:
  assumes "fs_ok h im" "ref h im ip (Data n) \<noteq> 0"
  shows "bmap h im ip n = ret (ref h im ip (Data n), im)"
  using assms(2) fs_okD(2)[OF assms(1), of ip Ind]
  by (auto simp: bmap_field field_def need_block_def ref_def split: if_splits)

lemma iread_loop_spec:
  assumes "fs_ok h im" "\<forall>n. Data n \<in> span off r \<longrightarrow> ref h im ip (Data n) \<noteq> 0" "r < 2 ^ 31"
  shows "iread_loop h im ip r off = ret (map (byte h im ip) [off..<off + r], im)"
  using assms(2,3)
proof (induction r arbitrary: off rule: less_induct)
  case (less r)
  show ?case
  proof (cases "r = 0")
    case True
    then show ?thesis by (simp add: iread_loop.simps)
  next
    case False
    let ?m = "chunk r off"
    let ?b = "ref h im ip (Data (off div BSIZE))"
    from False have sp: "span off r = slots (off div BSIZE) \<union> span (off + ?m) (r - ?m)" by (simp add: span_chunk)
    have b: "?b \<noteq> 0" using less.prems(1) by (simp add: sp slots_def split: if_splits)
    have "iread_loop h im ip (r - ?m) (off + ?m) = ret (map (byte h im ip) [off + ?m..<off + ?m + (r - ?m)], im)"
      using less.prems False by (intro less.IH) (auto simp: sp)
    moreover have "[off..<off + r] = [off..<off + ?m] @ [off + ?m..<off + r]"
      using upt_add_eq_append[of off "off + ?m" "r - ?m"] by simp
    ultimately show ?thesis
      using False less.prems(2) b fs_okD(2)[OF assms(1) b] bmap_present[OF assms(1) b] byte_chunk[OF refl b]
      by (subst iread_loop.simps) (simp add: Let_def)
  qed
qed

text \<open>Filling part of a block of a file: the numbers stay, and so does every byte outside of it.\<close>

definition patch :: "nat \<Rightarrow> nat \<Rightarrow> u8 list \<Rightarrow> (nat \<Rightarrow> nat \<Rightarrow> u8) \<Rightarrow> nat \<Rightarrow> nat \<Rightarrow> u8" where
  "patch ip off bs f jp k = (if jp = ip \<and> off \<le> k \<and> k < off + length bs then bs ! (k - off) else f jp k)"

lemma fill_block:
  assumes ok: "fs_ok h im" and b: "ref h im ip (Data n) = b" "b \<noteq> 0"
    and im'_def: "im' = im\<lparr>blocks := (blocks im)(unat b := m)\<rparr>"
  shows "ref h im' jp r = ref h im jp r" "fs_ok h im'" "sblk im' = sblk im" "inode im' = inode im" "leaked h im' = leaked h im"
    "byte h im' jp k = (if jp = ip \<and> k div BSIZE = n then m (k mod BSIZE) else byte h im jp k)"
proof -
  have "addrs (inode im jp) NDIRECT \<noteq> b" for jp
    using fs_okD(4)[OF ok, of ip "Data n" jp Ind] b by (auto simp: ref_def[of h im jp Ind])
  then have r: "ref h im' jp r = ref h im jp r" for jp r by (auto simp: ref_def im'_def split: slot.splits)
  then show "ref h im' jp r = ref h im jp r" .
  have "fs_ok h im' = fs_ok h im" unfolding fs_ok_def r by (simp add: im'_def sb_ok_def first_data_def)
  then show "fs_ok h im'" using ok by simp
  show "sblk im' = sblk im" "inode im' = inode im" by (simp_all add: im'_def)
  show "leaked h im' = leaked h im" unfolding leaked_def r by (simp add: im'_def)
  show "byte h im' jp k = (if jp = ip \<and> k div BSIZE = n then m (k mod BSIZE) else byte h im jp k)"
  proof (cases "jp = ip \<and> k div BSIZE = n")
    case True
    then show ?thesis using b by (simp add: byte_def r Let_def) (simp add: im'_def)
  next
    case False
    then have "ref h im jp (Data (k div BSIZE)) \<noteq> b"
      using fs_okD(4)[OF ok, of jp "Data (k div BSIZE)" ip "Data n"] b by auto
    then have "byte h im' jp k = byte h im jp k" by (simp add: byte_def r Let_def) (simp add: im'_def)
    with False show ?thesis by auto
  qed
qed


lemma patch_Nil [simp]: "patch ip off [] f = f"
  by (auto simp: fun_eq_iff patch_def)

lemma patch_append: "patch ip (off + length xs) ys (patch ip off xs f) = patch ip off (xs @ ys) f"
  by (auto simp: fun_eq_iff patch_def nth_append)

lemma patch_block:
  assumes "fs_ok h im" "ref h im ip (Data (off div BSIZE)) = b" "b \<noteq> 0" "length bs = chunk r off"
    and im': "im' = im\<lparr>blocks := (blocks im)(unat b := put_bytes (blocks im (unat b)) (off mod BSIZE) bs)\<rparr>"
  shows "byte h im' = patch ip off bs (byte h im)"
proof (rule ext, rule ext)
  fix jp k
  note f = fill_block(6)[OF assms(1-3) im', of jp k]
  show "byte h im' jp k = patch ip off bs (byte h im) jp k"
  proof (cases "jp = ip \<and> k div BSIZE = off div BSIZE")
    case True
    have "k = off div BSIZE * BSIZE + k mod BSIZE" "off = off div BSIZE * BSIZE + off mod BSIZE"
      using True div_mod_decomp[of k BSIZE] div_mod_decomp[of off BSIZE] by auto
    then have k: "off \<le> k \<and> k < off + length bs \<longleftrightarrow> off mod BSIZE \<le> k mod BSIZE \<and> k mod BSIZE < off mod BSIZE + length bs"
      "k mod BSIZE - off mod BSIZE = k - off"
      by linarith+
    show ?thesis using True f k assms(2,3) by (auto simp: put_bytes_def patch_def byte_def)
  next
    case False
    have "\<not> (off \<le> k \<and> k < off + length bs)" if "jp = ip"
    proof
      assume k: "off \<le> k \<and> k < off + length bs"
      then have "(off + (k - off)) div BSIZE = off div BSIZE" using assms(4) by (intro chunk_div(1)[where r = r]) auto
      then show False using k False that by simp
    qed
    then show ?thesis using False f by (auto simp: patch_def)
  qed
qed

definition written :: "fs_h \<Rightarrow> nat \<Rightarrow> nat \<Rightarrow> u8 list \<Rightarrow> img \<Rightarrow> img \<Rightarrow> bool" where
  "written h ip off bs im im' \<longleftrightarrow> fs_ok h im' \<and> sblk im' = sblk im \<and> (\<forall>jp. meta (inode im' jp) = meta (inode im jp)) \<and>
     byte h im' = patch ip off bs (byte h im) \<and> leaked h im' = leaked h im"

lemma written_same: "same_files h im im1 \<Longrightarrow> written h ip off bs im1 im' \<Longrightarrow> written h ip off bs im im'"
  by (auto simp: same_files_def written_def patch_def fun_eq_iff)

lemma written_append:
  "written h ip off xs im im1 \<Longrightarrow> written h ip (off + length xs) ys im1 im' \<Longrightarrow> written h ip off (xs @ ys) im im'"
  by (simp add: written_def patch_append)

lemma finite_slots [simp]: "finite (slots n)" "finite (span off l)"
  by (auto simp: slots_def span_def)

lemma iwrite_loop_spec:
  assumes "fs_ok h im" "off + length buf \<le> max_size h" "length buf < 2 ^ 31"
  shows "if card (free_blocks im) < lacks h im ip (span off (length buf)) then no_space (iwrite_loop h im ip buf off)
    else \<exists>im'. iwrite_loop h im ip buf off = ret (length buf, im') \<and> written h ip off buf im im' \<and>
      used h im' = Pair ip ` span off (length buf) \<union> used h im"
  using assms
proof (induction "length buf" arbitrary: im off buf rule: less_induct)
  case less
  show ?case
  proof (cases "buf = []")
    case True
    then show ?thesis using less.prems by (simp add: iwrite_loop.simps written_def span_def lacks_def)
  next
    case False
    define m where "m = chunk (length buf) off"
    let ?rest = "span (off + m) (length (drop m buf))"
    have m: "m \<le> length buf" "0 < m" using False by (auto simp: m_def)
    have n: "off div BSIZE < NDIRECT + NINDIRECT h" using less.prems(2) False by (intro in_file) auto
    have sp: "span off (length buf) = slots (off div BSIZE) \<union> ?rest" using False by (simp add: span_chunk m_def)
    show ?thesis
    proof (cases rule: bmap_cases[OF less.prems(1) n, of ip])
      case 1
      then show ?thesis using False less.prems(3) lacks_mono[of "span off (length buf)" "slots (off div BSIZE)" h im ip]
        by (simp add: iwrite_loop.simps sp)
    next
      case (2 b im1)
      have v: "valid_data_block im1 b" using fs_okD(2)[OF 2(2), of ip "Data (off div BSIZE)"] 2(4,5) by auto
      define im2 where "im2 = im1\<lparr>blocks := (blocks im1)(unat b := put_bytes (blocks im1 (unat b)) (off mod BSIZE) (take m buf))\<rparr>"
      have "length (take m buf) = chunk (length buf) off" using m by (simp add: m_def)
      from patch_block[OF 2(2,5,4) this im2_def] fill_block(2-5)[OF 2(2,5,4) im2_def]
      have w: "written h ip off (take m buf) im1 im2" by (simp add: written_def)
      have u2: "used h im2 = used h im1" using fill_block(1)[OF 2(2,5,4) im2_def] by (simp add: used_def)
      have f2: "free_blocks im2 = free_blocks im1" by (simp add: im2_def free_blocks_def)
      have lk: "lacks h im ip (span off (length buf)) = lacks h im ip (slots (off div BSIZE)) + lacks h im2 ip ?rest"
        unfolding sp by (rule lacks_Un) (simp_all add: u2 2(6))
      have "if card (free_blocks im2) < lacks h im2 ip ?rest then no_space (iwrite_loop h im2 ip (drop m buf) (off + m))
        else \<exists>im'. iwrite_loop h im2 ip (drop m buf) (off + m) = ret (length (drop m buf), im') \<and>
           written h ip (off + m) (drop m buf) im2 im' \<and> used h im' = Pair ip ` ?rest \<union> used h im2"
        by (rule less.hyps) (use w m less.prems False in \<open>auto simp: written_def\<close>)
      moreover have "iwrite_loop h im ip buf off =
          kbind (iwrite_loop h im2 ip (drop m buf) (off + m)) (\<lambda>(t, im'). ret (m + t, im'))"
        using False less.prems(3) 2(1) v by (subst iwrite_loop.simps) (simp add: Let_def m_def im2_def)
      moreover have "written h ip off buf im im'" if "written h ip (off + m) (drop m buf) im2 im'" for im'
        using written_same[OF 2(3) written_append[OF w, of "drop m buf" im']] that m by simp
      moreover have "card (free_blocks im) < lacks h im ip (span off (length buf)) \<longleftrightarrow> card (free_blocks im2) < lacks h im2 ip ?rest"
        using lk 2(7) f2 by simp
      moreover have "Pair ip ` span off (length buf) \<union> used h im = Pair ip ` ?rest \<union> used h im2"
        by (simp add: sp u2 2(6) image_Un Un_ac)
      ultimately show ?thesis using m by (cases "card (free_blocks im2) < lacks h im2 ip ?rest") auto
    qed
  qed
qed


section \<open>Files as lists of bytes\<close>

text \<open>
  A well-formed image: consistent, no file too large, and each file has exactly the blocks that its
  size needs. Its abstraction gives the bytes of each file.
\<close>

definition fsize :: "img \<Rightarrow> nat \<Rightarrow> nat" where
  "fsize im ip = unat (d_size (inode im ip))"

definition img_ok :: "fs_h \<Rightarrow> img \<Rightarrow> bool" where
  "img_ok h im \<longleftrightarrow> h_ok h \<and> fs_ok h im \<and> (\<forall>ip. fsize im ip \<le> max_size h) \<and>
     used h im = {(ip, r). r \<in> span 0 (fsize im ip)}"

definition contents :: "fs_h \<Rightarrow> img \<Rightarrow> nat \<Rightarrow> u8 list" where
  "contents h im ip = map (byte h im ip) [0..<fsize im ip]"

lemma length_contents [simp]: "length (contents h im ip) = fsize im ip"
  by (simp add: contents_def)

lemma img_okD:
  assumes "img_ok h im"
  shows "fs_ok h im" "fsize im ip \<le> max_size h" "MAXFILESIZE h = max_size h" "max_size h \<le> 71680"
    "ref h im ip r \<noteq> 0 \<longleftrightarrow> r \<in> span 0 (fsize im ip)"
proof -
  show "max_size h \<le> 71680" "MAXFILESIZE h = max_size h"
    using assms by (auto simp: img_ok_def h_ok_def max_size_def MAXFILESIZE_def NDIRECT_def BSIZE_def)
  have "used h im = {(ip, r). r \<in> span 0 (fsize im ip)}" using assms by (simp add: img_ok_def)
  then show "ref h im ip r \<noteq> 0 \<longleftrightarrow> r \<in> span 0 (fsize im ip)" unfolding used_def by blast
qed (use assms in \<open>simp_all add: img_ok_def\<close>)

lemma span_mono: "off + l \<le> sz \<Longrightarrow> span off l \<subseteq> span 0 sz"
  by (force simp: span_def)

lemma span_extend:
  assumes "off \<le> sz"
  shows "span off l \<union> span 0 sz = span 0 (max sz (off + l))"
proof -
  have "{off..<off + l} \<union> {0..<sz} = {0..<max sz (off + l)}" using assms by auto
  then show ?thesis unfolding span_def by (simp add: UN_Un[symmetric])
qed

lemma take_drop_contents:
  "take n (drop off (contents h im ip)) = map (byte h im ip) [off..<min (off + n) (fsize im ip)]"
  by (rule nth_equalityI) (auto simp: contents_def)

lemma add_wraps:
  fixes off n :: u32
  shows "off + n < off \<longleftrightarrow> 2 ^ 32 \<le> unat off + unat n"
  using unsigned_less[of n, where 'a = nat] unsigned_less[of off, where 'a = nat]
  by (auto simp: word_less_nat_alt unat_word_ariths(1) mod_if)

lemma fsize_less: "fsize im ip < unat off \<longleftrightarrow> d_size (inode im ip) < off"
  by (simp add: fsize_def word_less_nat_alt)

text \<open>Reading gives the bytes of the file from the offset on, and leaves the image as it is.\<close>

lemma iread_spec:
  assumes ok: "img_ok h im"
  shows "iread h im ip n off =
    ret (if d_type (inode im ip) = T_DEV \<or> fsize im ip < unat off \<or> 2 ^ 32 \<le> unat off + unat n then None
         else Some (take (unat n) (drop (unat off) (contents h im ip))), im)"
proof (cases "d_type (inode im ip) = T_DEV \<or> fsize im ip < unat off \<or> 2 ^ 32 \<le> unat off + unat n")
  case True
  then show ?thesis by (auto simp: iread_def fsize_less add_wraps Let_def)
next
  case False
  then have sum: "unat (off + n) = unat off + unat n" by (simp add: unat_word_ariths(1))
  define m where "m = (if off + n > d_size (inode im ip) then d_size (inode im ip) - off else n)"
  have m: "unat off + unat m = min (unat off + unat n) (fsize im ip)"
    using False sum by (auto simp: m_def fsize_def word_less_nat_alt unat_sub word_le_nat_alt min_def)
  have "iread_loop h im ip (unat m) (unat off) = ret (map (byte h im ip) [unat off..<unat off + unat m], im)"
  proof (rule iread_loop_spec)
    show "fs_ok h im" by (rule img_okD(1)[OF ok])
    have "unat off + unat m \<le> fsize im ip" using m by simp
    from span_mono[OF this] show "\<forall>n. Data n \<in> span (unat off) (unat m) \<longrightarrow> ref h im ip (Data n) \<noteq> 0"
      by (auto simp: img_okD(5)[OF ok])
    show "unat m < 2 ^ 31" using m img_okD(2)[OF ok, of ip] img_okD(4)[OF ok] by simp
  qed
  moreover have "\<not> off + n < off" "\<not> d_size (inode im ip) < off" using False by (auto simp: add_wraps fsize_less)
  ultimately show ?thesis using False
    by (simp add: iread_def m_def[symmetric] take_drop_contents m)
qed


text \<open>Giving a file a new size.\<close>

definition set_size :: "nat \<Rightarrow> u32 \<Rightarrow> img \<Rightarrow> img" where
  "set_size ip sz = upd_inode ip (\<lambda>d. d\<lparr>d_size := sz\<rparr>)"

definition attr :: "dinode \<Rightarrow> u16 \<times> u16 \<times> u16 \<times> u16" where
  "attr d = (d_type d, d_major d, d_minor d, d_nlink d)"

lemma set_size_simps [simp]:
  "ref h (set_size ip sz im) = ref h im" "byte h (set_size ip sz im) = byte h im" "used h (set_size ip sz im) = used h im"
  "fs_ok h (set_size ip sz im) = fs_ok h im" "fsize (set_size ip sz im) = (fsize im)(ip := unat sz)"
  "attr (inode (set_size ip sz im) jp) = attr (inode im jp)" "leaked h (set_size ip sz im) = leaked h im"
proof -
  have r: "ref h (set_size ip sz im) = ref h im"
    by (auto simp: fun_eq_iff ref_def set_size_def upd_inode_def split: slot.splits)
  show "ref h (set_size ip sz im) = ref h im" by (rule r)
  show "byte h (set_size ip sz im) = byte h im" by (auto simp: fun_eq_iff byte_def r Let_def) (simp add: set_size_def upd_inode_def)
  show "used h (set_size ip sz im) = used h im" unfolding used_def r ..
  show "leaked h (set_size ip sz im) = leaked h im" unfolding leaked_def r
    by (simp add: set_size_def upd_inode_def valid_data_block_sb[of "im\<lparr>inode := f\<rparr>" im for f])
  show "fs_ok h (set_size ip sz im) = fs_ok h im" unfolding fs_ok_def r
    by (simp add: set_size_def sb_ok_sb[of "im\<lparr>inode := f\<rparr>" im for f] upd_inode_def valid_data_block_sb[of "im\<lparr>inode := f\<rparr>" im for f])
  show "fsize (set_size ip sz im) = (fsize im)(ip := unat sz)" by (auto simp: fsize_def set_size_def upd_inode_def)
  show "attr (inode (set_size ip sz im) jp) = attr (inode im jp)" by (simp add: attr_def set_size_def upd_inode_def)
qed

definition overwrite :: "nat \<Rightarrow> u8 list \<Rightarrow> u8 list \<Rightarrow> u8 list" where
  "overwrite off bs c = take off c @ bs @ drop (off + length bs) c"

lemma overwrite_patch:
  assumes "off \<le> sz"
  shows "map (patch ip off bs f ip) [0..<max sz (off + length bs)] = overwrite off bs (map (f ip) [0..<sz])"
  using assms by (intro nth_equalityI) (auto simp: overwrite_def patch_def nth_append max_def drop_map split: if_splits)

definition wrote :: "fs_h \<Rightarrow> nat \<Rightarrow> (u8 list \<Rightarrow> u8 list) \<Rightarrow> img \<Rightarrow> img \<Rightarrow> bool" where
  "wrote h ip f im im' \<longleftrightarrow> img_ok h im' \<and> leaked h im' = leaked h im \<and> sblk im' = sblk im \<and>
     (\<forall>jp. attr (inode im' jp) = attr (inode im jp)) \<and>
     contents h im' = (contents h im)(ip := f (contents h im ip))"

text \<open>The bytes are in place, the new size is entered.\<close>

lemma written_wrote:
  assumes ok: "img_ok h im" and w: "written h ip off bs im im1" and u: "used h im1 = Pair ip ` span off (length bs) \<union> used h im"
    and off: "off \<le> fsize im ip" "off + length bs \<le> max_size h" and sz: "unat sz = max (fsize im ip) (off + length bs)"
  shows "wrote h ip (overwrite off bs) im (set_size ip sz im1)"
proof -
  have fs: "fsize im1 = fsize im" and at: "\<And>jp. attr (inode im1 jp) = attr (inode im jp)"
    using w by (auto simp: written_def meta_def attr_def fsize_def)
  have "Pair ip ` span off (length bs) \<union> {(jp, r). r \<in> span 0 (fsize im jp)} =
      {(jp, r). r \<in> span 0 (((fsize im)(ip := unat sz)) jp)}"
    using span_extend[OF off(1), of "length bs", symmetric] by (auto simp: sz split: if_splits)
  then have "img_ok h (set_size ip sz im1)"
    using ok w off(2) sz by (auto simp: img_ok_def u fs written_def)
  moreover have "contents h (set_size ip sz im1) = (contents h im)(ip := overwrite off bs (contents h im ip))"
  proof
    fix jp
    show "contents h (set_size ip sz im1) jp = ((contents h im)(ip := overwrite off bs (contents h im ip))) jp"
      using w overwrite_patch[OF off(1), of ip bs "byte h im"] by (simp add: contents_def written_def fs sz) (simp add: patch_def)
  qed
  ultimately show ?thesis using at w by (simp add: wrote_def written_def) (simp add: set_size_def upd_inode_def)
qed

lemma iwrite_spec:
  assumes ok: "img_ok h im" and len: "length buf < 2 ^ 32"
  shows "if d_type (inode im ip) = T_DEV \<or> fsize im ip < unat off \<or> max_size h < unat off + length buf
      then iwrite h im ip buf off = ret (- 1, im)
    else if card (free_blocks im) < lacks h im ip (span (unat off) (length buf)) then no_space (iwrite h im ip buf off)
    else \<exists>im'. iwrite h im ip buf off = ret (int (length buf), im') \<and> wrote h ip (overwrite (unat off) buf) im im'"
proof -
  let ?n = "of_nat (length buf) :: u32"
  have n: "unat ?n = length buf" using len by (simp add: unat_of_nat)
  have sum: "unat (off + ?n) = unat off + length buf" if "unat off + length buf \<le> max_size h"
    using that img_okD(4)[OF ok] by (simp add: unat_word_ariths(1) n)
  have refuse: "off + ?n < off \<or> unat (off + ?n) > MAXFILESIZE h \<longleftrightarrow> max_size h < unat off + length buf"
  proof (cases "unat off + length buf \<le> max_size h")
    case True
    then show ?thesis using sum img_okD(3,4)[OF ok] by (auto simp: add_wraps n)
  next
    case False
    then show ?thesis using img_okD(3)[OF ok] by (cases "unat off + length buf < 2 ^ 32") (auto simp: add_wraps n unat_word_ariths(1))
  qed
  show ?thesis
  proof (cases "d_type (inode im ip) = T_DEV \<or> fsize im ip < unat off \<or> max_size h < unat off + length buf")
    case True
    then show ?thesis using refuse by (auto simp: iwrite_def Let_def fsize_less)
  next
    case False
    have "unat off + length buf \<le> max_size h" "unat off \<le> fsize im ip" using False by auto
    note iw = iwrite_loop_spec[OF img_okD(1)[OF ok] this(1), of ip] and fits = this sum[OF this(1)]
    have step: "iwrite h im ip buf off = kbind (iwrite_loop h im ip buf (unat off)) (\<lambda>(t, im1).
        ret (int t, if t > 0 \<and> off + of_nat t > d_size (inode im1 ip) then set_size ip (off + of_nat t) im1 else im1))"
      using False refuse by (auto simp: iwrite_def Let_def fsize_less set_size_def intro!: kbind_cong)
    show ?thesis
    proof (cases "card (free_blocks im) < lacks h im ip (span (unat off) (length buf))")
      case True
      then show ?thesis using iw fits img_okD(4)[OF ok] False by (simp add: step)
    next
      case room: False
      then obtain im1 where im1: "iwrite_loop h im ip buf (unat off) = ret (length buf, im1)"
        "written h ip (unat off) buf im im1" "used h im1 = Pair ip ` span (unat off) (length buf) \<union> used h im"
        using iw fits(1) img_okD(4)[OF ok] by auto
      have fs: "d_size (inode im1 ip) = d_size (inode im ip)" using im1(2) by (simp add: written_def meta_def)
      have "d_size (inode im ip) < off + ?n \<longleftrightarrow> fsize im ip < unat off + length buf"
        by (simp add: fsize_def word_less_nat_alt fits(3))
      moreover have "set_size ip (d_size (inode im ip)) im1 = im1"
        by (simp add: set_size_def upd_inode_def fs[symmetric])
      ultimately have "wrote h ip (overwrite (unat off) buf) im
          (if length buf > 0 \<and> off + ?n > d_size (inode im1 ip) then set_size ip (off + ?n) im1 else im1)"
        using written_wrote[OF ok im1(2,3) fits(2,1), of "off + ?n"] written_wrote[OF ok im1(2,3) fits(2,1), of "d_size (inode im ip)"] fits
        by (auto simp: fs fsize_def max_def)
      then show ?thesis using False room by (auto simp: step im1(1))
    qed
  qed
qed


section \<open>Giving blocks back\<close>

text \<open>The image after the places \<open>S\<close> of a file have been emptied and their blocks released.\<close>

definition emptied :: "fs_h \<Rightarrow> nat \<Rightarrow> slot set \<Rightarrow> img \<Rightarrow> img \<Rightarrow> bool" where
  "emptied h ip S im im' \<longleftrightarrow> fs_ok h im' \<and> sblk im' = sblk im \<and> (\<forall>jp. meta (inode im' jp) = meta (inode im jp)) \<and>
     (\<forall>jp r. ref h im' jp r = (if jp = ip \<and> r \<in> S then 0 else ref h im jp r)) \<and>
     (\<forall>jp k. byte h im' jp k = (if jp = ip \<and> Data (k div BSIZE) \<in> S then 0 else byte h im jp k)) \<and>
     leaked h im' = leaked h im"

lemma emptiedD:
  assumes "emptied h ip S im im'"
  shows "fs_ok h im'" "sblk im' = sblk im" "meta (inode im' jp) = meta (inode im jp)"
    "ref h im' jp r = (if jp = ip \<and> r \<in> S then 0 else ref h im jp r)"
    "byte h im' jp k = (if jp = ip \<and> Data (k div BSIZE) \<in> S then 0 else byte h im jp k)" "leaked h im' = leaked h im"
  using assms unfolding emptied_def by blast+

lemma emptied_none: "fs_ok h im \<Longrightarrow> emptied h ip {} im im"
  by (simp add: emptied_def)

lemma emptied_trans: "emptied h ip A im im1 \<Longrightarrow> emptied h ip B im1 im' \<Longrightarrow> emptied h ip (A \<union> B) im im'"
  by (simp add: emptied_def)

lemma emptied_fold:
  assumes ok: "fs_ok h im"
    and step: "\<And>i x. i \<in> set ks \<Longrightarrow> fs_ok h x \<Longrightarrow> ref h x ip Ind = ref h im ip Ind \<Longrightarrow> emptied h ip {q i} x (f i x)"
    and ind: "Ind \<notin> q ` set ks"
  shows "emptied h ip (q ` set ks) im (fold f ks im)"
  using assms
proof (induction ks arbitrary: im)
  case Nil
  then show ?case by (simp add: emptied_none)
next
  case (Cons i ks)
  have e: "emptied h ip {q i} im (f i im)" using Cons.prems by simp
  then have "ref h (f i im) ip Ind = ref h im ip Ind" using Cons.prems(3) by (auto simp: emptied_def)
  moreover have "fs_ok h (f i im)" using e by (simp add: emptied_def)
  ultimately have "emptied h ip (q ` set ks) (f i im) (fold f ks (f i im))"
    using Cons.prems by (intro Cons.IH) auto
  from emptied_trans[OF e this] show ?case by simp
qed

lemma emptied_one:
  assumes ok: "fs_ok h im" and c: "ref h im ip q = c"
    and im': "sblk im' = sblk im" "bmbits im' = (if c = 0 then bmbits im else (bmbits im)(unat c := False))"
      "\<And>jp. meta (inode im' jp) = meta (inode im jp)"
      "\<And>jp n. ref h im jp (Data n) \<noteq> 0 \<Longrightarrow> blocks im' (unat (ref h im jp (Data n))) = blocks im (unat (ref h im jp (Data n)))"
    and refs: "\<And>jp r. ref h im' jp r = (if jp = ip \<and> r = q then 0 else ref h im jp r)"
  shows "emptied h ip {q} im im'"
proof -
  have v: "valid_data_block im' = valid_data_block im" by (rule valid_data_block_sb[OF im'(1)])
  have other: "ref h im jp r \<noteq> c" if "\<not> (jp = ip \<and> r = q)" "c \<noteq> 0" for jp r
    using fs_okD(4)[OF ok, of jp r ip q] c that by auto
  have "valid_data_block im' (ref h im' jp r) \<and> bmbits im' (unat (ref h im' jp r))" if "ref h im' jp r \<noteq> 0" for jp r
    using that fs_okD(2,3)[OF ok, of jp r] other[of jp r] by (auto simp: v refs im'(2) split: if_splits)
  moreover have "jp = kp \<and> r = t" if "ref h im' jp r = ref h im' kp t" "ref h im' jp r \<noteq> 0" for jp r kp t
    using that fs_okD(4)[OF ok, of jp r kp t] by (auto simp: refs split: if_splits)
  moreover have "bmbits im' d" if "d < first_data im" for d
    using fs_okD(5)[OF ok that] that fs_okD(2)[OF ok, of ip q] c
    by (cases "c = 0") (auto simp: im'(2) valid_data_block_iff[OF fs_okD(1)[OF ok]])
  ultimately have "fs_ok h im'"
    using fs_okD(1)[OF ok] unfolding fs_ok_def v sb_ok_sb[OF im'(1)] im'(1) by blast
  moreover have "byte h im' jp k = (if jp = ip \<and> Data (k div BSIZE) = q then 0 else byte h im jp k)" for jp k
    using im'(4)[of jp "k div BSIZE"] by (simp add: byte_def refs Let_def)
  moreover have "leaked h im' = leaked h im"
  proof -
    have "d \<in> leaked h im' \<longleftrightarrow> d \<in> leaked h im" for d
    proof (cases "d = c \<and> c \<noteq> 0")
      case True
      then show ?thesis using c by (auto simp: leaked_def im'(2))
    next
      case False
      have "(\<forall>jp r. ref h im' jp r \<noteq> d) \<longleftrightarrow> (\<forall>jp r. ref h im jp r \<noteq> d)" if "d \<noteq> 0"
        using that False c unfolding refs by metis
      then show ?thesis using False valid_nz[OF fs_okD(1)[OF ok], of d] by (auto simp: leaked_def v im'(2))
    qed
    then show ?thesis by blast
  qed
  ultimately show ?thesis using im'(1,3) refs by (simp add: emptied_def)
qed

lemma bfree_valid: "valid_data_block im b \<Longrightarrow> bfree im b = (0, im\<lparr>bmbits := (bmbits im)(unat b := False)\<rparr>)"
  by (simp add: bfree_def)

lemma bfree_zero: "sb_ok im \<Longrightarrow> bfree im 0 = (- 1, im)"
  using valid_nz[of im 0] by (auto simp: bfree_def)

text \<open>What \<open>bfree\<close> does to the bitmap for a number that a place holds.\<close>

lemma bfree_ref:
  assumes "fs_ok h im" "ref h im ip q = c"
  shows "snd (bfree im c) = im\<lparr>bmbits := (if c = 0 then bmbits im else (bmbits im)(unat c := False))\<rparr>"
  using bfree_zero[OF fs_okD(1)[OF assms(1)]] bfree_valid[of im c] fs_okD(2)[OF assms(1), of ip q] assms(2) by auto

lemma free_direct_emptied:
  assumes ok: "fs_ok h im" and i: "i < NDIRECT"
  shows "emptied h ip {Data i} im (free_direct ip i im)"
proof -
  have r: "ref h im ip (Data i) = addrs (inode im ip) i" using i by (simp add: ref_def)
  show ?thesis
    by (rule emptied_one[OF ok r])
      (use i in \<open>auto simp: free_direct_def bfree_ref[OF ok r] upd_inode_def meta_def ref_def split: slot.splits\<close>)
qed

lemma free_indirect_emptied:
  assumes ok: "fs_ok h im" and i: "i < NINDIRECT h" and a: "ref h im ip Ind = a" "a \<noteq> 0"
  shows "emptied h ip {Data (NDIRECT + i)} im (free_indirect a i im)"
proof -
  have r: "ref h im ip (Data (NDIRECT + i)) = ld32 (blocks im (unat a)) i" using i a by (auto simp: ref_def)
  have own: "addrs (inode im jp) NDIRECT = a \<Longrightarrow> jp = ip" for jp
    using fs_okD(4)[OF ok, of jp Ind ip Ind] a by (auto simp: ref_def)
  have data: "ref h im jp (Data n) \<noteq> a" for jp n
    using fs_okD(4)[OF ok, of jp "Data n" ip Ind] a by auto
  have f: "free_indirect a i im = im\<lparr>bmbits := (if ld32 (blocks im (unat a)) i = 0 then bmbits im
        else (bmbits im)(unat (ld32 (blocks im (unat a)) i) := False)),
      blocks := (blocks im)(unat a := st32 (blocks im (unat a)) i 0)\<rparr>"
    by (simp add: free_indirect_def bfree_ref[OF ok r] Let_def)
  have in': "addrs (inode im ip) NDIRECT = a" using a by (simp add: ref_def)
  have refs: "ref h (free_indirect a i im) jp r = (if jp = ip \<and> r = Data (NDIRECT + i) then 0 else ref h im jp r)" for jp r
  proof (cases "jp = ip")
    case True
    then show ?thesis using a(2) i by (auto simp: f ref_def in' ld32_st32 split: slot.splits)
  next
    case False
    then show ?thesis using own[of jp] by (auto simp: f ref_def split: slot.splits)
  qed
  show ?thesis by (rule emptied_one[OF ok r _ _ _ _ refs]) (simp_all add: f data)
qed

lemma free_ind_emptied:
  assumes ok: "fs_ok h im" and a: "ref h im ip Ind = a" and none: "\<And>n. NDIRECT \<le> n \<Longrightarrow> ref h im ip (Data n) = 0"
  shows "emptied h ip {Ind} im (upd_inode ip (\<lambda>d. d\<lparr>addrs := (addrs d)(NDIRECT := 0)\<rparr>) (snd (bfree im a)))"
  (is "emptied h ip {Ind} im ?im'")
proof -
  have refs: "ref h ?im' jp r = (if jp = ip \<and> r = Ind then 0 else ref h im jp r)" for jp r
  proof (cases r)
    case (Data n)
    then show ?thesis using none[of n] by (auto simp: bfree_ref[OF ok a] ref_def upd_inode_def)
  qed (simp add: bfree_ref[OF ok a] ref_def upd_inode_def)
  show ?thesis by (rule emptied_one[OF ok a _ _ _ _ refs]) (auto simp: bfree_ref[OF ok a] upd_inode_def meta_def)
qed


section \<open>Truncating and extending\<close>

lemma zero_loop_iwrite:
  assumes "fs_ok h im" "off + r \<le> max_size h" "r < 2 ^ 31"
  shows "zero_loop h im ip r off = kbind (iwrite_loop h im ip (replicate r 0) off) (\<lambda>(t, im). ret im)"
  using assms
proof (induction r arbitrary: im off rule: less_induct)
  case (less r)
  show ?case
  proof (cases "r = 0")
    case True
    then show ?thesis by (simp add: zero_loop.simps iwrite_loop.simps)
  next
    case False
    define m where "m = chunk r off"
    have m: "m \<le> r" "0 < m" using False by (auto simp: m_def)
    have n: "off div BSIZE < NDIRECT + NINDIRECT h" using less.prems(2) False by (intro in_file) auto
    show ?thesis
    proof (cases rule: bmap_cases[OF less.prems(1) n, of ip])
      case 1
      then obtain e where "bmap h im ip (off div BSIZE) = halt e" by (auto simp: no_space_def)
      then show ?thesis using False less.prems(3) by (simp add: zero_loop.simps iwrite_loop.simps)
    next
      case (2 b im1)
      have v: "valid_data_block im1 b" using fs_okD(2)[OF 2(2), of ip "Data (off div BSIZE)"] 2(4,5) by auto
      define im2 where "im2 = im1\<lparr>blocks := (blocks im1)(unat b := put_bytes (blocks im1 (unat b)) (off mod BSIZE) (replicate m 0))\<rparr>"
      have "zero_loop h im2 ip (r - m) (off + m) = kbind (iwrite_loop h im2 ip (replicate (r - m) 0) (off + m)) (\<lambda>(t, im). ret im)"
        using m False less.prems fill_block(2)[OF 2(2,5,4) im2_def] by (intro less.IH) auto
      moreover have "zero_loop h im ip r off = zero_loop h im2 ip (r - m) (off + m)"
        using False less.prems(3) 2(1) v by (subst zero_loop.simps) (simp add: Let_def m_def im2_def need_block_def)
      moreover have "iwrite_loop h im ip (replicate r 0) off =
          kbind (iwrite_loop h im2 ip (replicate (r - m) 0) (off + m)) (\<lambda>(t, im'). ret (m + t, im'))"
        using False less.prems(3) 2(1) v m by (subst iwrite_loop.simps) (simp add: Let_def m_def[symmetric] im2_def min_def)
      ultimately show ?thesis by (simp add: kbind_assoc case_prod_unfold)
    qed
  qed
qed

definition blks :: "u32 \<Rightarrow> nat" where
  "blks sz = nat (divceil (sint sz) (int BSIZE))"

lemma less_blks:
  assumes "unat sz < 2 ^ 31"
  shows "i < blks sz \<longleftrightarrow> i * BSIZE < unat sz"
proof -
  have "int (unat sz) < int (2 ^ 31)" using assms by (simp only: of_nat_less_iff)
  then have "uint sz < 2 ^ 31" by simp
  moreover have "- (2 ^ 31) \<le> uint sz" by (rule order.trans[of _ 0]) simp_all
  ultimately have "signed_take_bit 31 (uint sz) = uint sz" by (intro signed_take_bit_int_eq_self) auto
  then have "sint sz = int (unat sz)" by (simp add: sint_uint)
  then have "blks sz = nat (divceil (int (unat sz)) 512)" by (simp only: blks_def) (simp add: BSIZE_def)
  moreover have "divceil (int u) 512 = int (if u = 0 then 0 else (u - 1) div 512 + 1)" for u
    by (cases u) (simp_all add: divceil_def zdiv_int)
  ultimately have "blks sz = (if unat sz = 0 then 0 else (unat sz - 1) div 512 + 1)" by (simp only: nat_int)
  then show ?thesis by (auto simp: BSIZE_def less_Suc_eq_le less_eq_div_iff_mult_less_eq)
qed

lemma in_span:
  "Data i \<in> span 0 s \<longleftrightarrow> i * BSIZE < s" "Ind \<in> span 0 s \<longleftrightarrow> NDIRECT * BSIZE < s"
proof -
  have B: "0 < BSIZE" by (simp add: BSIZE_def)
  have "(\<exists>k < s. i = k div BSIZE) \<longleftrightarrow> i * BSIZE < s"
  proof
    assume "i * BSIZE < s"
    then show "\<exists>k < s. i = k div BSIZE" using B by (intro exI[of _ "i * BSIZE"]) auto
  next
    assume "\<exists>k < s. i = k div BSIZE"
    then show "i * BSIZE < s" by (meson div_times_less_eq_dividend le_less_trans)
  qed
  then show "Data i \<in> span 0 s \<longleftrightarrow> i * BSIZE < s" by (auto simp: span_def slots_def Bex_def split: if_splits)
  have "(\<exists>k < s. NDIRECT \<le> k div BSIZE) \<longleftrightarrow> NDIRECT * BSIZE < s"
    using B by (auto simp: less_eq_div_iff_mult_less_eq intro: le_less_trans)
  then show "Ind \<in> span 0 s \<longleftrightarrow> NDIRECT * BSIZE < s" by (auto simp: span_def slots_def Bex_def split: if_splits)
qed


text \<open>The part of \<open>itruncate\<close> that shortens a file.\<close>

definition shorten :: "fs_h \<Rightarrow> img \<Rightarrow> nat \<Rightarrow> nat \<Rightarrow> nat \<Rightarrow> img kres" where
  "shorten h im ip n k =
     (let im = fold (free_direct ip) [min k NDIRECT..<min n NDIRECT] im in
      if n > NDIRECT then
        let iaddr = addrs (inode im ip) NDIRECT in
        kbind (kassert (iaddr \<noteq> 0) ''itruncate'') (\<lambda>_.
        kbind (need_block im iaddr) (\<lambda>_.
        let im = fold (free_indirect iaddr) [k - NDIRECT..<n - NDIRECT] im
        in if n - NDIRECT > NINDIRECT h then halt (Wild ''iblock'')
           else if k - NDIRECT = 0
           then ret (upd_inode ip (\<lambda>d. d\<lparr>addrs := (addrs d)(NDIRECT := 0)\<rparr>) (snd (bfree im iaddr)))
           else ret im))
      else ret im)"

lemma itruncate_shorten:
  "itruncate h im ip sz =
     (if d_type (inode im ip) = T_DEV \<or> unat sz > MAXFILESIZE h then ret (- 1, im)
      else kbind (if sz < d_size (inode im ip) then shorten h im ip (blks (d_size (inode im ip))) (blks sz)
                  else zero_loop h im ip (unat (sz - d_size (inode im ip))) (unat (d_size (inode im ip)))) (\<lambda>im.
           ret (0, set_size ip sz im)))"
  by (simp add: itruncate_def shorten_def blks_def set_size_def Let_def)

lemma free_direct_fold:
  assumes "fs_ok h im" "n \<le> NDIRECT"
  shows "emptied h ip (Data ` {k..<n}) im (fold (free_direct ip) [k..<n] im)"
proof -
  have "emptied h ip (Data ` set [k..<n]) im (fold (free_direct ip) [k..<n] im)"
    using assms by (intro emptied_fold) (auto intro: free_direct_emptied)
  then show ?thesis by simp
qed

lemma free_indirect_fold:
  assumes "fs_ok h im" "n \<le> NINDIRECT h" "ref h im ip Ind = a" "a \<noteq> 0"
  shows "emptied h ip ((\<lambda>i. Data (NDIRECT + i)) ` {k..<n}) im (fold (free_indirect a) [k..<n] im)"
proof -
  have "emptied h ip ((\<lambda>i. Data (NDIRECT + i)) ` set [k..<n]) im (fold (free_indirect a) [k..<n] im)"
    using assms by (intro emptied_fold) (auto intro: free_indirect_emptied)
  then show ?thesis by simp
qed

lemma shorten_emptied:
  assumes ok: "fs_ok h im" and le: "k \<le> n" "n \<le> NDIRECT + NINDIRECT h"
    and data: "\<And>i. n \<le> i \<Longrightarrow> ref h im ip (Data i) = 0" and ind: "NDIRECT < n \<Longrightarrow> ref h im ip Ind \<noteq> 0"
  shows "\<exists>im'. shorten h im ip n k = ret im' \<and>
    emptied h ip (Data ` {k..<n} \<union> (if k \<le> NDIRECT \<and> NDIRECT < n then {Ind} else {})) im im'"
proof -
  define im1 where "im1 = fold (free_direct ip) [min k NDIRECT..<min n NDIRECT] im"
  have e1: "emptied h ip (Data ` {min k NDIRECT..<min n NDIRECT}) im im1"
    unfolding im1_def by (rule free_direct_fold[OF ok]) simp
  show ?thesis
  proof (cases "NDIRECT < n")
    case False
    then show ?thesis using e1 le(1) by (simp add: shorten_def im1_def)
  next
    case True
    define a where "a = addrs (inode im1 ip) NDIRECT"
    have a: "ref h im1 ip Ind = a" by (simp add: a_def ref_def)
    have ok1: "fs_ok h im1" and "ref h im1 ip Ind = ref h im ip Ind"
      using emptiedD(1)[OF e1] emptiedD(4)[OF e1, of ip Ind] by auto
    then have "a \<noteq> 0" using ind[OF True] a by simp
    moreover have "need_block im1 a = ret ()" using fs_okD(2)[OF ok1, of ip Ind] a \<open>a \<noteq> 0\<close> by (simp add: need_block_def)
    moreover define im2 where "im2 = fold (free_indirect a) [k - NDIRECT..<n - NDIRECT] im1"
    ultimately have sh: "shorten h im ip n k = (if k - NDIRECT = 0
        then ret (upd_inode ip (\<lambda>d. d\<lparr>addrs := (addrs d)(NDIRECT := 0)\<rparr>) (snd (bfree im2 a))) else ret im2)"
      using True le(2) unfolding shorten_def Let_def im1_def[symmetric] a_def[symmetric] im2_def[symmetric]
      by (simp add: kassert_def)
    have e2: "emptied h ip ((\<lambda>i. Data (NDIRECT + i)) ` {k - NDIRECT..<n - NDIRECT}) im1 im2"
      unfolding im2_def by (rule free_indirect_fold[OF ok1 _ a \<open>a \<noteq> 0\<close>]) (use le(2) in simp)
    have "Data ` {min k NDIRECT..<min n NDIRECT} \<union> (\<lambda>i. Data (NDIRECT + i)) ` {k - NDIRECT..<n - NDIRECT} = Data ` {k..<n}"
    proof -
      have "(\<lambda>i. NDIRECT + i) ` {k - NDIRECT..<n - NDIRECT} = {NDIRECT + (k - NDIRECT)..<n}"
        using True by (simp add: add.commute)
      moreover have "{min k NDIRECT..<NDIRECT} \<union> {NDIRECT + (k - NDIRECT)..<n} = {k..<n}" using True le(1) by auto
      moreover have "(\<lambda>i. Data (NDIRECT + i)) ` I = Data ` (\<lambda>i. NDIRECT + i) ` I" for I by (simp only: image_image)
      ultimately show ?thesis using True by (simp only: image_Un[symmetric] min_absorb2 less_imp_le)
    qed
    with emptied_trans[OF e1 e2] have e: "emptied h ip (Data ` {k..<n}) im im2" by simp
    show ?thesis
    proof (cases "k \<le> NDIRECT")
      case False
      then show ?thesis using e sh by simp
    next
      case k: True
      have "ref h im2 ip Ind = a" using emptiedD(4)[OF e2, of ip Ind] a by auto
      moreover have "ref h im2 ip (Data m) = 0" if "NDIRECT \<le> m" for m
        using emptiedD(4)[OF e, of ip "Data m"] data[of m] that k by (cases "m < n") auto
      ultimately have "emptied h ip {Ind} im2 (upd_inode ip (\<lambda>d. d\<lparr>addrs := (addrs d)(NDIRECT := 0)\<rparr>) (snd (bfree im2 a)))"
        by (intro free_ind_emptied emptiedD(1)[OF e])
      from emptied_trans[OF e this] show ?thesis using k True sh by auto
    qed
  qed
qed


lemma itruncate_down:
  assumes ok: "img_ok h im" and t: "d_type (inode im ip) \<noteq> T_DEV" and lt: "unat sz < fsize im ip"
  shows "\<exists>im'. itruncate h im ip sz = ret (0, im') \<and> wrote h ip (take (unat sz)) im im'"
proof -
  let ?n = "blks (d_size (inode im ip))" and ?k = "blks sz"
  have lim: "fsize im ip < 2 ^ 31" "fsize im ip \<le> max_size h" using img_okD(2)[OF ok, of ip] img_okD(4)[OF ok] by auto
  have n: "i < ?n \<longleftrightarrow> i * BSIZE < fsize im ip" and k: "i < ?k \<longleftrightarrow> i * BSIZE < unat sz" for i
    using less_blks[of "d_size (inode im ip)" i] less_blks[of sz i] lim lt by (auto simp: fsize_def)
  have "?k \<le> ?n" using n[of ?n] k[of ?n] lt by simp
  moreover have "?n \<le> NDIRECT + NINDIRECT h" using n[of "NDIRECT + NINDIRECT h"] lim(2) by (simp add: max_size_def)
  moreover have "ref h im ip (Data i) = 0" if "?n \<le> i" for i
    using img_okD(5)[OF ok, of ip "Data i"] that n[of i] by (auto simp: in_span)
  moreover have "ref h im ip Ind \<noteq> 0" if "NDIRECT < ?n" using img_okD(5)[OF ok, of ip Ind] that n by (simp add: in_span)
  ultimately obtain im1 where im1: "shorten h im ip ?n ?k = ret im1" and
    e: "emptied h ip (Data ` {?k..<?n} \<union> (if ?k \<le> NDIRECT \<and> NDIRECT < ?n then {Ind} else {})) im im1" (is "emptied h ip ?S im im1")
    using shorten_emptied[OF img_okD(1)[OF ok]] by blast
  have S: "(ref h im ip r \<noteq> 0 \<and> r \<notin> ?S) \<longleftrightarrow> r \<in> span 0 (unat sz)" for r
  proof (cases r)
    case (Data i)
    then show ?thesis using img_okD(5)[OF ok, of ip r] n[of i] k[of i] lt by (auto simp: in_span image_iff)
  next
    case Ind
    then show ?thesis using img_okD(5)[OF ok, of ip r] n[of NDIRECT] k[of NDIRECT] lt by (auto simp: in_span image_iff)
  qed
  have fs: "fsize im1 = fsize im" and at: "\<And>jp. attr (inode im1 jp) = attr (inode im jp)"
    using emptiedD(3)[OF e] by (auto simp: meta_def attr_def fsize_def)
  have "used h im1 = {(jp, r). r \<in> span 0 (((fsize im)(ip := unat sz)) jp)}"
  proof -
    have "ref h im1 jp r \<noteq> 0 \<longleftrightarrow> r \<in> span 0 (((fsize im)(ip := unat sz)) jp)" for jp r
      unfolding emptiedD(4)[OF e] using S[of r] img_okD(5)[OF ok, of jp r] by (cases "jp = ip") auto
    then show ?thesis by (simp add: used_def)
  qed
  then have "img_ok h (set_size ip sz im1)" using ok emptiedD(1)[OF e] order.trans[OF less_imp_le[OF lt] lim(2)]
    by (simp add: img_ok_def fs)
  moreover have "contents h (set_size ip sz im1) = (contents h im)(ip := take (unat sz) (contents h im ip))"
  proof
    fix jp
    have "byte h im1 ip x = byte h im ip x" if "x < unat sz" for x
      using emptiedD(5)[OF e, of ip x] k[of "x div BSIZE"] that div_times_less_eq_dividend[of x BSIZE] by (auto split: if_splits)
    then show "contents h (set_size ip sz im1) jp = ((contents h im)(ip := take (unat sz) (contents h im ip))) jp"
      using emptiedD(5)[OF e, of jp] lt by (auto simp: contents_def fs take_map)
  qed
  ultimately have "wrote h ip (take (unat sz)) im (set_size ip sz im1)"
    using at emptiedD(2,6)[OF e] by (simp add: wrote_def) (simp add: set_size_def upd_inode_def)
  moreover have "itruncate h im ip sz = ret (0, set_size ip sz im1)"
    using t lt lim img_okD(3)[OF ok] im1 by (simp add: itruncate_shorten word_less_nat_alt fsize_def)
  ultimately show ?thesis by blast
qed

lemma itruncate_up:
  assumes ok: "img_ok h im" and t: "d_type (inode im ip) \<noteq> T_DEV" and ge: "fsize im ip \<le> unat sz" "unat sz \<le> max_size h"
  shows "if card (free_blocks im) < lacks h im ip (span (fsize im ip) (unat sz - fsize im ip)) then no_space (itruncate h im ip sz)
    else \<exists>im'. itruncate h im ip sz = ret (0, im') \<and> wrote h ip (\<lambda>c. c @ replicate (unat sz - fsize im ip) 0) im im'"
proof -
  let ?r = "unat sz - fsize im ip"
  have d: "unat (sz - d_size (inode im ip)) = ?r" using ge(1) by (simp add: unat_sub word_le_nat_alt fsize_def)
  have r: "fsize im ip + ?r \<le> max_size h" "?r < 2 ^ 31" using ge img_okD(4)[OF ok] by auto
  have it: "itruncate h im ip sz = kbind (iwrite_loop h im ip (replicate ?r 0) (fsize im ip)) (\<lambda>(t, im). ret (0, set_size ip sz im))"
    using t ge img_okD(3)[OF ok] zero_loop_iwrite[OF img_okD(1)[OF ok] r, of ip]
    by (simp add: itruncate_shorten d word_less_nat_alt fsize_def[symmetric] kbind_assoc case_prod_unfold)
  have iw: "if card (free_blocks im) < lacks h im ip (span (fsize im ip) ?r) then no_space (iwrite_loop h im ip (replicate ?r 0) (fsize im ip))
    else \<exists>im'. iwrite_loop h im ip (replicate ?r 0) (fsize im ip) = ret (?r, im') \<and>
      written h ip (fsize im ip) (replicate ?r 0) im im' \<and> used h im' = Pair ip ` span (fsize im ip) ?r \<union> used h im"
    by (rule iwrite_loop_spec[OF img_okD(1)[OF ok], of "fsize im ip" "replicate ?r 0", unfolded length_replicate, OF r])
  show ?thesis
  proof (cases "card (free_blocks im) < lacks h im ip (span (fsize im ip) ?r)")
    case True
    then show ?thesis using iw it by simp
  next
    case False
    then obtain im1 where im1: "iwrite_loop h im ip (replicate ?r 0) (fsize im ip) = ret (?r, im1)"
      "written h ip (fsize im ip) (replicate ?r 0) im im1" "used h im1 = Pair ip ` span (fsize im ip) ?r \<union> used h im"
      using iw by auto
    have "wrote h ip (overwrite (fsize im ip) (replicate ?r 0)) im (set_size ip sz im1)"
      using written_wrote[OF ok im1(2), of sz] im1(3) r ge by simp
    then have "wrote h ip (\<lambda>c. c @ replicate ?r 0) im (set_size ip sz im1)" by (simp add: wrote_def overwrite_def)
    then show ?thesis using False it im1(1) by auto
  qed
qed


section \<open>Properties\<close>

text \<open>
  A small image: an empty directory with number 1, empty files with the numbers 2 and 3, no block in use. And a layout of
  directory entries with two bytes for the number and fourteen for the name.
\<close>

definition demo_h :: fs_h where
  "demo_h = \<lparr>NINDIRECT = 128, MAXFILE = 140, DIRSIZ = 14, de_size = 16,
     de_enc = (\<lambda>d. [of_nat (de_inum d), of_nat (de_inum d div 256)] @
       take 14 (map (of_nat \<circ> of_char) (de_name d) @ replicate 14 0)),
     de_dec = (\<lambda>bs. \<lparr>de_inum = unat (bs ! 0) + 256 * unat (bs ! 1),
       de_name = map (char_of \<circ> unat) (takeWhile (\<lambda>b. b \<noteq> 0) (take 14 (drop 2 bs)))\<rparr>)\<rparr>"

definition demo_img :: img where
  "demo_img = \<lparr>sblk = \<lparr>sb_size = 64, sb_nblocks = 50, sb_ninodes = 16, sb_nlog = 8\<rparr>,
     inode = (\<lambda>i. \<lparr>d_type = (if i = 1 then T_DIR else if i = 2 \<or> i = 3 then T_FILE else 0), d_major = 0, d_minor = 0,
       d_nlink = (if i = 1 then 1 else 0), d_size = 0, addrs = (\<lambda>_. 0)\<rparr>),
     bmbits = (\<lambda>b. b < 6), blocks = (\<lambda>_ _. 0)\<rparr>"

lemma demo_ref: "ref demo_h demo_img ip q = 0"
  by (simp add: ref_def demo_img_def split: slot.splits)

lemma demo_first: "first_data demo_img = 6"
  by (simp add: first_data_def demo_img_def IPB_def BPB_def BSIZE_def)

lemma demo_sb: "sb_ok demo_img"
  by (simp add: sb_ok_def demo_first) (simp add: demo_img_def)

lemma demo_free: "free_blocks demo_img = {6..<56}"
  by (auto simp: free_blocks_def demo_first) (simp_all add: demo_img_def)

lemma demo_ok: "img_ok demo_h demo_img"
proof -
  have "bmbits demo_img b" if "b < 6" for b using that by (simp add: demo_img_def)
  then have "fs_ok demo_h demo_img" unfolding fs_ok_def demo_ref demo_first using demo_sb by auto
  moreover have "fsize demo_img ip = 0" for ip by (simp add: fsize_def demo_img_def)
  moreover have "h_ok demo_h" by (simp add: h_ok_def demo_h_def NDIRECT_def BSIZE_def)
  ultimately show ?thesis by (simp add: img_ok_def used_def demo_ref span_def)
qed

lemma demo_leaked: "leaked demo_h demo_img = {}"
proof -
  have "\<not> bmbits demo_img (unat b)" if "valid_data_block demo_img b" for b
    using that by (auto simp: valid_data_block_iff[OF demo_sb] demo_first) (simp add: demo_img_def)
  then show ?thesis by (auto simp: leaked_def)
qed

lemma demo_2:
  "d_type (inode demo_img 2) \<noteq> T_DEV" "contents demo_h demo_img 2 = []"
  "\<not> card (free_blocks demo_img) < lacks demo_h demo_img 2 (span 0 (Suc (Suc 0)))"
  "\<not> card (free_blocks demo_img) < lacks demo_h demo_img 2 (span 0 2)" "fsize demo_img 2 = 0"
proof -
  have "free_blocks demo_img = {6..<56}" by (rule demo_free)
  moreover have "span 0 (Suc (Suc 0)) = {Data 0}" by (auto simp: span_def slots_def BSIZE_def NDIRECT_def)
  ultimately show "\<not> card (free_blocks demo_img) < lacks demo_h demo_img 2 (span 0 (Suc (Suc 0)))"
    by (simp add: lacks_single demo_ref)
  then show "\<not> card (free_blocks demo_img) < lacks demo_h demo_img 2 (span 0 2)" by (simp add: Suc_1[symmetric] del: Suc_1)
qed (simp_all add: demo_img_def contents_def fsize_def T_FILE_def T_DEV_def)

text \<open>
  C32: writing to a file. The image is seen as the contents of its files. A device, an offset behind the end and a
  file that would get too long are refused and nothing changes; the tool stops when the free blocks do not suffice for
  those that the file lacks; in all other cases the bytes replace those from the offset on, the file grows where they reach
  beyond its end, no other file and no other field of an inode changes, no block is leaked, and the image stays well-formed: each
  file has the blocks that its size needs, all marked in the bitmap, and no block belongs to two places.
\<close>

theorem iwrite_refines:
  assumes "img_ok h im" "length buf < 2 ^ 32"
  shows "if d_type (inode im ip) = T_DEV \<or> fsize im ip < unat off \<or> max_size h < unat off + length buf
      then iwrite h im ip buf off = ret (- 1, im)
    else if card (free_blocks im) < lacks h im ip (span (unat off) (length buf))
      then no_space (iwrite h im ip buf off)
    else \<exists>im'. iwrite h im ip buf off = ret (int (length buf), im') \<and> img_ok h im' \<and> leaked h im' = leaked h im \<and> sblk im' = sblk im \<and>
      (\<forall>jp. attr (inode im' jp) = attr (inode im jp)) \<and>
      contents h im' = (contents h im)(ip := overwrite (unat off) buf (contents h im ip))"
  using iwrite_spec[OF assms, of ip off] by (simp only: wrote_def)

theorem iwrite_refines_witness:
  "\<exists>im'. iwrite demo_h demo_img 2 [104, 105] 0 = ret (2, im') \<and> img_ok demo_h im' \<and> contents demo_h im' 2 = [104, 105]"
  using iwrite_refines[OF demo_ok, of "[104, 105]" 2 0] demo_2
  by (auto simp: max_size_def NDIRECT_def BSIZE_def overwrite_def split: if_splits)

text \<open>
  C34: what has been written is read back, and reading leaves the image as it is.
\<close>

theorem iwrite_iread:
  assumes "img_ok h im" "length buf < 2 ^ 32" "iwrite h im ip buf off = ret (r, im')" "r \<noteq> - 1"
  shows "r = int (length buf) \<and> iread h im' ip (of_nat (length buf)) off = ret (Some buf, im')"
proof -
  have w: "r = int (length buf)" "wrote h ip (overwrite (unat off) buf) im im'" "d_type (inode im ip) \<noteq> T_DEV"
    "unat off \<le> fsize im ip" "unat off + length buf \<le> max_size h"
    using iwrite_spec[OF assms(1,2), of ip off] assms(3,4) by (auto simp: no_space_def split: if_splits)
  have ok': "img_ok h im'" and c: "contents h im' ip = overwrite (unat off) buf (contents h im ip)"
    and t: "d_type (inode im' ip) \<noteq> T_DEV" using w(2,3) by (auto simp: wrote_def attr_def)
  have "fsize im' ip = length (contents h im' ip)" by simp
  also have "\<dots> = max (fsize im ip) (unat off + length buf)" using w(4) by (simp add: c overwrite_def)
  finally have "unat off \<le> fsize im' ip" by (simp add: le_max_iff_disj)
  moreover have "unat (of_nat (length buf) :: u32) = length buf" using assms(2) by (simp add: unat_of_nat)
  moreover have "take (length buf) (drop (unat off) (contents h im' ip)) = buf" using w(4) by (simp add: c overwrite_def)
  ultimately show ?thesis using iread_spec[OF ok', of ip "of_nat (length buf)" off] t w(1,5) img_okD(4)[OF ok'] by simp
qed


theorem iwrite_iread_witness:
  "\<exists>im'. iwrite demo_h demo_img 2 [104, 105] 0 = ret (2, im') \<and> iread demo_h im' 2 2 0 = ret (Some [104, 105], im')"
proof -
  obtain im' where w: "iwrite demo_h demo_img 2 [104, 105] 0 = ret (2, im')"
    using iwrite_spec[OF demo_ok, of "[104, 105]" 2 0] demo_2 by (auto simp: max_size_def NDIRECT_def BSIZE_def split: if_splits)
  then show ?thesis using iwrite_iread[OF demo_ok _ w] by simp
qed

text \<open>
  Reading. A device, an offset behind the end and a wrapping range are refused; otherwise the result is the part of the
  contents that lies in the range, and the image is not changed.
\<close>

theorem iread_refines:
  assumes "img_ok h im"
  shows "iread h im ip n off =
    ret (if d_type (inode im ip) = T_DEV \<or> fsize im ip < unat off \<or> 2 ^ 32 \<le> unat off + unat n then None
         else Some (take (unat n) (drop (unat off) (contents h im ip))), im)"
  by (rule iread_spec[OF assms])

theorem iread_refines_witness: "iread demo_h demo_img 2 16 0 = ret (Some [], demo_img)"
  using iread_refines[OF demo_ok, of 2 16 0] demo_2 by simp

text \<open>
  C33: changing the size of a file. A shorter size keeps the first bytes and gives the other blocks back, a larger one
  appends zero bytes or stops the tool when the free blocks do not suffice; all other files stay, the image
  stays well-formed, and no block is leaked.
\<close>

theorem itruncate_refines:
  assumes "img_ok h im"
  shows "if d_type (inode im ip) = T_DEV \<or> max_size h < unat sz then itruncate h im ip sz = ret (- 1, im)
    else if card (free_blocks im) < lacks h im ip (span (fsize im ip) (unat sz - fsize im ip))
      then no_space (itruncate h im ip sz)
    else \<exists>im'. itruncate h im ip sz = ret (0, im') \<and> img_ok h im' \<and> leaked h im' = leaked h im \<and> sblk im' = sblk im \<and>
      (\<forall>jp. attr (inode im' jp) = attr (inode im jp)) \<and>
      contents h im' = (contents h im)(ip := take (unat sz) (contents h im ip) @ replicate (unat sz - fsize im ip) 0)"
proof (cases "d_type (inode im ip) = T_DEV \<or> max_size h < unat sz")
  case True
  then show ?thesis using img_okD(3)[OF assms] by (auto simp: itruncate_def)
next
  case False
  show ?thesis
  proof (cases "unat sz < fsize im ip")
    case True
    then show ?thesis using False itruncate_down[OF assms, of ip sz] by (auto simp: wrote_def span_def lacks_def)
  next
    case ge: False
    then show ?thesis using False itruncate_up[OF assms, of ip sz]
      by (auto simp: wrote_def no_space_def split: if_splits)
  qed
qed

theorem itruncate_refines_witness:
  "\<exists>im'. itruncate demo_h demo_img 2 2 = ret (0, im') \<and> contents demo_h im' 2 = replicate 2 0"
  using itruncate_refines[OF demo_ok, of 2 2] demo_2
  by (auto simp: max_size_def NDIRECT_def BSIZE_def split: if_splits)

end
