(* ===== verification/Libfs_Dir.thy ===== *)
theory Libfs_Dir
  imports Libfs
begin

text \<open>
  Path names and directories of the disk image (tools/libfs.c). Names are strings without the terminating zero byte. A
  directory is a file of entries; how an entry is laid out in bytes is part of the argument \<open>h\<close>. An inode pointer is
  a number, \<^term>\<open>None\<close> is the null pointer.
\<close>

section \<open>Path names\<close>

definition is_empty :: "string \<Rightarrow> bool" where
  "is_empty s \<longleftrightarrow> s = ''''"

definition is_sep :: "char \<Rightarrow> bool" where
  "is_sep c \<longleftrightarrow> c = CHR ''/''"

text \<open>The rest of the path, and the name that is copied to the buffer.\<close>

definition skipelem :: "fs_h \<Rightarrow> string \<Rightarrow> string \<times> string" where
  "skipelem h path =
     (let s = dropWhile is_sep path;
          path = dropWhile (\<lambda>c. \<not> is_sep c) s;
          len = nat (imin (int (length s - length path)) (int (DIRSIZ h)))
      in (path, take len s))"

lemma skipelem_eq:
  "skipelem h path = (dropWhile (\<lambda>c. \<not> is_sep c) (dropWhile is_sep path),
     take (DIRSIZ h) (takeWhile (\<lambda>c. \<not> is_sep c) (dropWhile is_sep path)))"
proof -
  let ?s = "dropWhile is_sep path"
  let ?e = "takeWhile (\<lambda>c. \<not> is_sep c) ?s"
  have "length ?s = length ?e + length (dropWhile (\<lambda>c. \<not> is_sep c) ?s)"
    by (metis length_append takeWhile_dropWhile_id)
  then have "nat (imin (int (length ?s - length (dropWhile (\<lambda>c. \<not> is_sep c) ?s))) (int (DIRSIZ h))) = min (length ?e) (DIRSIZ h)"
    by (auto simp: imin_def)
  moreover have "take (min (length ?e) (DIRSIZ h)) ?s = take (DIRSIZ h) ?e"
    by (metis min.commute take_take takeWhile_eq_take)
  ultimately show ?thesis by (simp add: skipelem_def Let_def)
qed

lemma skipelem_shorter:
  assumes "skipelem h path = (p, name)" "name \<noteq> ''''"
  shows "length p < length path"
proof -
  let ?s = "dropWhile is_sep path"
  have "takeWhile (\<lambda>c. \<not> is_sep c) ?s \<noteq> ''''" using assms by (auto simp: skipelem_eq)
  moreover have "length ?s = length (takeWhile (\<lambda>c. \<not> is_sep c) ?s) + length (dropWhile (\<lambda>c. \<not> is_sep c) ?s)"
    by (metis length_append takeWhile_dropWhile_id)
  ultimately have "length (dropWhile (\<lambda>c. \<not> is_sep c) ?s) < length ?s" by (simp only: length_0_conv[symmetric])
  also have "\<dots> \<le> length path" by (rule length_dropWhile_le)
  finally show ?thesis using assms(1) by (simp add: skipelem_eq)
qed

text \<open>\<open>s\<close> is the start of the last element seen.\<close>

function split_loop :: "string \<Rightarrow> string \<Rightarrow> string" where
  "split_loop s path =
     (if is_empty path then s
      else let s = dropWhile is_sep path in split_loop s (dropWhile (\<lambda>c. \<not> is_sep c) s))"
  by pat_completeness auto
termination
proof (relation "measure (\<lambda>(s, path). length path)")
  fix s path x
  assume a: "\<not> is_empty path" "x = dropWhile is_sep path"
  show "((x, dropWhile (\<lambda>c. \<not> is_sep c) x), (s, path)) \<in> measure (\<lambda>(s, path). length path)"
  proof (cases path)
    case (Cons c cs)
    have "length (dropWhile (\<lambda>c. \<not> is_sep c) (dropWhile is_sep path)) \<le> length cs"
      using Cons length_dropWhile_le[of "\<lambda>c. \<not> is_sep c" "dropWhile is_sep cs"] length_dropWhile_le[of is_sep cs]
        length_dropWhile_le[of "\<lambda>c. \<not> is_sep c" cs] by auto
    then show ?thesis using a Cons by simp
  qed (use a in \<open>simp add: is_empty_def\<close>)
qed simp

declare split_loop.simps [simp del]

text \<open>The base name, and the string left in a buffer of \<open>size'\<close> bytes.\<close>

definition splitpath :: "string \<Rightarrow> nat \<Rightarrow> string \<times> string" where
  "splitpath path size' =
     (let s = split_loop path path;
          n = nat (imin (int (length path - length s)) (int (size' - 1)))
      in (s, take n path))"

section \<open>Directories\<close>

text \<open>\<^verbatim>\<open>strncmp(a, b, DIRSIZ) == 0\<close>, and an entry that has been read in full.\<close>

definition streq :: "fs_h \<Rightarrow> string \<Rightarrow> string \<Rightarrow> bool" where
  "streq h a b \<longleftrightarrow> take (DIRSIZ h) a = take (DIRSIZ h) b"

definition entry_read :: "fs_h \<Rightarrow> u8 list option \<Rightarrow> dirent option" where
  "entry_read h r = (case r of Some bs \<Rightarrow> if length bs = de_size h then Some (de_dec h bs) else None | None \<Rightarrow> None)"

partial_function (option) dlookup_loop ::
    "fs_h \<Rightarrow> nat \<Rightarrow> string \<Rightarrow> img \<Rightarrow> u32 \<Rightarrow> ((nat option \<times> u32 option) \<times> img) kres" where
  "dlookup_loop h dp name im off =
     (if \<not> off < d_size (inode im dp) then ret ((None, None), im)
      else kbind (iread h im dp (of_nat (de_size h)) off) (\<lambda>(r, im).
        case entry_read h r of
          None \<Rightarrow> ret ((None, None), im)
        | Some de \<Rightarrow>
            if streq h name (de_name de) then ret ((iget im (de_inum de), Some off), im)
            else dlookup_loop h dp name im (off + of_nat (de_size h))))"

text \<open>The inode, and the offset where it is written to.\<close>

definition dlookup :: "fs_h \<Rightarrow> img \<Rightarrow> nat \<Rightarrow> string \<Rightarrow> ((nat option \<times> u32 option) \<times> img) kres" where
  "dlookup h im dp name =
     kbind (kassert (d_type (inode im dp) = T_DIR) ''dlookup'') (\<lambda>_. dlookup_loop h dp name im 0)"

text \<open>The search for an empty entry: the offset, or \<^term>\<open>None\<close> after an error.\<close>

partial_function (option) daddent_loop ::
    "fs_h \<Rightarrow> nat \<Rightarrow> string \<Rightarrow> img \<Rightarrow> u32 \<Rightarrow> (u32 option \<times> img) kres" where
  "daddent_loop h dp name im off =
     (if \<not> off < d_size (inode im dp) then ret (Some off, im)
      else kbind (iread h im dp (of_nat (de_size h)) off) (\<lambda>(r, im).
        case entry_read h r of
          None \<Rightarrow> ret (None, im)
        | Some de \<Rightarrow>
            if de_inum de = 0 then ret (Some off, im)
            else if streq h (de_name de) name then ret (None, im)
            else daddent_loop h dp name im (off + of_nat (de_size h))))"

definition link_inc :: "nat \<Rightarrow> img \<Rightarrow> img" where
  "link_inc ip = upd_inode ip (\<lambda>d. d\<lparr>d_nlink := d_nlink d + 1\<rparr>)"

definition link_dec :: "nat \<Rightarrow> img \<Rightarrow> img" where
  "link_dec ip = upd_inode ip (\<lambda>d. d\<lparr>d_nlink := d_nlink d - 1\<rparr>)"

definition daddent :: "fs_h \<Rightarrow> img \<Rightarrow> nat \<Rightarrow> string \<Rightarrow> nat \<Rightarrow> (int \<times> img) kres" where
  "daddent h im dp name ip =
     kbind (daddent_loop h dp name im 0) (\<lambda>(r, im).
     case r of
       None \<Rightarrow> ret (- 1, im)
     | Some off \<Rightarrow>
         let de = \<lparr>de_inum = geti im ip, de_name = take (DIRSIZ h) name\<rparr> in
         kbind (iwrite h im dp (de_enc h de) off) (\<lambda>(n, im).
           if n \<noteq> int (de_size h) then ret (- 1, im)
           else ret (0, if \<not> streq h name ''.'' then link_inc ip im else im)))"

definition dmkparlink :: "fs_h \<Rightarrow> img \<Rightarrow> nat \<Rightarrow> nat \<Rightarrow> (int \<times> img) kres" where
  "dmkparlink h im pip cip =
     (if d_type (inode im pip) \<noteq> T_DIR then ret (- 1, im)
      else if d_type (inode im cip) \<noteq> T_DIR then ret (- 1, im)
      else kbind (dlookup h im cip ''..'') (\<lambda>((_, offp), im).
        let de = \<lparr>de_inum = geti im pip, de_name = take (DIRSIZ h) ''..''\<rparr> in
        case offp of
          None \<Rightarrow> halt (Wild ''off'')
        | Some off \<Rightarrow> kbind (iwrite h im cip (de_enc h de) off) (\<lambda>(n, im).
            if n \<noteq> int (de_size h) then ret (- 1, im) else ret (0, link_inc pip im))))"

section \<open>Walking a path\<close>

function ilookup :: "fs_h \<Rightarrow> img \<Rightarrow> nat \<Rightarrow> string \<Rightarrow> (nat option \<times> img) kres" where
  "ilookup h im rp path =
     kbind (kassert (d_type (inode im rp) = T_DIR) ''ilookup'') (\<lambda>_.
       let (path', name) = skipelem h path in
       if is_empty name then ret (Some rp, im)
       else kbind (dlookup h im rp name) (\<lambda>((ip, _), im).
         case ip of
           None \<Rightarrow> ret (None, im)
         | Some ip \<Rightarrow>
             if is_empty path' then ret (Some ip, im)
             else if d_type (inode im ip) \<noteq> T_DIR then ret (None, im)
             else ilookup h im ip path'))"
  by pat_completeness auto
termination
  by (relation "measure (\<lambda>(h, im, rp, path). length path)") (auto simp: is_empty_def dest!: sym[THEN skipelem_shorter])

declare ilookup.simps [simp del]


text \<open>The file, and the directory it has been entered in.\<close>

function icreat :: "fs_h \<Rightarrow> img \<Rightarrow> nat \<Rightarrow> string \<Rightarrow> u16 \<Rightarrow> ((nat \<times> nat) option \<times> img) kres" where
  "icreat h im rp path type =
     kbind (kassert (d_type (inode im rp) = T_DIR) ''icreat'') (\<lambda>_.
       let (path', name) = skipelem h path in
       if is_empty name then ret (None, im)
       else kbind (dlookup h im rp name) (\<lambda>((ip, _), im).
         if is_empty path' then
           case ip of
             Some _ \<Rightarrow> ret (None, im)
           | None \<Rightarrow>
               kbind (ialloc im type) (\<lambda>(ip, im).
               kbind (daddent h im rp name ip) (\<lambda>(_, im).
                 if d_type (inode im ip) = T_DIR then
                   kbind (daddent h im ip ''.'' ip) (\<lambda>(_, im).
                   kbind (daddent h im ip ''..'' rp) (\<lambda>(_, im). ret (Some (ip, rp), im)))
                 else ret (Some (ip, rp), im)))
         else case ip of
           None \<Rightarrow> ret (None, im)
         | Some ip \<Rightarrow> if d_type (inode im ip) \<noteq> T_DIR then ret (None, im) else icreat h im ip path' type))"
  by pat_completeness auto
termination
  by (relation "measure (\<lambda>(h, im, rp, path, type). length path)") (auto simp: is_empty_def dest!: sym[THEN skipelem_shorter])

declare icreat.simps [simp del]

text \<open>
  The result of reading is ignored, the buffer keeps what it held; \<^term>\<open>None\<close> stands for a buffer that has not been filled.
\<close>

definition refill :: "fs_h \<Rightarrow> u8 list option \<Rightarrow> u8 list option \<Rightarrow> u8 list option" where
  "refill h buf r =
     (case r of
        None \<Rightarrow> buf
      | Some bs \<Rightarrow>
          if length bs = de_size h then Some bs
          else case buf of None \<Rightarrow> None | Some old \<Rightarrow> Some (bs @ drop (length bs) old))"

partial_function (option) emptydir_loop ::
    "fs_h \<Rightarrow> nat \<Rightarrow> img \<Rightarrow> u32 \<Rightarrow> u8 list option \<Rightarrow> nat \<Rightarrow> (nat \<times> img) kres" where
  "emptydir_loop h dp im off buf nent =
     (if \<not> off < d_size (inode im dp) then ret (nent, im)
      else kbind (iread h im dp (of_nat (de_size h)) off) (\<lambda>(r, im).
        case refill h buf r of
          None \<Rightarrow> halt (Wild ''de'')
        | Some bs \<Rightarrow> emptydir_loop h dp im (off + of_nat (de_size h)) (Some bs)
            (if de_inum (de_dec h bs) \<noteq> 0 then nent + 1 else nent)))"

definition emptydir :: "fs_h \<Rightarrow> img \<Rightarrow> nat \<Rightarrow> (bool \<times> img) kres" where
  "emptydir h im dp = kbind (emptydir_loop h dp im 0 None 0) (\<lambda>(nent, im). ret (nent = 2, im))"

text \<open>What \<open>iunlink\<close> does once the entry has been found: it is erased, and the file is released with its last link.\<close>

definition drop_link :: "fs_h \<Rightarrow> img \<Rightarrow> nat \<Rightarrow> (int \<times> img) kres" where
  "drop_link h im ip =
     (let im = link_dec ip im in
      if d_nlink (inode im ip) = 0 then
        kbind (if d_type (inode im ip) \<noteq> T_DEV then itruncate h im ip 0 else ret (0, im)) (\<lambda>(_, im).
          ret (0, snd (ifree im (geti im ip))))
      else ret (0, im))"

definition unlink_at :: "fs_h \<Rightarrow> img \<Rightarrow> nat \<Rightarrow> nat \<Rightarrow> u32 \<Rightarrow> (int \<times> img) kres" where
  "unlink_at h im rp ip off =
     kbind (iwrite h im rp (replicate (de_size h) 0) off) (\<lambda>(n, im).
       if n \<noteq> int (de_size h) then ret (- 1, im)
       else if d_type (inode im ip) = T_DIR then
         kbind (dlookup h im ip ''..'') (\<lambda>((pp, _), im).
           drop_link h (if pp = Some rp then link_dec rp im else im) ip)
       else drop_link h im ip)"

function iunlink :: "fs_h \<Rightarrow> img \<Rightarrow> nat \<Rightarrow> string \<Rightarrow> (int \<times> img) kres" where
  "iunlink h im rp path =
     kbind (kassert (d_type (inode im rp) = T_DIR) ''iunlink'') (\<lambda>_.
       let (path', name) = skipelem h path in
       if is_empty name then ret (- 1, im)
       else kbind (dlookup h im rp name) (\<lambda>((ip, offp), im).
         case ip of
           None \<Rightarrow> ret (- 1, im)
         | Some ip \<Rightarrow>
             if is_empty path' then
               if streq h name ''.'' \<or> streq h name ''..'' then ret (- 1, im)
               else (case offp of None \<Rightarrow> halt (Wild ''off'') | Some off \<Rightarrow> unlink_at h im rp ip off)
             else if d_type (inode im ip) \<noteq> T_DIR then ret (- 1, im)
             else iunlink h im ip path'))"
  by pat_completeness auto
termination
  by (relation "measure (\<lambda>(h, im, rp, path). length path)") (auto simp: is_empty_def dest!: sym[THEN skipelem_shorter])

declare iunlink.simps [simp del]


section \<open>A directory as a list of entries\<close>

text \<open>What the code relies on of the layout of entries.\<close>

definition name_ok :: "fs_h \<Rightarrow> string \<Rightarrow> bool" where
  "name_ok h name \<longleftrightarrow> length name \<le> DIRSIZ h \<and> CHR 0x00 \<notin> set name"

definition de_ok :: "fs_h \<Rightarrow> bool" where
  "de_ok h \<longleftrightarrow> 0 < de_size h \<and> de_size h \<le> BSIZE \<and> (\<forall>d. length (de_enc h d) = de_size h) \<and>
     (\<forall>d. de_inum d < 2 ^ 16 \<longrightarrow> name_ok h (de_name d) \<longrightarrow> de_dec h (de_enc h d) = d) \<and>
     de_dec h (replicate (de_size h) 0) = \<lparr>de_inum = 0, de_name = ''''\<rparr>"

definition parse :: "fs_h \<Rightarrow> u8 list \<Rightarrow> dirent list" where
  "parse h c = map (\<lambda>i. de_dec h (take (de_size h) (drop (i * de_size h) c))) [0..<length c div de_size h]"

definition entries :: "fs_h \<Rightarrow> img \<Rightarrow> nat \<Rightarrow> dirent list" where
  "entries h im dp = parse h (contents h im dp)"

definition dir_ok :: "fs_h \<Rightarrow> img \<Rightarrow> nat \<Rightarrow> bool" where
  "dir_ok h im dp \<longleftrightarrow> img_ok h im \<and> de_ok h \<and> d_type (inode im dp) = T_DIR \<and> de_size h dvd fsize im dp"

definition nent :: "fs_h \<Rightarrow> img \<Rightarrow> nat \<Rightarrow> nat" where
  "nent h im dp = fsize im dp div de_size h"

lemma length_entries [simp]: "length (entries h im dp) = nent h im dp"
  by (simp add: entries_def parse_def nent_def)

lemma dir_okD:
  assumes "dir_ok h im dp"
  shows "img_ok h im" "de_ok h" "d_type (inode im dp) = T_DIR" "fsize im dp = nent h im dp * de_size h" "0 < de_size h"
    "de_size h \<le> 512" "nent h im dp * de_size h \<le> 71680"
  using assms img_okD(2,4)[of h im] order.trans[OF img_okD(2)[of h im dp] img_okD(4)[of h im]]
  by (auto simp: dir_ok_def nent_def de_ok_def BSIZE_def)

text \<open>The offset of entry \<open>i\<close>.\<close>

definition pos :: "fs_h \<Rightarrow> nat \<Rightarrow> u32" where
  "pos h i = of_nat (i * de_size h)"

lemma pos_0: "pos h 0 = 0"
  by (simp add: pos_def)

lemma slot_word:
  assumes "dir_ok h im dp" "i \<le> nent h im dp"
  shows "unat (pos h i) = i * de_size h" "unat (of_nat (de_size h) :: u32) = de_size h"
    "pos h i + of_nat (de_size h) = pos h (Suc i)"
    "pos h i < d_size (inode im dp) \<longleftrightarrow> i < nent h im dp"
proof -
  have "i * de_size h \<le> nent h im dp * de_size h" using assms(2) by simp
  also note dir_okD(7)[OF assms(1)]
  finally have "i * de_size h < 2 ^ 32" by (rule le_less_trans) simp
  then show u: "unat (pos h i) = i * de_size h" by (simp only: pos_def unat_of_nat) simp
  show "unat (of_nat (de_size h) :: u32) = de_size h" using dir_okD(6)[OF assms(1)] by (simp add: unat_of_nat)
  show "pos h i + of_nat (de_size h) = pos h (Suc i)" by (simp add: pos_def algebra_simps)
  have "pos h i < d_size (inode im dp) \<longleftrightarrow> i * de_size h < fsize im dp"
    by (simp only: word_less_nat_alt u fsize_def)
  then show "pos h i < d_size (inode im dp) \<longleftrightarrow> i < nent h im dp"
    using dir_okD(4,5)[OF assms(1)] by simp
qed

text \<open>Reading one entry.\<close>

lemma read_entry:
  assumes d: "dir_ok h im dp" and i: "i < nent h im dp"
  shows "\<exists>bs. iread h im dp (of_nat (de_size h)) (pos h i) = ret (Some bs, im) \<and>
    length bs = de_size h \<and> de_dec h bs = entries h im dp ! i"
proof -
  let ?bs = "take (de_size h) (drop (i * de_size h) (contents h im dp))"
  have "Suc i * de_size h \<le> nent h im dp * de_size h" using i by (intro mult_le_mono1) simp
  then have le: "i * de_size h + de_size h \<le> fsize im dp" "fsize im dp \<le> 71680"
    using dir_okD(4,7)[OF d] by auto
  note w = slot_word(1,2)[OF d less_imp_le[OF i]]
  have "iread h im dp (of_nat (de_size h)) (pos h i) = ret (Some ?bs, im)"
    using iread_spec[OF dir_okD(1)[OF d], of dp "of_nat (de_size h)" "pos h i"] le dir_okD(3)[OF d]
    unfolding w by (simp add: T_DIR_def T_DEV_def)
  moreover have "entries h im dp ! i = de_dec h ?bs"
    using i by (simp add: entries_def parse_def nent_def)
  ultimately show ?thesis using le by simp
qed

definition scan :: "(dirent \<Rightarrow> bool) \<Rightarrow> dirent list \<Rightarrow> nat \<Rightarrow> nat option" where
  "scan P es i = find (\<lambda>i. P (es ! i)) [i..<length es]"

lemma scan_step: "i < length es \<Longrightarrow> scan P es i = (if P (es ! i) then Some i else scan P es (Suc i))"
  by (simp add: scan_def find_upt_Cons)

lemma scan_end: "length es \<le> i \<Longrightarrow> scan P es i = None"
  by (simp add: scan_def)

lemma dlookup_loop_spec:
  assumes d: "dir_ok h im dp"
  shows "i \<le> nent h im dp \<Longrightarrow> dlookup_loop h dp name im (pos h i) =
    ret (case scan (\<lambda>e. streq h name (de_name e)) (entries h im dp) i of
           None \<Rightarrow> (None, None)
         | Some j \<Rightarrow> (iget im (de_inum (entries h im dp ! j)), Some (pos h j)), im)"
proof (induction "nent h im dp - i" arbitrary: i)
  case 0
  then show ?case using slot_word(4)[OF d, of i] by (subst dlookup_loop.simps) (simp add: scan_end)
next
  case (Suc k)
  then have i: "i < nent h im dp" by simp
  obtain bs where bs: "iread h im dp (of_nat (de_size h)) (pos h i) = ret (Some bs, im)"
    "length bs = de_size h" "de_dec h bs = entries h im dp ! i" using read_entry[OF d i] by blast
  have ih: "dlookup_loop h dp name im (pos h (Suc i)) =
    ret (case scan (\<lambda>e. streq h name (de_name e)) (entries h im dp) (Suc i) of
           None \<Rightarrow> (None, None)
         | Some j \<Rightarrow> (iget im (de_inum (entries h im dp ! j)), Some (pos h j)), im)"
    using Suc by (intro Suc.hyps(1)) auto
  have "pos h i < d_size (inode im dp)" using slot_word(4)[OF d less_imp_le[OF i]] i by simp
  then show ?case using i bs ih slot_word(3)[OF d less_imp_le[OF i]]
    by (subst dlookup_loop.simps) (simp add: entry_read_def scan_step)
qed

lemma dlookup_spec:
  assumes d: "dir_ok h im dp"
  shows "dlookup h im dp name =
    ret (case scan (\<lambda>e. streq h name (de_name e)) (entries h im dp) 0 of
           None \<Rightarrow> (None, None)
         | Some j \<Rightarrow> (iget im (de_inum (entries h im dp ! j)), Some (pos h j)), im)"
  using dlookup_loop_spec[OF d, of 0 name] dir_okD(3)[OF d] by (simp add: dlookup_def kassert_def pos_0)


section \<open>Adding an entry\<close>

lemma daddent_loop_spec:
  assumes d: "dir_ok h im dp"
  shows "i \<le> nent h im dp \<Longrightarrow> daddent_loop h dp name im (pos h i) =
    ret (case scan (\<lambda>e. de_inum e = 0 \<or> streq h (de_name e) name) (entries h im dp) i of
           None \<Rightarrow> Some (pos h (nent h im dp))
         | Some j \<Rightarrow> if de_inum (entries h im dp ! j) = 0 then Some (pos h j) else None, im)"
proof (induction "nent h im dp - i" arbitrary: i)
  case 0
  then show ?case using slot_word(4)[OF d, of i] by (subst daddent_loop.simps) (simp add: scan_end)
next
  case (Suc k)
  then have i: "i < nent h im dp" by simp
  obtain bs where bs: "iread h im dp (of_nat (de_size h)) (pos h i) = ret (Some bs, im)"
    "length bs = de_size h" "de_dec h bs = entries h im dp ! i" using read_entry[OF d i] by blast
  have ih: "daddent_loop h dp name im (pos h (Suc i)) =
    ret (case scan (\<lambda>e. de_inum e = 0 \<or> streq h (de_name e) name) (entries h im dp) (Suc i) of
           None \<Rightarrow> Some (pos h (nent h im dp))
         | Some j \<Rightarrow> if de_inum (entries h im dp ! j) = 0 then Some (pos h j) else None, im)"
    using Suc by (intro Suc.hyps(1)) auto
  have "pos h i < d_size (inode im dp)" using slot_word(4)[OF d less_imp_le[OF i]] i by simp
  then show ?case using i bs ih slot_word(3)[OF d less_imp_le[OF i]]
    by (subst daddent_loop.simps) (auto simp: entry_read_def scan_step)
qed

text \<open>Replacing or appending an entry in the bytes and in the list.\<close>

definition put_entry :: "nat \<Rightarrow> 'a \<Rightarrow> 'a list \<Rightarrow> 'a list" where
  "put_entry i e es = (if i < length es then es[i := e] else es @ [e])"

lemma length_overwrite: "off \<le> length c \<Longrightarrow> length (overwrite off b c) = max (length c) (off + length b)"
  by (simp add: overwrite_def)

lemma nth_overwrite:
  assumes "off \<le> length c" "k < max (length c) (off + length b)"
  shows "overwrite off b c ! k = (if off \<le> k \<and> k < off + length b then b ! (k - off) else c ! k)"
  using assms by (auto simp: overwrite_def nth_append)

lemma take_drop_overwrite:
  assumes "length b = s" "length c = n * s" "i \<le> n" "0 < s" "j < n \<or> j = i"
  shows "take s (drop (j * s) (overwrite (i * s) b c)) = (if j = i then b else take s (drop (j * s) c))"
proof (rule nth_equalityI)
  have le: "i * s \<le> length c" using assms(2,3) by simp
  have js: "j < n \<Longrightarrow> j * s + s \<le> n * s" using mult_le_mono1[of "Suc j" n s] by simp
  then have ov: "j * s + s \<le> length (overwrite (i * s) b c)" using assms le by (auto simp: length_overwrite)
  show "length (take s (drop (j * s) (overwrite (i * s) b c))) = length (if j = i then b else take s (drop (j * s) c))"
    using assms le js by (auto simp: length_overwrite)
  fix x assume "x < length (take s (drop (j * s) (overwrite (i * s) b c)))"
  then have x: "x < s" by simp
  have "j * s + s \<le> i * s \<or> i * s + s \<le> j * s \<or> j = i"
    using mult_le_mono1[of "Suc j" i s] mult_le_mono1[of "Suc i" j s] by (cases j i rule: linorder_cases) auto
  then have "overwrite (i * s) b c ! (j * s + x) = (if j = i then b ! x else c ! (j * s + x))"
    using nth_overwrite[OF le, of "j * s + x" b] ov x assms(1) le by (auto simp: length_overwrite)
  then show "take s (drop (j * s) (overwrite (i * s) b c)) ! x = (if j = i then b else take s (drop (j * s) c)) ! x"
    using x ov js assms(2,5) by auto
qed


lemma parse_overwrite:
  assumes "length b = de_size h" "length c = n * de_size h" "i \<le> n" "0 < de_size h"
  shows "parse h (overwrite (i * de_size h) b c) = put_entry i (de_dec h b) (parse h c)"
proof -
  let ?s = "de_size h"
  have le: "i * ?s \<le> n * ?s" using assms(3) by simp
  have n': "length (overwrite (i * ?s) b c) div ?s = (if i < n then n else Suc n)"
  proof (cases "i < n")
    case True
    then have "i * ?s + ?s \<le> n * ?s" using mult_le_mono1[of "Suc i" n ?s] by simp
    then show ?thesis using assms True le by (simp add: length_overwrite max_def)
  next
    case False
    then have "length (overwrite (i * ?s) b c) = Suc n * ?s" using assms le by (simp add: length_overwrite max_def)
    then show ?thesis using False assms(4) by (simp only: nonzero_mult_div_cancel_right if_False)
  qed
  have n: "length c div ?s = n" using assms(2,4) by simp
  note td = take_drop_overwrite[OF assms(1-4)]
  show ?thesis
  proof (cases "i < n")
    case True
    then show ?thesis using td by (intro nth_equalityI) (auto simp: parse_def put_entry_def n n' nth_list_update)
  next
    case False
    then have i: "i = n" using assms(3) by simp
    then have n2: "length (overwrite (n * ?s) b c) div ?s = Suc n" using n' by simp
    show ?thesis unfolding i using td[unfolded i]
      by (intro nth_equalityI) (auto simp: parse_def put_entry_def n n2 nth_append less_Suc_eq)
  qed
qed

text \<open>A change of an inode that concerns neither size nor blocks.\<close>

lemma upd_inode_keeps:
  assumes "\<And>d. addrs (f d) = addrs d" "\<And>d. d_size (f d) = d_size d"
  shows "contents h (upd_inode ip f im) = contents h im" "img_ok h (upd_inode ip f im) = img_ok h im"
    "fsize (upd_inode ip f im) = fsize im" "free_blocks (upd_inode ip f im) = free_blocks im"
    "lacks h (upd_inode ip f im) = lacks h im" "leaked h (upd_inode ip f im) = leaked h im"
proof -
  have i: "addrs (inode (upd_inode ip f im) jp) = addrs (inode im jp)" "d_size (inode (upd_inode ip f im) jp) = d_size (inode im jp)"
    "blocks (upd_inode ip f im) = blocks im" "bmbits (upd_inode ip f im) = bmbits im" "sblk (upd_inode ip f im) = sblk im" for jp
    using assms by (auto simp: upd_inode_def)
  have r: "ref h (upd_inode ip f im) = ref h im" by (auto simp: fun_eq_iff ref_def i split: slot.splits)
  have b: "byte h (upd_inode ip f im) = byte h im" by (auto simp: fun_eq_iff byte_def r Let_def i)
  have s: "fsize (upd_inode ip f im) = fsize im" by (simp add: fun_eq_iff fsize_def i)
  then show "fsize (upd_inode ip f im) = fsize im" .
  show "contents h (upd_inode ip f im) = contents h im" by (simp add: fun_eq_iff contents_def s b)
  show "img_ok h (upd_inode ip f im) = img_ok h im"
    unfolding img_ok_def fs_ok_def used_def r s sb_ok_sb[OF i(5)] i by simp
  show "leaked h (upd_inode ip f im) = leaked h im" unfolding leaked_def r i by simp
  show "free_blocks (upd_inode ip f im) = free_blocks im" by (simp add: free_blocks_def i)
  show "lacks h (upd_inode ip f im) = lacks h im" by (simp add: fun_eq_iff lacks_def used_def r)
qed

lemma link_keeps [simp]:
  "contents h (link_inc ip im) = contents h im" "img_ok h (link_inc ip im) = img_ok h im"
  "contents h (link_dec ip im) = contents h im" "img_ok h (link_dec ip im) = img_ok h im"
  "fsize (link_inc ip im) = fsize im" "fsize (link_dec ip im) = fsize im"
  "leaked h (link_inc ip im) = leaked h im" "leaked h (link_dec ip im) = leaked h im"
  unfolding link_inc_def link_dec_def by (simp_all add: upd_inode_keeps)

lemma link_type [simp]:
  "d_type (inode (link_inc ip im) jp) = d_type (inode im jp)" "d_type (inode (link_dec ip im) jp) = d_type (inode im jp)"
  "sblk (link_inc ip im) = sblk im" "sblk (link_dec ip im) = sblk im"
  by (auto simp: link_inc_def link_dec_def upd_inode_def)

lemma entries_keep [simp]:
  "entries h (link_inc ip im) = entries h im" "entries h (link_dec ip im) = entries h im"
  by (simp_all add: fun_eq_iff entries_def)

lemma geti_from_eq: "i * IPB \<le> ip \<Longrightarrow> ip < unat (sb_ninodes (sblk im)) \<Longrightarrow> geti_from im ip i = ip"
proof (induction "ip div IPB - i" arbitrary: i)
  case 0
  then have "ip div IPB \<le> i" "i \<le> ip div IPB" by (auto simp: IPB_def)
  then have i: "i = ip div IPB" by simp
  have "i < unat (sb_ninodes (sblk im)) div IPB + 1" using 0(3) i div_le_mono[of ip "unat (sb_ninodes (sblk im))" IPB] by simp
  moreover have "ip < i * IPB + IPB" using i by (simp add: IPB_def)
  ultimately show ?case using 0(2) by (subst geti_from.simps) simp
next
  case (Suc k)
  then have lt: "i < ip div IPB" by simp
  then have "Suc i * IPB \<le> ip" by (simp add: IPB_def)
  moreover from lt have "i < unat (sb_ninodes (sblk im)) div IPB + 1" using Suc.prems(2) div_le_mono[of ip "unat (sb_ninodes (sblk im))" IPB] by simp
  moreover have "geti_from im ip (Suc i) = ip" using Suc calculation(1) by (intro Suc.hyps(1)) auto
  ultimately show ?case by (subst geti_from.simps) auto
qed

lemma geti_eq: "ip < unat (sb_ninodes (sblk im)) \<Longrightarrow> geti im ip = ip"
  by (simp add: geti_def geti_from_eq)


text \<open>Writing one entry: refused when the directory would get too long, stopped when no block is left for it.\<close>

definition no_room :: "fs_h \<Rightarrow> img \<Rightarrow> nat \<Rightarrow> nat \<Rightarrow> bool" where
  "no_room h im dp i \<longleftrightarrow> card (free_blocks im) < lacks h im dp (span (i * de_size h) (de_size h))"

definition stored :: "fs_h \<Rightarrow> nat \<Rightarrow> nat \<Rightarrow> dirent \<Rightarrow> img \<Rightarrow> img \<Rightarrow> bool" where
  "stored h dp i e im im' \<longleftrightarrow> dir_ok h im' dp \<and> leaked h im' = leaked h im \<and> sblk im' = sblk im \<and>
     (\<forall>jp. attr (inode im' jp) = attr (inode im jp)) \<and> (\<forall>jp. jp \<noteq> dp \<longrightarrow> contents h im' jp = contents h im jp) \<and>
     entries h im' dp = put_entry i e (entries h im dp)"

lemma write_entry:
  assumes d: "dir_ok h im dp" and i: "i \<le> nent h im dp" and b: "length b = de_size h"
  shows "if max_size h < Suc i * de_size h then iwrite h im dp b (pos h i) = ret (- 1, im)
    else if no_room h im dp i then no_space (iwrite h im dp b (pos h i))
    else \<exists>im'. iwrite h im dp b (pos h i) = ret (int (de_size h), im') \<and> stored h dp i (de_dec h b) im im'"
proof -
  note u = slot_word(1)[OF d i]
  have le: "i * de_size h \<le> fsize im dp" using i dir_okD(4)[OF d] by simp
  have "length b < 2 ^ 32" using b dir_okD(6)[OF d] by simp
  note w = iwrite_spec[OF dir_okD(1)[OF d] this, of dp "pos h i", unfolded u b]
  show ?thesis
  proof (cases "max_size h < Suc i * de_size h \<or> no_room h im dp i")
    case True
    then show ?thesis using w le dir_okD(3)[OF d] by (auto simp: no_room_def T_DIR_def T_DEV_def add.commute)
  next
    case False
    then obtain im' where im': "iwrite h im dp b (pos h i) = ret (int (de_size h), im')"
      "wrote h dp (overwrite (i * de_size h) b) im im'"
      using w le dir_okD(3)[OF d] by (auto simp: no_room_def T_DIR_def T_DEV_def add.commute split: if_splits)
    have c: "contents h im' dp = overwrite (i * de_size h) b (contents h im dp)" using im'(2) by (simp add: wrote_def)
    then have e: "entries h im' dp = put_entry i (de_dec h b) (entries h im dp)"
      unfolding entries_def by (simp add: parse_overwrite[OF b _ i dir_okD(5)[OF d]] dir_okD(4)[OF d])
    have "fsize im' dp = length (contents h im' dp)" by simp
    also have "\<dots> = max (nent h im dp * de_size h) (Suc i * de_size h)"
      using le dir_okD(4)[OF d] b by (simp add: c length_overwrite add.commute)
    finally have "de_size h dvd fsize im' dp" by (simp add: max_def)
    then have "dir_ok h im' dp" using im'(2) dir_okD(2,3)[OF d] by (auto simp: dir_ok_def wrote_def attr_def)
    then have "stored h dp i (de_dec h b) im im'" using im'(2) e by (auto simp: stored_def wrote_def)
    then show ?thesis using im'(1) False by auto
  qed
qed

text \<open>The entry that \<open>daddent\<close> takes: the first empty one if no entry before it has the name, else a new one at the end.\<close>

definition gap :: "fs_h \<Rightarrow> string \<Rightarrow> dirent list \<Rightarrow> nat option" where
  "gap h name es =
     (case scan (\<lambda>e. de_inum e = 0 \<or> streq h (de_name e) name) es 0 of
        None \<Rightarrow> Some (length es)
      | Some j \<Rightarrow> if de_inum (es ! j) = 0 then Some j else None)"

lemma scan_lt: "scan P es i = Some j \<Longrightarrow> i \<le> j \<and> j < length es \<and> P (es ! j) \<and> (\<forall>k. i \<le> k \<and> k < j \<longrightarrow> \<not> P (es ! k))"
proof -
  assume "scan P es i = Some j"
  then obtain k where k: "k < length [i..<length es]" "P (es ! ([i..<length es] ! k))" "j = [i..<length es] ! k"
    "\<forall>l<k. \<not> P (es ! ([i..<length es] ! l))" by (auto simp: scan_def find_Some_iff)
  have "\<not> P (es ! m)" if "i \<le> m" "m < j" for m
    using k(4)[rule_format, of "m - i"] k(1,3) that by simp
  then show ?thesis using k by auto
qed

lemma scan_none: "scan P es i = None \<Longrightarrow> i \<le> k \<Longrightarrow> k < length es \<Longrightarrow> \<not> P (es ! k)"
  by (auto simp: scan_def find_None_iff)

lemma gap_le: "gap h name es = Some i \<Longrightarrow> i \<le> length es"
  by (auto simp: gap_def split: option.splits if_splits dest: scan_lt)

definition linked :: "fs_h \<Rightarrow> string \<Rightarrow> nat \<Rightarrow> img \<Rightarrow> img" where
  "linked h name ip im = (if \<not> streq h name ''.'' then link_inc ip im else im)"

lemma daddent_spec:
  assumes d: "dir_ok h im dp" and ip: "ip < unat (sb_ninodes (sblk im))" "ip < 2 ^ 16" and nz: "CHR 0x00 \<notin> set name"
  shows "case gap h name (entries h im dp) of
      None \<Rightarrow> daddent h im dp name ip = ret (- 1, im)
    | Some i \<Rightarrow>
        if max_size h < Suc i * de_size h then daddent h im dp name ip = ret (- 1, im)
        else if no_room h im dp i then no_space (daddent h im dp name ip)
        else \<exists>im'. daddent h im dp name ip = ret (0, linked h name ip im') \<and>
          stored h dp i \<lparr>de_inum = ip, de_name = take (DIRSIZ h) name\<rparr> im im'"
proof -
  let ?e = "\<lparr>de_inum = ip, de_name = take (DIRSIZ h) name\<rparr>"
  have loop: "daddent_loop h dp name im 0 = ret (map_option (pos h) (gap h name (entries h im dp)), im)"
    using daddent_loop_spec[OF d, of 0 name] by (simp add: pos_0 gap_def split: option.splits)
  have nm: "name_ok h (take (DIRSIZ h) name)" using nz by (auto simp: name_ok_def dest: in_set_takeD)
  have dec: "de_dec h (de_enc h ?e) = ?e" "length (de_enc h ?e) = de_size h"
    using dir_okD(2)[OF d] ip(2) nm by (auto simp: de_ok_def)
  show ?thesis
  proof (cases "gap h name (entries h im dp)")
    case None
    then show ?thesis by (simp add: daddent_def loop)
  next
    case (Some i)
    then have i: "i \<le> nent h im dp" using gap_le by fastforce
    have "daddent h im dp name ip = kbind (iwrite h im dp (de_enc h ?e) (pos h i)) (\<lambda>(n, im).
        if n \<noteq> int (de_size h) then ret (- 1, im) else ret (0, linked h name ip im))"
      using Some unfolding linked_def by (simp add: daddent_def loop geti_eq[OF ip(1)])
    with write_entry[OF d i dec(2)] Some show ?thesis
      by (cases "max_size h < Suc i * de_size h"; cases "no_room h im dp i") (auto simp: dec(1))
  qed
qed


text \<open>Afterwards the name leads to the file, if it was not there before.\<close>

lemma scan_put:
  assumes "scan P es 0 = None" "i \<le> length es" "P e"
  shows "scan P (put_entry i e es) 0 = Some i"
proof -
  have no: "\<not> P (put_entry i e es ! k)" if "k < i" for k
    using scan_none[OF assms(1), of k] assms(2) that by (auto simp: put_entry_def nth_append)
  have yes: "i < length (put_entry i e es)" "P (put_entry i e es ! i)"
    using assms(2,3) by (auto simp: put_entry_def nth_append)
  show ?thesis
  proof (cases "scan P (put_entry i e es) 0")
    case None
    from scan_none[OF this, of i] yes show ?thesis by simp
  next
    case (Some j)
    from scan_lt[OF this] no[of j] yes(2) have "j = i" by (metis le0 linorder_neqE_nat)
    with Some show ?thesis by simp
  qed
qed

lemma linked_simps [simp]:
  "entries h (linked h' name ip im) = entries h im" "dir_ok h (linked h' name ip im) dp = dir_ok h im dp"
  "sblk (linked h' name ip im) = sblk im" "contents h (linked h' name ip im) = contents h im"
  by (auto simp: linked_def dir_ok_def)

lemma streq_take [simp]: "streq h (take (DIRSIZ h) a) b = streq h a b" "streq h a (take (DIRSIZ h) b) = streq h a b" "streq h a a"
  by (auto simp: streq_def)

lemma daddent_dlookup:
  assumes d: "dir_ok h im dp" and ip: "0 < ip" "ip < unat (sb_ninodes (sblk im))" "ip < 2 ^ 16" and nz: "CHR 0x00 \<notin> set name"
    and new: "dlookup h im dp name = ret ((None, None), im)" and add: "daddent h im dp name ip = ret (0, im')"
  shows "\<exists>off. dlookup h im' dp name = ret ((Some ip, Some off), im')"
proof -
  let ?e = "\<lparr>de_inum = ip, de_name = take (DIRSIZ h) name\<rparr>"
  have none: "scan (\<lambda>e. streq h name (de_name e)) (entries h im dp) 0 = None"
    using new unfolding dlookup_spec[OF d] by (auto split: option.splits)
  obtain i im1 where i: "gap h name (entries h im dp) = Some i" and im1: "im' = linked h name ip im1" "stored h dp i ?e im im1"
    using daddent_spec[OF d ip(2,3) nz] add by (auto simp: no_space_def split: option.splits if_splits)
  have d': "dir_ok h im' dp" using im1 by (simp add: stored_def)
  have es: "entries h im' dp = put_entry i ?e (entries h im dp)" using im1 by (simp add: stored_def)
  have "scan (\<lambda>e. streq h name (de_name e)) (entries h im' dp) 0 = Some i"
    unfolding es by (rule scan_put[OF none gap_le[OF i]]) simp
  moreover have "entries h im' dp ! i = ?e" using gap_le[OF i] by (auto simp: es put_entry_def nth_append)
  moreover have "iget im' ip = Some ip" using ip im1 by (simp add: iget_def stored_def)
  ultimately show ?thesis using dlookup_spec[OF d', of name] by simp
qed

section \<open>Walking\<close>

lemma skipelem_sep: "skipelem h (CHR ''/'' # q) = skipelem h q"
  by (simp add: skipelem_eq is_sep_def)

lemma ilookup_sep: "ilookup h im rp (CHR ''/'' # q) = ilookup h im rp q"
  by (subst (1 2) ilookup.simps) (simp add: skipelem_sep)

lemma dropWhile_append_sep:
  "dropWhile (\<lambda>c. \<not> is_sep c) (s @ CHR ''/'' # q) = dropWhile (\<lambda>c. \<not> is_sep c) s @ CHR ''/'' # q"
  "takeWhile (\<lambda>c. \<not> is_sep c) (s @ CHR ''/'' # q) = takeWhile (\<lambda>c. \<not> is_sep c) s"
  by (induction s) (auto simp: is_sep_def)

lemma skipelem_append:
  assumes "skipelem h p = (p', name)" "name \<noteq> ''''"
  shows "skipelem h (p @ CHR ''/'' # q) = (p' @ CHR ''/'' # q, name)"
proof -
  let ?s = "dropWhile is_sep p"
  have "?s \<noteq> ''''" using assms unfolding skipelem_eq by (metis takeWhile.simps(1) take_Nil prod.inject)
  then have "dropWhile is_sep (p @ CHR ''/'' # q) = ?s @ CHR ''/'' # q" by (metis dropWhile_append dropWhile_eq_Nil_conv)
  then show ?thesis using assms by (simp add: skipelem_eq dropWhile_append_sep)
qed


lemma ilookup_empty:
  assumes "snd (skipelem h p) = ''''"
  shows "ilookup h im rp p = kbind (kassert (d_type (inode im rp) = T_DIR) ''ilookup'') (\<lambda>_. ret (Some rp, im))"
  using assms by (subst ilookup.simps) (simp add: is_empty_def case_prod_unfold Let_def)

text \<open>A path without elements: separators only, or names of length zero.\<close>

lemma skipelem_none:
  assumes "skipelem h p = (p', '''')"
  shows "snd (skipelem h q) = '''' \<or> (\<forall>c\<in>set p. is_sep c)"
proof (cases "dropWhile is_sep p = ''''")
  case True
  then show ?thesis by (simp add: dropWhile_eq_Nil_conv)
next
  case False
  then have "takeWhile (\<lambda>c. \<not> is_sep c) (dropWhile is_sep p) \<noteq> ''''"
    by (metis hd_dropWhile takeWhile_eq_Nil_iff)
  then have "DIRSIZ h = 0" using assms by (simp add: skipelem_eq)
  then show ?thesis by (simp add: skipelem_eq)
qed

lemma ilookup_seps:
  assumes "\<forall>c\<in>set p. is_sep c"
  shows "ilookup h im rp (p @ q) = ilookup h im rp q"
proof -
  have "skipelem h (p @ q) = skipelem h q" using assms by (simp add: skipelem_eq)
  then show ?thesis by (subst (1 2) ilookup.simps) simp
qed

definition and_then :: "fs_h \<Rightarrow> string \<Rightarrow> nat option \<times> img \<Rightarrow> (nat option \<times> img) kres" where
  "and_then h q = (\<lambda>(r, im). case r of
       None \<Rightarrow> ret (None, im)
     | Some ip \<Rightarrow> if d_type (inode im ip) = T_DIR then ilookup h im ip q else ret (None, im))"

lemma ilookup_append_spec:
  "ilookup h im rp (p @ CHR ''/'' # q) = kbind (ilookup h im rp p) (and_then h q)"
proof (induction h im rp p rule: ilookup.induct)
  case (1 h im rp p)
  obtain p' name where sk: "skipelem h p = (p', name)" by (cases "skipelem h p")
  show ?case
  proof (cases "name = ''''")
    case True
    then have e: "snd (skipelem h p) = ''''" "skipelem h p = (p', '''')" using sk by auto
    have "ilookup h im rp (p @ CHR ''/'' # q) = ilookup h im rp q"
    proof (cases "\<forall>c\<in>set p. is_sep c")
      case True
      then show ?thesis by (simp add: ilookup_seps ilookup_sep)
    next
      case False
      then have "snd (skipelem h r) = ''''" for r using skipelem_none[OF e(2), of r] by blast
      then show ?thesis by (simp add: ilookup_empty)
    qed
    moreover have "ilookup h im rp q = halt (Assertion ''ilookup'')" if "d_type (inode im rp) \<noteq> T_DIR"
      using that by (subst ilookup.simps) (simp add: kassert_def)
    ultimately show ?thesis using ilookup_empty[OF e(1)]
      by (cases "d_type (inode im rp) = T_DIR") (simp_all add: kassert_def and_then_def)
  next
    case False
    note ska = skipelem_append[OF sk False, of q]
    have "ilookup h im rp (p @ CHR ''/'' # q) = kbind (kassert (d_type (inode im rp) = T_DIR) ''ilookup'') (\<lambda>_.
        kbind (dlookup h im rp name) (\<lambda>((ip, _), im).
          case ip of None \<Rightarrow> ret (None, im)
          | Some ip \<Rightarrow> if d_type (inode im ip) \<noteq> T_DIR then ret (None, im) else ilookup h im ip (p' @ CHR ''/'' # q)))"
      using ska False by (subst ilookup.simps) (simp add: is_empty_def cong: option.case_cong)
    also have "\<dots> = kbind (ilookup h im rp p) (and_then h q)"
    proof (cases "p' = ''''")
      case True
      then show ?thesis using sk False unfolding ilookup.simps[of h im rp p]
        by (auto simp: is_empty_def and_then_def ilookup_sep kbind_assoc split: option.splits intro!: kbind_cong)
    next
      case p': False
      have ih: "ilookup h im2 ip (p' @ CHR ''/'' # q) = kbind (ilookup h im2 ip p') (and_then h q)"
        if "d_type (inode im rp) = T_DIR" "dlookup h im rp name = ret ((Some ip, off), im2)" "d_type (inode im2 ip) = T_DIR" for im2 ip off
        by (rule "1.IH") (use that sk False p' in \<open>auto simp: is_empty_def kassert_def\<close>)
      show ?thesis using sk False p' ih unfolding ilookup.simps[of h im rp p]
        by (auto simp: is_empty_def and_then_def kbind_assoc kassert_def split: option.splits intro!: kbind_cong)
    qed
    finally show ?thesis .
  qed
qed


definition dirs_ok :: "fs_h \<Rightarrow> img \<Rightarrow> bool" where
  "dirs_ok h im \<longleftrightarrow> img_ok h im \<and> de_ok h \<and> (\<forall>dp. d_type (inode im dp) = T_DIR \<longrightarrow> de_size h dvd fsize im dp)"

lemma dirs_okD: "dirs_ok h im \<Longrightarrow> d_type (inode im dp) = T_DIR \<Longrightarrow> dir_ok h im dp"
  by (simp add: dirs_ok_def dir_ok_def)

text \<open>On a well-formed image walking ends and changes nothing.\<close>

lemma ilookup_total:
  assumes "dirs_ok h im" "d_type (inode im rp) = T_DIR"
  shows "\<exists>r. ilookup h im rp path = ret (r, im)"
  using assms
proof (induction "length path" arbitrary: rp path rule: less_induct)
  case less
  obtain p' name where sk: "skipelem h path = (p', name)" by (cases "skipelem h path")
  obtain r where dl: "dlookup h im rp name = ret (r, im)"
    using dlookup_spec[OF dirs_okD[OF less.prems], of name] by blast
  show ?case
  proof (cases "\<exists>ip. name \<noteq> '''' \<and> fst r = Some ip \<and> p' \<noteq> '''' \<and> d_type (inode im ip) = T_DIR")
    case True
    then obtain ip where ip: "name \<noteq> ''''" "fst r = Some ip" "p' \<noteq> ''''" "d_type (inode im ip) = T_DIR" by blast
    have "\<exists>r. ilookup h im ip p' = ret (r, im)"
      using skipelem_shorter[OF sk ip(1)] less.prems(1) ip(4) by (intro less.hyps) auto
    then show ?thesis using sk dl ip less.prems(2)
      by (subst ilookup.simps) (simp add: is_empty_def case_prod_unfold)
  next
    case False
    then show ?thesis using sk dl less.prems(2)
      by (subst ilookup.simps, cases r, cases "fst r") (auto simp: is_empty_def Let_def)
  qed
qed

section \<open>Empty directories\<close>

lemma emptydir_loop_spec:
  assumes d: "dir_ok h im dp"
  shows "i \<le> nent h im dp \<Longrightarrow> emptydir_loop h dp im (pos h i) buf k =
    ret (k + length (filter (\<lambda>e. de_inum e \<noteq> 0) (drop i (entries h im dp))), im)"
proof (induction "nent h im dp - i" arbitrary: i buf k)
  case 0
  then show ?case using slot_word(4)[OF d, of i] by (subst emptydir_loop.simps) simp
next
  case (Suc m)
  then have i: "i < nent h im dp" by simp
  obtain bs where bs: "iread h im dp (of_nat (de_size h)) (pos h i) = ret (Some bs, im)"
    "length bs = de_size h" "de_dec h bs = entries h im dp ! i" using read_entry[OF d i] by blast
  have ih: "emptydir_loop h dp im (pos h (Suc i)) buf' k' =
    ret (k' + length (filter (\<lambda>e. de_inum e \<noteq> 0) (drop (Suc i) (entries h im dp))), im)" for buf' k'
    using Suc by (intro Suc.hyps(1)) auto
  have "drop i (entries h im dp) = entries h im dp ! i # drop (Suc i) (entries h im dp)"
    using i by (simp add: Cons_nth_drop_Suc)
  moreover have "pos h i < d_size (inode im dp)" using slot_word(4)[OF d less_imp_le[OF i]] i by simp
  ultimately show ?case using bs ih slot_word(3)[OF d less_imp_le[OF i]]
    by (subst emptydir_loop.simps) (simp add: refill_def)
qed

lemma emptydir_spec:
  assumes "dir_ok h im dp"
  shows "emptydir h im dp = ret (length (filter (\<lambda>e. de_inum e \<noteq> 0) (entries h im dp)) = 2, im)"
  using emptydir_loop_spec[OF assms, of 0 None 0] by (simp add: emptydir_def pos_0)

section \<open>Removing the last link\<close>

lemma lacks_none:
  assumes "img_ok h im" "off + l \<le> fsize im ip"
  shows "lacks h im ip (span off l) = 0"
proof -
  have "Pair ip ` span off l - used h im = {}"
    using span_mono[OF assms(2)] img_okD(5)[OF assms(1), of ip] by (auto simp: used_def)
  then show ?thesis by (simp add: lacks_def)
qed

lemma overwrite_entry:
  assumes d: "dir_ok h im dp" and i: "i < nent h im dp" and b: "length b = de_size h"
  shows "\<exists>im'. iwrite h im dp b (pos h i) = ret (int (de_size h), im') \<and> stored h dp i (de_dec h b) im im'"
proof -
  have "Suc i * de_size h \<le> fsize im dp" using mult_le_mono1[of "Suc i" "nent h im dp" "de_size h"] i dir_okD(4)[OF d] by simp
  moreover from this have "\<not> no_room h im dp i"
    using lacks_none[OF dir_okD(1)[OF d], of "i * de_size h" "de_size h" dp] by (simp add: no_room_def add.commute)
  ultimately show ?thesis using write_entry[OF d less_imp_le[OF i] b] img_okD(2)[OF dir_okD(1)[OF d], of dp] by auto
qed

lemma itruncate_zero:
  assumes ok: "img_ok h im" and t: "d_type (inode im ip) \<noteq> T_DEV"
  shows "\<exists>im'. itruncate h im ip 0 = ret (0, im') \<and> wrote h ip (\<lambda>_. []) im im'"
proof (cases "fsize im ip = 0")
  case True
  then have "contents h im ip = []" by (simp add: contents_def)
  then show ?thesis using itruncate_up[OF ok t, of 0] lacks_none[OF ok, of 0 0 ip] True by (auto simp: wrote_def)
next
  case False
  then show ?thesis using itruncate_down[OF ok t, of 0] by (auto simp: wrote_def)
qed

text \<open>The image after the last link to \<open>ip\<close> is gone: its blocks and its inode are free.\<close>

lemma drop_link_last:
  assumes ok: "img_ok h im" and ip: "0 < ip" "ip < unat (sb_ninodes (sblk im))"
    and n: "d_nlink (inode im ip) = 1" and t: "d_type (inode im ip) \<noteq> T_DEV"
  shows "\<exists>im'. drop_link h im ip = ret (0, im') \<and> img_ok h im' \<and> leaked h im' = leaked h im \<and> sblk im' = sblk im \<and>
    contents h im' = (contents h im)(ip := []) \<and> d_type (inode im' ip) = 0 \<and>
    (\<forall>jp. jp \<noteq> ip \<longrightarrow> attr (inode im' jp) = attr (inode im jp))"
proof -
  let ?im = "link_dec ip im"
  obtain im1 where im1: "itruncate h ?im ip 0 = ret (0, im1)" "wrote h ip (\<lambda>_. []) ?im im1"
    using itruncate_zero[of h ?im ip] ok t by auto
  let ?im' = "upd_inode ip (\<lambda>d. d\<lparr>d_type := 0\<rparr>) im1"
  have s: "sblk im1 = sblk im" using im1(2) by (simp add: wrote_def)
  have "d_nlink (inode ?im ip) = 0" using n by (simp add: link_dec_def upd_inode_def)
  then have "drop_link h im ip = ret (0, snd (ifree im1 (geti im1 ip)))" using im1(1) t by (simp add: drop_link_def)
  also have "snd (ifree im1 (geti im1 ip)) = ?im'" using ip s by (simp add: geti_eq ifree_def iget_def)
  finally have "drop_link h im ip = ret (0, ?im')" .
  moreover have "contents h ?im' = (contents h im)(ip := [])" "img_ok h ?im'" "leaked h ?im' = leaked h im"
    using im1(2) by (simp_all add: upd_inode_keeps wrote_def)
  moreover have "attr (inode ?im' jp) = attr (inode im jp)" if "jp \<noteq> ip" for jp
    using im1(2) that by (simp add: wrote_def upd_inode_def link_dec_def)
  moreover have "sblk ?im' = sblk im" "d_type (inode ?im' ip) = 0" using s by (simp_all add: upd_inode_def)
  ultimately show ?thesis by blast
qed


lemma skipelem_name:
  assumes "CHR ''/'' \<notin> set name" "length name \<le> DIRSIZ h"
  shows "skipelem h name = ('''', name)"
proof -
  have "\<not> is_sep c" if "c \<in> set name" for c using assms(1) that by (auto simp: is_sep_def)
  then have "dropWhile is_sep name = name" "takeWhile (\<lambda>c. \<not> is_sep c) name = name" "dropWhile (\<lambda>c. \<not> is_sep c) name = []"
    by (cases name; auto simp: takeWhile_eq_all_conv)+
  then show ?thesis unfolding skipelem_eq using assms(2) by (simp only: take_all)
qed

lemma iunlink_last_spec:
  assumes d: "dir_ok h im rp" and nm: "name \<noteq> ''''" "CHR ''/'' \<notin> set name" "length name \<le> DIRSIZ h"
    "\<not> streq h name ''.''" "\<not> streq h name ''..''"
    and j: "scan (\<lambda>e. streq h name (de_name e)) (entries h im rp) 0 = Some j" "de_inum (entries h im rp ! j) = ip"
    and ip: "0 < ip" "ip < unat (sb_ninodes (sblk im))" "d_type (inode im ip) = T_FILE" "d_nlink (inode im ip) = 1"
  shows "\<exists>im'. iunlink h im rp name = ret (0, im') \<and> dir_ok h im' rp \<and> leaked h im' = leaked h im \<and>
    entries h im' rp = (entries h im rp)[j := \<lparr>de_inum = 0, de_name = ''''\<rparr>] \<and>
    d_type (inode im' ip) = 0 \<and> contents h im' ip = [] \<and>
    (\<forall>jp. jp \<noteq> ip \<longrightarrow> attr (inode im' jp) = attr (inode im jp)) \<and>
    (\<forall>jp. jp \<noteq> ip \<longrightarrow> jp \<noteq> rp \<longrightarrow> contents h im' jp = contents h im jp)"
proof -
  let ?z = "\<lparr>de_inum = 0, de_name = ''''\<rparr>"
  have ne: "ip \<noteq> rp" using ip(3) dir_okD(3)[OF d] by (auto simp: T_FILE_def T_DIR_def)
  have lt: "j < nent h im rp" using scan_lt[OF j(1)] by simp
  have zd: "de_dec h (replicate (de_size h) 0) = ?z" using dir_okD(2)[OF d] by (simp add: de_ok_def)
  obtain im1 where im1: "iwrite h im rp (replicate (de_size h) 0) (pos h j) = ret (int (de_size h), im1)" "stored h rp j ?z im im1"
    using overwrite_entry[OF d lt, of "replicate (de_size h) 0"] zd by auto
  have at: "attr (inode im1 jp) = attr (inode im jp)" for jp using im1(2) by (simp add: stored_def)
  then have ft: "d_type (inode im1 ip) = T_FILE" "d_nlink (inode im1 ip) = 1" using ip(3,4) at[of ip] by (auto simp: attr_def)
  have d1: "dir_ok h im1 rp" and s1: "sblk im1 = sblk im" using im1(2) by (auto simp: stored_def)
  obtain im' where im': "drop_link h im1 ip = ret (0, im')" "img_ok h im'" "sblk im' = sblk im1" "contents h im' = (contents h im1)(ip := [])"
    "d_type (inode im' ip) = 0" "\<forall>jp. jp \<noteq> ip \<longrightarrow> attr (inode im' jp) = attr (inode im1 jp)" "leaked h im' = leaked h im1"
    using drop_link_last[OF dir_okD(1)[OF d1] ip(1), of] ip(2) ft s1 by (auto simp: T_FILE_def T_DEV_def)
  have "unlink_at h im rp ip (pos h j) = ret (0, im')"
    using im1(1) im'(1) ft(1) by (simp add: unlink_at_def T_FILE_def T_DIR_def)
  then have "iunlink h im rp name = ret (0, im')"
    using dlookup_spec[OF d, of name] j ip nm skipelem_name[OF nm(2,3)] dir_okD(3)[OF d]
    by (subst iunlink.simps) (simp add: is_empty_def iget_def)
  moreover have e: "entries h im' rp = (entries h im rp)[j := ?z]"
    using im1(2) im'(4) ne lt by (simp add: entries_def[of h im'] stored_def) (simp add: entries_def put_entry_def length_entries[unfolded entries_def])
  moreover have "fsize im' rp = fsize im1 rp"
    using im'(4) ne length_contents[of h im' rp] length_contents[of h im1 rp] by simp
  moreover have "d_type (inode im' rp) = T_DIR" using im'(6) ne dir_okD(3)[OF d1] by (auto simp: attr_def)
  ultimately show ?thesis using im' at im1(2) ne d1 by (auto simp: dir_ok_def stored_def)
qed


section \<open>Properties\<close>

lemma demo_name:
  assumes "length s \<le> 14" "CHR 0x00 \<notin> set s"
  shows "map (char_of \<circ> unat) (takeWhile (\<lambda>b. b \<noteq> 0) (take 14 (map (of_nat \<circ> of_char) s @ replicate 14 (0 :: u8)))) = s"
proof -
  let ?f = "\<lambda>c. of_nat (of_char c) :: u8"
  have u: "unat (?f c) = of_char c" for c by (simp add: unat_of_nat)
  have nz: "?f c \<noteq> 0" if "c \<in> set s" for c
  proof
    assume "?f c = 0"
    then have "(of_char c :: nat) = 0" using u[of c] by simp
    then have "c = char_of (0 :: nat)" by (metis char_of_char)
    then have "c = CHR 0x00" by (simp add: char_of_def)
    then show False using that assms(2) by simp
  qed
  have "take 14 (map (of_nat \<circ> of_char) s @ replicate 14 (0 :: u8)) = map ?f s @ replicate (14 - length s) 0"
    using assms(1) by (simp add: take_append min_def)
  moreover have "takeWhile (\<lambda>b. b \<noteq> 0) (map ?f s @ replicate n 0) = map ?f s" for n
    using nz by (subst takeWhile_append2) (auto simp: takeWhile_replicate)
  moreover have "map (char_of \<circ> unat) (map ?f s) = s" by (simp add: u o_def)
  ultimately show ?thesis by simp
qed

lemma demo_de_ok: "de_ok demo_h"
proof -
  have "de_dec demo_h (de_enc demo_h d) = d" if "de_inum d < 2 ^ 16" "name_ok demo_h (de_name d)" for d
  proof -
    have "unat (of_nat (de_inum d) :: u8) + 256 * unat (of_nat (de_inum d div 256) :: u8) = de_inum d"
      using that(1) by (simp add: unat_of_nat)
    then show ?thesis using that(2) demo_name[of "de_name d"] by (simp add: demo_h_def name_ok_def)
  qed
  moreover have "length (de_enc demo_h d) = de_size demo_h" for d by (simp add: demo_h_def min_def)
  moreover have "de_dec demo_h (replicate (de_size demo_h) 0) = \<lparr>de_inum = 0, de_name = ''''\<rparr>" "0 < de_size demo_h" "de_size demo_h \<le> BSIZE"
    by (simp_all add: demo_h_def BSIZE_def)
  ultimately show ?thesis unfolding de_ok_def by blast
qed

lemma demo_dir: "dir_ok demo_h demo_img 1" "entries demo_h demo_img 1 = []" "nent demo_h demo_img 1 = 0"
proof -
  have "fsize demo_img 1 = 0" by (simp add: fsize_def demo_img_def)
  then show "dir_ok demo_h demo_img 1" "entries demo_h demo_img 1 = []" "nent demo_h demo_img 1 = 0"
    by (auto simp: dir_ok_def demo_ok demo_de_ok nent_def entries_def parse_def contents_def) (simp add: demo_img_def)
qed


text \<open>
  C35: adding a directory entry, with the directory seen as the list of its entries. A name that stands before the first empty
  entry is refused, and so is a directory that would get too long; the tool stops when the directory
  needs a block and none is free; otherwise the entry takes the place of the first empty one, or is appended, no other file
  changes, and the link count of the file goes up unless the name is a single dot.
\<close>

theorem daddent_refines:
  assumes "dir_ok h im dp" "ip < unat (sb_ninodes (sblk im))" "ip < 2 ^ 16" "CHR 0x00 \<notin> set name"
  shows "case gap h name (entries h im dp) of
      None \<Rightarrow> daddent h im dp name ip = ret (- 1, im)
    | Some i \<Rightarrow>
        if max_size h < Suc i * de_size h then daddent h im dp name ip = ret (- 1, im)
        else if no_room h im dp i then no_space (daddent h im dp name ip)
        else \<exists>im'. daddent h im dp name ip = ret (0, if \<not> streq h name ''.'' then link_inc ip im' else im') \<and>
          dir_ok h im' dp \<and> (\<forall>jp. attr (inode im' jp) = attr (inode im jp)) \<and>
          (\<forall>jp. jp \<noteq> dp \<longrightarrow> contents h im' jp = contents h im jp) \<and>
          entries h im' dp = put_entry i \<lparr>de_inum = ip, de_name = take (DIRSIZ h) name\<rparr> (entries h im dp)"
  using daddent_spec[OF assms] by (simp only: stored_def linked_def cong: option.case_cong) (auto split: option.splits if_splits)

lemma demo_add:
  "gap demo_h ''a'' (entries demo_h demo_img 1) = Some 0" "\<not> max_size demo_h < Suc 0 * de_size demo_h" "\<not> no_room demo_h demo_img 1 0"
  "(2 :: nat) < unat (sb_ninodes (sblk demo_img))" "(2 :: nat) < 2 ^ 16" "CHR 0x00 \<notin> set ''a''" "\<not> streq demo_h ''a'' ''.''"
proof -
  have "free_blocks demo_img = {6..<56}" by (rule demo_free)
  moreover have "span 0 16 = {Data 0}" by (auto simp: span_def slots_def BSIZE_def NDIRECT_def)
  moreover have "de_size demo_h = 16" by (simp add: demo_h_def)
  ultimately show "\<not> no_room demo_h demo_img 1 0" by (simp add: no_room_def lacks_single demo_ref)
  show "gap demo_h ''a'' (entries demo_h demo_img 1) = Some 0" using demo_dir(2) by (simp add: gap_def scan_def)
qed (simp_all add: demo_h_def demo_img_def max_size_def NDIRECT_def BSIZE_def streq_def)

theorem daddent_refines_witness:
  "\<exists>im'. daddent demo_h demo_img 1 ''a'' 2 = ret (0, link_inc 2 im') \<and>
     entries demo_h im' 1 = [\<lparr>de_inum = 2, de_name = ''a''\<rparr>]"
proof -
  have "take (DIRSIZ demo_h) ''a'' = ''a''" by (simp add: demo_h_def)
  then show ?thesis using daddent_refines[OF demo_dir(1) demo_add(4-6)] demo_add(1,2,3,7) demo_dir(2)
    by (auto simp: put_entry_def)
qed

text \<open>
  A name that was not in the directory leads to the file after it has been added.
\<close>

theorem daddent_then_dlookup:
  assumes "dir_ok h im dp" "0 < ip" "ip < unat (sb_ninodes (sblk im))" "ip < 2 ^ 16" "CHR 0x00 \<notin> set name"
    and "dlookup h im dp name = ret ((None, None), im)" "daddent h im dp name ip = ret (0, im')"
  shows "\<exists>off. dlookup h im' dp name = ret ((Some ip, Some off), im')"
  by (rule daddent_dlookup[OF assms])

lemma demo_added:
  obtains im' where "daddent demo_h demo_img 1 ''a'' 2 = ret (0, link_inc 2 im')"
    "stored demo_h 1 0 \<lparr>de_inum = 2, de_name = ''a''\<rparr> demo_img im'"
proof -
  have "take (DIRSIZ demo_h) ''a'' = ''a''" by (simp add: demo_h_def)
  then show ?thesis using daddent_spec[OF demo_dir(1) demo_add(4-6)] demo_add(1,2,3,7) that by (auto simp: linked_def)
qed

theorem daddent_then_dlookup_witness:
  "\<exists>im' off. daddent demo_h demo_img 1 ''a'' 2 = ret (0, im') \<and> dlookup demo_h im' 1 ''a'' = ret ((Some 2, Some off), im')"
proof -
  obtain im' where a: "daddent demo_h demo_img 1 ''a'' 2 = ret (0, link_inc 2 im')" by (rule demo_added)
  have "dlookup demo_h demo_img 1 ''a'' = ret ((None, None), demo_img)"
    using dlookup_spec[OF demo_dir(1), of "''a''"] demo_dir(3) by (simp add: scan_def)
  from daddent_then_dlookup[OF demo_dir(1) _ demo_add(4-6) this a] a show ?thesis by auto
qed

text \<open>
  C36: a path is walked from left to right. Looking up two parts joined by a separator is looking up the first, and, if that is a
  directory, the second from there; a path whose first part is missing or no directory leads nowhere.
\<close>

theorem ilookup_append:
  "ilookup h im rp (p @ ''/'' @ q) =
     kbind (ilookup h im rp p) (\<lambda>(r, im).
       case r of
         None \<Rightarrow> ret (None, im)
       | Some ip \<Rightarrow> if d_type (inode im ip) = T_DIR then ilookup h im ip q else ret (None, im))"
  using ilookup_append_spec[of h im rp p q] by (simp add: and_then_def)

text \<open>
  C37: removing the only link to a file. The entry is erased and all others stay, the file loses its contents and its inode
  becomes free, no other file is touched, the image stays well-formed, and no block is leaked, so those of the file are free.
\<close>

theorem iunlink_last:
  assumes "dir_ok h im rp" "name \<noteq> ''''" "CHR ''/'' \<notin> set name" "length name \<le> DIRSIZ h"
    "\<not> streq h name ''.''" "\<not> streq h name ''..''"
    "scan (\<lambda>e. streq h name (de_name e)) (entries h im rp) 0 = Some j" "de_inum (entries h im rp ! j) = ip"
    "0 < ip" "ip < unat (sb_ninodes (sblk im))" "d_type (inode im ip) = T_FILE" "d_nlink (inode im ip) = 1"
  shows "\<exists>im'. iunlink h im rp name = ret (0, im') \<and> dir_ok h im' rp \<and> leaked h im' = leaked h im \<and>
    entries h im' rp = (entries h im rp)[j := \<lparr>de_inum = 0, de_name = ''''\<rparr>] \<and>
    d_type (inode im' ip) = 0 \<and> contents h im' ip = [] \<and>
    (\<forall>jp. jp \<noteq> ip \<longrightarrow> attr (inode im' jp) = attr (inode im jp)) \<and>
    (\<forall>jp. jp \<noteq> ip \<longrightarrow> jp \<noteq> rp \<longrightarrow> contents h im' jp = contents h im jp)"
  by (rule iunlink_last_spec[OF assms])

theorem iunlink_last_witness:
  "\<exists>im im'. daddent demo_h demo_img 1 ''a'' 2 = ret (0, im) \<and> iunlink demo_h im 1 ''a'' = ret (0, im') \<and>
     entries demo_h im' 1 = [\<lparr>de_inum = 0, de_name = ''''\<rparr>] \<and> d_type (inode im' 2) = 0"
proof -
  obtain im where a: "daddent demo_h demo_img 1 ''a'' 2 = ret (0, link_inc 2 im)"
    "stored demo_h 1 0 \<lparr>de_inum = 2, de_name = ''a''\<rparr> demo_img im" by (rule demo_added)
  let ?im = "link_inc 2 im"
  have e: "entries demo_h ?im 1 = [\<lparr>de_inum = 2, de_name = ''a''\<rparr>]" and d: "dir_ok demo_h ?im 1"
    using a(2) demo_dir(2,3) by (auto simp: stored_def put_entry_def dir_ok_def)
  have at: "attr (inode im 2) = attr (inode demo_img 2)" and s: "sblk im = sblk demo_img" using a(2) by (auto simp: stored_def)
  then have "d_type (inode ?im 2) = T_FILE" "d_nlink (inode ?im 2) = 1"
    by (simp_all add: attr_def demo_img_def link_inc_def upd_inode_def)
  moreover have "DIRSIZ demo_h = 14" "(2 :: nat) < unat (sb_ninodes (sblk ?im))" using s demo_add(4) by (simp_all add: demo_h_def)
  moreover from this(1) have "scan (\<lambda>x. streq demo_h ''a'' (de_name x)) (entries demo_h ?im 1) 0 = Some 0"
    unfolding e by (simp add: scan_def streq_def)
  ultimately show ?thesis using iunlink_last[OF d, of "''a''" 0 2] a(1) unfolding e by (auto simp: streq_def)
qed

end
