(* ===== verification/Opfs.thy ===== *)
theory Opfs
  imports Libfs_Dir
begin

text \<open>
  The commands of the image tool (tools/opfs.c). A command gets its arguments and returns the exit status, what it
  prints to the standard output, and the image. Messages to the standard error output are left out. \<^verbatim>\<open>fatal\<close> and
  failed assertions stop the command as faults.
\<close>

datatype item = Num int | Txt string | Bytes "u8 list"

type_synonym outcome = "(int \<times> item list \<times> img) kres"

definition EXIT_SUCCESS :: int where
  "EXIT_SUCCESS = 0"

definition EXIT_FAILURE :: int where
  "EXIT_FAILURE = 1"

definition BUFSIZE :: nat where
  "BUFSIZE = 1024"

definition failed :: "img \<Rightarrow> outcome" where
  "failed im = ret (EXIT_FAILURE, [], im)"

definition succeeded :: "img \<Rightarrow> outcome" where
  "succeeded im = ret (EXIT_SUCCESS, [], im)"

text \<open>\<^verbatim>\<open>root_inode\<close> is set by the main function; a null pointer fails the assertion of the operation that gets it.\<close>

definition with_root :: "img \<Rightarrow> (nat \<Rightarrow> 'a kres) \<Rightarrow> 'a kres" where
  "with_root im f = (case iget im root_inode_number of None \<Rightarrow> halt (Assertion ''root_inode'') | Some rp \<Rightarrow> f rp)"

definition lookup_root :: "fs_h \<Rightarrow> img \<Rightarrow> string \<Rightarrow> (nat option \<times> img) kres" where
  "lookup_root h im path = with_root im (\<lambda>rp. ilookup h im rp path)"

section \<open>Inspecting\<close>

text \<open>Byte \<open>k\<close> of the bitmap.\<close>

definition bm_byte :: "img \<Rightarrow> nat \<Rightarrow> u32" where
  "bm_byte im k = sum_list (map (\<lambda>j. if bmbits im (8 * k + j) then 2 ^ j else 0) [0..<8])"

definition count_type :: "img \<Rightarrow> nat \<Rightarrow> u16 \<Rightarrow> nat" where
  "count_type im Ni t = length (filter (\<lambda>i. d_type (inode im i) = t) [0..<Ni * IPB])"

definition do_diskinfo :: "fs_h \<Rightarrow> img \<Rightarrow> string list \<Rightarrow> outcome" where
  "do_diskinfo h im argv =
     (if argv \<noteq> [] then failed im
      else
        let N = sb_size (sblk im);
            Ni = sb_ninodes (sblk im) div of_nat IPB + 1;
            Nm = N div of_nat (BSIZE * 8) + 1;
            Nd = sb_nblocks (sblk im);
            Nl = sb_nlog (sblk im);
            nblocks = sum_list (map (\<lambda>k. unat (bitcount (bm_byte im k))) [0..<unat Nm * BSIZE]);
            n_dirs = count_type im (unat Ni) T_DIR;
            n_files = count_type im (unat Ni) T_FILE;
            n_devs = count_type im (unat Ni) T_DEV
        in ret (EXIT_SUCCESS,
             [Txt ''total blocks'', Num (sint N), Num (sint (N * of_nat BSIZE)),
              Txt ''inode blocks'', Num 2, Num (sint (Ni + 1)), Num (sint Ni), Num (sint (sb_ninodes (sblk im))),
              Txt ''bitmap blocks'', Num (sint (Ni + 2)), Num (sint (Ni + Nm + 1)), Num (sint Nm),
              Txt ''data blocks'', Num (sint (Ni + Nm + 2)), Num (sint (Ni + Nm + Nd + 1)), Num (sint Nd),
              Txt ''log blocks'', Num (sint (Ni + Nm + Nd + 2)), Num (sint (Ni + Nm + Nd + Nl + 1)), Num (sint Nl),
              Txt ''maximum file size (bytes)'', Num (int (MAXFILESIZE h)),
              Txt ''# of used blocks'', Num (int nblocks),
              Txt ''# of used inodes'', Num (int (n_dirs + n_files + n_devs)), Num (int n_dirs), Num (int n_files), Num (int n_devs)],
             im))"

definition do_info :: "fs_h \<Rightarrow> img \<Rightarrow> string list \<Rightarrow> outcome" where
  "do_info h im argv =
     (case argv of
        [path] \<Rightarrow>
          kbind (lookup_root h im path) (\<lambda>(ip, im).
          case ip of
            None \<Rightarrow> failed im
          | Some ip \<Rightarrow>
              let d = inode im ip;
                  head = [Num (int (geti im ip)), Num (uint (d_type d)), Txt (typename (d_type d)), Num (uint (d_nlink d)), Num (sint (d_size d))]
              in if d_size d > 0 then
                   let direct = takeWhile (\<lambda>a. a \<noteq> 0) (map (addrs d) [0..<NDIRECT]);
                       iaddr = addrs d NDIRECT
                   in if iaddr \<noteq> 0 then
                        kbind (need_block im iaddr) (\<lambda>_.
                          let all = direct @ [iaddr] @ takeWhile (\<lambda>a. a \<noteq> 0) (map (ld32 (blocks im (unat iaddr))) [0..<BSIZE div 4])
                          in ret (EXIT_SUCCESS, head @ map (Num \<circ> sint) all @ [Num (int (length all))], im))
                      else ret (EXIT_SUCCESS, head @ map (Num \<circ> sint) direct @ [Num (int (length direct))], im)
                 else ret (EXIT_SUCCESS, head, im))
      | _ \<Rightarrow> failed im)"

partial_function (option) ls_loop :: "fs_h \<Rightarrow> nat \<Rightarrow> img \<Rightarrow> u32 \<Rightarrow> item list \<Rightarrow> outcome" where
  "ls_loop h ip im off out =
     (if \<not> off < d_size (inode im ip) then ret (EXIT_SUCCESS, out, im)
      else kbind (iread h im ip (of_nat (de_size h)) off) (\<lambda>(r, im).
        case entry_read h r of
          None \<Rightarrow> ret (EXIT_FAILURE, out, im)
        | Some de \<Rightarrow>
            if de_inum de = 0 then ls_loop h ip im (off + of_nat (de_size h)) out
            else (case iget im (de_inum de) of
              None \<Rightarrow> halt (Wild ''p'')
            | Some p \<Rightarrow> ls_loop h ip im (off + of_nat (de_size h))
                (out @ [Txt (take (DIRSIZ h) (de_name de)), Num (uint (d_type (inode im p))), Num (int (de_inum de)),
                   Num (sint (d_size (inode im p)))]))))"

definition do_ls :: "fs_h \<Rightarrow> img \<Rightarrow> string list \<Rightarrow> outcome" where
  "do_ls h im argv =
     (case argv of
        [path] \<Rightarrow>
          kbind (lookup_root h im path) (\<lambda>(ip, im).
          case ip of
            None \<Rightarrow> failed im
          | Some ip \<Rightarrow>
              if d_type (inode im ip) = T_DIR then ls_loop h ip im 0 []
              else ret (EXIT_SUCCESS, [Txt path, Num (uint (d_type (inode im ip))), Num (int (geti im ip)), Num (sint (d_size (inode im ip)))], im))
      | _ \<Rightarrow> failed im)"

section \<open>Reading and writing files\<close>

partial_function (option) get_loop :: "fs_h \<Rightarrow> nat \<Rightarrow> img \<Rightarrow> u32 \<Rightarrow> item list \<Rightarrow> outcome" where
  "get_loop h ip im off out =
     (if \<not> off < d_size (inode im ip) then ret (EXIT_SUCCESS, out, im)
      else kbind (iread h im ip (of_nat BUFSIZE) off) (\<lambda>(r, im).
        case r of
          None \<Rightarrow> ret (EXIT_FAILURE, out, im)
        | Some bs \<Rightarrow> get_loop h ip im (off + of_nat BUFSIZE) (out @ [Bytes bs])))"

definition do_get :: "fs_h \<Rightarrow> img \<Rightarrow> string list \<Rightarrow> outcome" where
  "do_get h im argv =
     (case argv of
        [path] \<Rightarrow>
          kbind (lookup_root h im path) (\<lambda>(ip, im).
          case ip of
            None \<Rightarrow> failed im
          | Some ip \<Rightarrow> get_loop h ip im 0 [])
      | _ \<Rightarrow> failed im)"

text \<open>
  The results of the calls of \<^verbatim>\<open>read\<close> are an argument: the bytes of each call, \<^term>\<open>None\<close> for an error, and nothing
  more once the list is used up.
\<close>

function put_loop :: "fs_h \<Rightarrow> nat \<Rightarrow> u8 list option list \<Rightarrow> img \<Rightarrow> nat \<Rightarrow> outcome" where
  "put_loop h ip reads im off =
     (if \<not> off < MAXFILESIZE h then succeeded im
      else case (case reads of [] \<Rightarrow> Some [] | r # _ \<Rightarrow> r) of
        None \<Rightarrow> failed im
      | Some buf \<Rightarrow> kbind (iwrite h im ip buf (of_nat off)) (\<lambda>(n, im).
          if n \<noteq> int (length buf) then failed im
          else if length buf < BUFSIZE then succeeded im
          else put_loop h ip (drop 1 reads) im (off + BUFSIZE)))"
  by pat_completeness auto
termination by (relation "measure (\<lambda>(h, ip, reads, im, off). MAXFILESIZE h - off)") (auto simp: BUFSIZE_def)

declare put_loop.simps [simp del]

definition do_put :: "fs_h \<Rightarrow> u8 list option list \<Rightarrow> img \<Rightarrow> string list \<Rightarrow> outcome" where
  "do_put h reads im argv =
     (case argv of
        [path] \<Rightarrow>
          kbind (lookup_root h im path) (\<lambda>(ip, im).
          case ip of
            None \<Rightarrow>
              kbind (with_root im (\<lambda>rp. icreat h im rp path T_FILE)) (\<lambda>(r, im).
              case r of None \<Rightarrow> failed im | Some (ip, _) \<Rightarrow> put_loop h ip reads im 0)
          | Some ip \<Rightarrow>
              if d_type (inode im ip) \<noteq> T_FILE then failed im
              else kbind (itruncate h im ip 0) (\<lambda>(_, im). put_loop h ip reads im 0))
      | _ \<Rightarrow> failed im)"

partial_function (option) cp_loop :: "fs_h \<Rightarrow> nat \<Rightarrow> nat \<Rightarrow> img \<Rightarrow> u32 \<Rightarrow> outcome" where
  "cp_loop h sip dip im off =
     (if \<not> off < d_size (inode im sip) then succeeded im
      else kbind (iread h im sip (of_nat BUFSIZE) off) (\<lambda>(r, im).
        case r of
          None \<Rightarrow> failed im
        | Some buf \<Rightarrow> kbind (iwrite h im dip buf off) (\<lambda>(n, im).
            if n \<noteq> int (length buf) then failed im else cp_loop h sip dip im (off + of_nat BUFSIZE))))"

text \<open>The destination: a new file, a new file in a directory, or an existing file that is emptied.\<close>

definition cp_dest :: "fs_h \<Rightarrow> img \<Rightarrow> string \<Rightarrow> string \<Rightarrow> (nat option \<times> img) kres" where
  "cp_dest h im spath dpath =
     kbind (lookup_root h im dpath) (\<lambda>(dip, im).
     let (dname, ddir) = splitpath dpath BUFSIZE in
     case dip of
       None \<Rightarrow>
         if is_empty dname then ret (None, im)
         else kbind (lookup_root h im ddir) (\<lambda>(ddip, im).
           case ddip of
             None \<Rightarrow> ret (None, im)
           | Some ddip \<Rightarrow>
               if d_type (inode im ddip) \<noteq> T_DIR then ret (None, im)
               else kbind (icreat h im ddip dname T_FILE) (\<lambda>(r, im). ret (map_option fst r, im)))
     | Some dip \<Rightarrow>
         if d_type (inode im dip) = T_DIR then
           kbind (icreat h im dip (fst (splitpath spath BUFSIZE)) T_FILE) (\<lambda>(r, im). ret (map_option fst r, im))
         else if d_type (inode im dip) = T_FILE then kbind (itruncate h im dip 0) (\<lambda>(_, im). ret (Some dip, im))
         else if d_type (inode im dip) = T_DEV then ret (None, im)
         else ret (Some dip, im))"

definition do_cp :: "fs_h \<Rightarrow> img \<Rightarrow> string list \<Rightarrow> outcome" where
  "do_cp h im argv =
     (case argv of
        [spath, dpath] \<Rightarrow>
          kbind (lookup_root h im spath) (\<lambda>(sip, im).
          case sip of
            None \<Rightarrow> failed im
          | Some sip \<Rightarrow>
              if d_type (inode im sip) \<noteq> T_FILE then failed im
              else kbind (cp_dest h im spath dpath) (\<lambda>(dip, im).
                case dip of None \<Rightarrow> failed im | Some dip \<Rightarrow> cp_loop h sip dip im 0))
      | _ \<Rightarrow> failed im)"


section \<open>Names\<close>

definition do_rm :: "fs_h \<Rightarrow> img \<Rightarrow> string list \<Rightarrow> outcome" where
  "do_rm h im argv =
     (case argv of
        [path] \<Rightarrow>
          kbind (lookup_root h im path) (\<lambda>(ip, im).
          case ip of
            None \<Rightarrow> failed im
          | Some ip \<Rightarrow>
              if d_type (inode im ip) = T_DIR then failed im
              else kbind (with_root im (\<lambda>rp. iunlink h im rp path)) (\<lambda>(r, im).
                if r < 0 then failed im else succeeded im))
      | _ \<Rightarrow> failed im)"

text \<open>The calls that move an entry: a new link, the old one removed, and the parent of a directory changed. Their results are ignored.\<close>

definition add_then_unlink :: "fs_h \<Rightarrow> img \<Rightarrow> nat \<Rightarrow> string \<Rightarrow> nat \<Rightarrow> string \<Rightarrow> img kres" where
  "add_then_unlink h im dip name sip spath =
     kbind (daddent h im dip name sip) (\<lambda>(_, im).
     kbind (with_root im (\<lambda>rp. iunlink h im rp spath)) (\<lambda>(_, im). ret im))"

definition reparent :: "fs_h \<Rightarrow> img \<Rightarrow> nat \<Rightarrow> nat \<Rightarrow> outcome" where
  "reparent h im dip sip =
     (if d_type (inode im sip) = T_DIR then kbind (dmkparlink h im dip sip) (\<lambda>(_, im). succeeded im)
      else succeeded im)"

text \<open>The destination is a directory.\<close>

definition mv_into :: "fs_h \<Rightarrow> img \<Rightarrow> nat \<Rightarrow> nat \<Rightarrow> string \<Rightarrow> outcome" where
  "mv_into h im sip dip spath =
     (let sname = fst (splitpath spath BUFSIZE) in
      kbind (dlookup h im dip sname) (\<lambda>((ip, _), im).
      case ip of
        Some ip \<Rightarrow>
          if d_type (inode im ip) = T_DIR then
            if d_type (inode im sip) \<noteq> T_DIR then failed im
            else kbind (emptydir h im ip) (\<lambda>(e, im).
              if \<not> e then failed im
              else kbind (iunlink h im dip sname) (\<lambda>(_, im).
                kbind (add_then_unlink h im dip sname sip spath) (\<lambda>im.
                kbind (dmkparlink h im dip sip) (\<lambda>(_, im). succeeded im))))
          else if d_type (inode im ip) = T_FILE then
            if d_type (inode im sip) \<noteq> T_FILE then failed im
            else kbind (iunlink h im dip sname) (\<lambda>(_, im).
              kbind (add_then_unlink h im dip sname sip spath) succeeded)
          else failed im
      | None \<Rightarrow>
          kbind (add_then_unlink h im dip sname sip spath) (\<lambda>im. reparent h im dip sip)))"

definition do_mv :: "fs_h \<Rightarrow> img \<Rightarrow> string list \<Rightarrow> outcome" where
  "do_mv h im argv =
     (case argv of
        [spath, dpath] \<Rightarrow>
          kbind (lookup_root h im spath) (\<lambda>(sip, im).
          case sip of
            None \<Rightarrow> failed im
          | Some sip \<Rightarrow>
              if Some sip = iget im root_inode_number then failed im
              else
                kbind (lookup_root h im dpath) (\<lambda>(dip, im).
                let (dname, ddir) = splitpath dpath BUFSIZE in
                case dip of
                  Some dip \<Rightarrow>
                    if d_type (inode im dip) = T_DIR then mv_into h im sip dip spath
                    else if d_type (inode im dip) = T_FILE then
                      if d_type (inode im sip) \<noteq> T_FILE then failed im
                      else
                        kbind (with_root im (\<lambda>rp. iunlink h im rp dpath)) (\<lambda>(_, im).
                        kbind (lookup_root h im ddir) (\<lambda>(ip, im).
                        case ip of
                          None \<Rightarrow> halt (Assertion ''do_mv'')
                        | Some ip \<Rightarrow>
                            kbind (kassert (d_type (inode im ip) = T_DIR) ''do_mv'') (\<lambda>_.
                            kbind (add_then_unlink h im ip dname sip spath) succeeded)))
                    else failed im
                | None \<Rightarrow>
                    if is_empty dname then failed im
                    else kbind (lookup_root h im ddir) (\<lambda>(ip, im).
                      case ip of
                        None \<Rightarrow> failed im
                      | Some ip \<Rightarrow>
                          if d_type (inode im ip) \<noteq> T_DIR then failed im
                          else kbind (add_then_unlink h im ip dname sip spath) (\<lambda>im. reparent h im ip sip))))
      | _ \<Rightarrow> failed im)"

definition ln_finish :: "fs_h \<Rightarrow> img \<Rightarrow> nat \<Rightarrow> string \<Rightarrow> nat \<Rightarrow> outcome" where
  "ln_finish h im dip dname sip =
     kbind (daddent h im dip dname sip) (\<lambda>(r, im). if r < 0 then failed im else succeeded im)"

definition do_ln :: "fs_h \<Rightarrow> img \<Rightarrow> string list \<Rightarrow> outcome" where
  "do_ln h im argv =
     (case argv of
        [spath, dpath] \<Rightarrow>
          kbind (lookup_root h im spath) (\<lambda>(sip, im).
          case sip of
            None \<Rightarrow> failed im
          | Some sip \<Rightarrow>
              if d_type (inode im sip) \<noteq> T_FILE then failed im
              else
                let (dname, ddir) = splitpath dpath BUFSIZE;
                    sname = fst (splitpath spath BUFSIZE)
                in kbind (lookup_root h im ddir) (\<lambda>(dip, im).
                  case dip of
                    None \<Rightarrow> failed im
                  | Some dip \<Rightarrow>
                      if d_type (inode im dip) \<noteq> T_DIR then failed im
                      else if is_empty dname then
                        kbind (dlookup h im dip sname) (\<lambda>((ip, _), im).
                          if ip \<noteq> None then failed im else ln_finish h im dip sname sip)
                      else
                        kbind (dlookup h im dip dname) (\<lambda>((ip, _), im).
                          case ip of
                            None \<Rightarrow> ln_finish h im dip dname sip
                          | Some ip \<Rightarrow>
                              if d_type (inode im ip) \<noteq> T_DIR then failed im
                              else ln_finish h im ip sname sip)))
      | _ \<Rightarrow> failed im)"

definition do_mkdir :: "fs_h \<Rightarrow> img \<Rightarrow> string list \<Rightarrow> outcome" where
  "do_mkdir h im argv =
     (case argv of
        [path] \<Rightarrow>
          kbind (lookup_root h im path) (\<lambda>(ip, im).
          if ip \<noteq> None then failed im
          else kbind (with_root im (\<lambda>rp. icreat h im rp path T_DIR)) (\<lambda>(r, im).
            if r = None then failed im else succeeded im))
      | _ \<Rightarrow> failed im)"

definition do_rmdir :: "fs_h \<Rightarrow> img \<Rightarrow> string list \<Rightarrow> outcome" where
  "do_rmdir h im argv =
     (case argv of
        [path] \<Rightarrow>
          kbind (lookup_root h im path) (\<lambda>(ip, im).
          case ip of
            None \<Rightarrow> failed im
          | Some ip \<Rightarrow>
              if d_type (inode im ip) \<noteq> T_DIR then failed im
              else kbind (emptydir h im ip) (\<lambda>(e, im).
                if \<not> e then failed im
                else kbind (with_root im (\<lambda>rp. iunlink h im rp path)) (\<lambda>(r, im).
                  if r < 0 then failed im else succeeded im)))
      | _ \<Rightarrow> failed im)"

section \<open>Dispatch\<close>

definition cmd_table :: "fs_h \<Rightarrow> u8 list option list \<Rightarrow> (string \<times> (img \<Rightarrow> string list \<Rightarrow> outcome)) list" where
  "cmd_table h reads =
     [(''diskinfo'', do_diskinfo h), (''info'', do_info h), (''ls'', do_ls h), (''get'', do_get h),
      (''put'', do_put h reads), (''rm'', do_rm h), (''cp'', do_cp h), (''mv'', do_mv h), (''ln'', do_ln h),
      (''mkdir'', do_mkdir h), (''rmdir'', do_rmdir h)]"

definition exec_cmd :: "fs_h \<Rightarrow> u8 list option list \<Rightarrow> img \<Rightarrow> string \<Rightarrow> string list \<Rightarrow> outcome" where
  "exec_cmd h reads im cmd argv =
     (case map_of (cmd_table h reads) cmd of None \<Rightarrow> failed im | Some f \<Rightarrow> f im argv)"


section \<open>The blocks that a file can have\<close>

text \<open>
  If no block is leaked, every data block is free or belongs to one place. So what is free for a file, together with what it has, is what
  the other files leave.
\<close>

definition others :: "fs_h \<Rightarrow> img \<Rightarrow> nat \<Rightarrow> (nat \<times> slot) set" where
  "others h im ip = {(jp, r). jp \<noteq> ip \<and> r \<in> span 0 (fsize im jp)}"

definition avail :: "fs_h \<Rightarrow> img \<Rightarrow> nat \<Rightarrow> nat" where
  "avail h im ip = unat (sb_nblocks (sblk im)) - card (others h im ip)"

lemma used_blocks:
  assumes ok: "fs_ok h im" and nl: "leaked h im = {}"
  shows "bij_betw (\<lambda>(ip, q). unat (ref h im ip q)) (used h im)
    ({first_data im..<first_data im + unat (sb_nblocks (sblk im))} - free_blocks im)"
proof -
  let ?f = "\<lambda>(ip, q). unat (ref h im ip q)"
  let ?D = "{first_data im..<first_data im + unat (sb_nblocks (sblk im))}"
  note sb = fs_okD(1)[OF ok]
  have lim: "first_data im + unat (sb_nblocks (sblk im)) \<le> unat (sb_size (sblk im))" using sb by (simp add: sb_ok_def)
  have "inj_on ?f (used h im)"
    using fs_okD(4)[OF ok] by (auto simp: inj_on_def used_def)
  moreover have "?f ` used h im = ?D - free_blocks im"
  proof
    show "?f ` used h im \<subseteq> ?D - free_blocks im"
      using fs_okD(2,3)[OF ok] by (auto simp: used_def free_blocks_def valid_data_block_iff[OF sb])
    show "?D - free_blocks im \<subseteq> ?f ` used h im"
    proof
      fix b assume b: "b \<in> ?D - free_blocks im"
      then have lt: "b < unat (sb_size (sblk im))" and bit: "bmbits im b" using lim by (auto simp: free_blocks_def)
      have u: "unat (of_nat b :: u32) = b" using lt unsigned_less[of "sb_size (sblk im)", where 'a = nat] by (simp add: unat_of_nat)
      have v: "valid_data_block im (of_nat b)" using b by (simp add: valid_data_block_iff[OF sb] u)
      have "(of_nat b :: u32) \<notin> leaked h im" using nl by simp
      then obtain ip q where r: "ref h im ip q = of_nat b" using v bit u by (auto simp: leaked_def)
      then have "(ip, q) \<in> used h im" "?f (ip, q) = b" using valid_nz[OF sb v] u by (auto simp: used_def)
      then show "b \<in> ?f ` used h im" by (metis imageI)
    qed
  qed
  ultimately show ?thesis by (simp add: bij_betw_def)
qed

lemma free_used:
  assumes ok: "fs_ok h im" and nl: "leaked h im = {}"
  shows "finite (used h im)" "card (free_blocks im) + card (used h im) = unat (sb_nblocks (sblk im))"
proof -
  let ?D = "{first_data im..<first_data im + unat (sb_nblocks (sblk im))}"
  note bij = used_blocks[OF ok nl]
  show "finite (used h im)" using bij_betw_finite[OF bij] by simp
  have "free_blocks im \<subseteq> ?D" by (auto simp: free_blocks_def)
  then have "card ?D = card (free_blocks im) + card (?D - free_blocks im)"
    by (metis card_Diff_subset card_mono finite_atLeastLessThan finite_subset le_add_diff_inverse)
  then show "card (free_blocks im) + card (used h im) = unat (sb_nblocks (sblk im))"
    using bij_betw_same_card[OF bij] by simp
qed

lemma enough_blocks:
  assumes ok: "img_ok h im" and nl: "leaked h im = {}" and off: "off \<le> fsize im ip"
  shows "card (free_blocks im) < lacks h im ip (span off l) \<longleftrightarrow> avail h im ip < card (span 0 (max (fsize im ip) (off + l)))"
proof -
  let ?own = "span 0 (fsize im ip)"
  have u: "used h im = others h im ip \<union> Pair ip ` ?own" using ok by (auto simp: img_ok_def others_def)
  have fin: "finite (others h im ip)" using free_used(1)[OF img_okD(1)[OF ok] nl] by (simp add: u)
  have "card (used h im) = card (others h im ip) + card ?own"
    unfolding u by (subst card_Un_disjoint) (use fin in \<open>auto simp: card_image inj_on_def\<close>, auto simp: others_def)
  then have n: "card (free_blocks im) + card (others h im ip) + card ?own = unat (sb_nblocks (sblk im))"
    using free_used(2)[OF img_okD(1)[OF ok] nl] by simp
  have "Pair ip ` span off l - used h im = Pair ip ` (span off l - ?own)" by (auto simp: u others_def)
  then have "lacks h im ip (span off l) = card (span off l - ?own)" by (simp add: lacks_def card_image inj_on_def)
  moreover have "card (span off l - ?own) + card ?own = card (span off l \<union> ?own)"
    by (subst card_Un_disjoint[symmetric]) auto
  ultimately show ?thesis using n unfolding span_extend[OF off, symmetric] avail_def by linarith
qed

lemma avail_wrote:
  assumes "wrote h ip f im im'"
  shows "avail h im' ip = avail h im ip"
proof -
  have "fsize im' jp = fsize im jp" if "jp \<noteq> ip" for jp
    using assms that length_contents[of h im' jp] length_contents[of h im jp] by (simp add: wrote_def)
  then have "others h im' ip = others h im ip" by (auto simp: others_def)
  then show ?thesis using assms by (simp add: avail_def wrote_def)
qed


lemma iwrite_append:
  assumes ok: "img_ok h im" and nl: "leaked h im = {}" and t: "d_type (inode im ip) \<noteq> T_DEV" and off: "unat off = fsize im ip"
    and len: "fsize im ip + length buf \<le> max_size h"
  shows "if avail h im ip < card (span 0 (fsize im ip + length buf)) then no_space (iwrite h im ip buf off)
    else \<exists>im'. iwrite h im ip buf off = ret (int (length buf), im') \<and> wrote h ip (\<lambda>c. c @ buf) im im'"
proof -
  have "length buf < 2 ^ 32" using len img_okD(4)[OF ok] by simp
  from iwrite_spec[OF ok this, of ip off] have w: "if card (free_blocks im) < lacks h im ip (span (fsize im ip) (length buf))
      then no_space (iwrite h im ip buf off)
    else \<exists>im'. iwrite h im ip buf off = ret (int (length buf), im') \<and> wrote h ip (overwrite (fsize im ip) buf) im im'"
    unfolding off using t len by simp
  have "wrote h ip (overwrite (fsize im ip) buf) im im' = wrote h ip (\<lambda>c. c @ buf) im im'" for im'
    by (simp add: wrote_def overwrite_def)
  then show ?thesis using w enough_blocks[OF ok nl order.refl, of ip "length buf"] by (simp add: max_def cong: if_cong)
qed

section \<open>Printing a file\<close>

definition payload :: "item list \<Rightarrow> u8 list" where
  "payload out = concat (map (\<lambda>x. case x of Bytes bs \<Rightarrow> bs | _ \<Rightarrow> []) out)"

lemma BUFSIZE_pos: "0 < BUFSIZE"
  by (simp add: BUFSIZE_def)

lemma buf_word:
  assumes "img_ok h im" "k < fsize im ip"
  shows "unat (of_nat k :: u32) = k" "unat (of_nat BUFSIZE :: u32) = BUFSIZE"
    "of_nat k + of_nat BUFSIZE = (of_nat (k + BUFSIZE) :: u32)" "unat (of_nat (k + BUFSIZE) :: u32) = k + BUFSIZE"
    "k + BUFSIZE < 2 ^ 32"
proof -
  have lt: "k + BUFSIZE < 2 ^ 32" using assms(2) img_okD(2)[OF assms(1), of ip] img_okD(4)[OF assms(1)] by (simp add: BUFSIZE_def)
  then show "unat (of_nat k :: u32) = k" "unat (of_nat BUFSIZE :: u32) = BUFSIZE" "k + BUFSIZE < 2 ^ 32"
    by (simp_all add: unat_of_nat)
  show "unat (of_nat (k + BUFSIZE) :: u32) = k + BUFSIZE" using lt by (simp only: unat_of_nat) simp
  show "of_nat k + of_nat BUFSIZE = (of_nat (k + BUFSIZE) :: u32)" by simp
qed

lemma read_buf:
  assumes ok: "img_ok h im" and t: "d_type (inode im ip) \<noteq> T_DEV" and k: "k < fsize im ip"
  shows "iread h im ip (of_nat BUFSIZE) (of_nat k) = ret (Some (take BUFSIZE (drop k (contents h im ip))), im)"
  unfolding iread_spec[OF ok] buf_word(1,2)[OF ok k] using t k buf_word(5)[OF ok k] by simp

lemma more_to_do:
  assumes "unat (of_nat k :: u32) = k"
  shows "of_nat k < d_size (inode im ip) \<longleftrightarrow> k < fsize im ip"
  using assms by (simp add: word_less_nat_alt fsize_def)

lemma get_loop_spec:
  assumes ok: "img_ok h im" and t: "d_type (inode im ip) \<noteq> T_DEV"
  shows "unat (of_nat k :: u32) = k \<Longrightarrow> \<exists>out'. get_loop h ip im (of_nat k) out = ret (EXIT_SUCCESS, out', im) \<and>
    payload out' = payload out @ drop k (contents h im ip)"
proof (induction "fsize im ip - k" arbitrary: k out rule: less_induct)
  case less
  show ?case
  proof (cases "k < fsize im ip")
    case False
    then show ?thesis using more_to_do[OF less.prems, of im ip] by (subst get_loop.simps) simp
  next
    case True
    let ?bs = "take BUFSIZE (drop k (contents h im ip))"
    note w = buf_word[OF ok True]
    obtain out' where out': "get_loop h ip im (of_nat (k + BUFSIZE)) (out @ [Bytes ?bs]) = ret (EXIT_SUCCESS, out', im)"
      "payload out' = payload (out @ [Bytes ?bs]) @ drop (k + BUFSIZE) (contents h im ip)"
      using less.hyps[OF _ w(4), of "out @ [Bytes ?bs]"] True diff_less_mono2[of k "k + BUFSIZE" "fsize im ip"]
      by (auto simp: BUFSIZE_pos simp del: of_nat_add)
    have "?bs @ drop (k + BUFSIZE) (contents h im ip) = drop k (contents h im ip)"
      by (metis add.commute append_take_drop_id drop_drop)
    then have "payload out' = payload out @ drop k (contents h im ip)" using out'(2) by (simp add: payload_def)
    moreover have "get_loop h ip im (of_nat k) out = get_loop h ip im (of_nat (k + BUFSIZE)) (out @ [Bytes ?bs])"
      using True more_to_do[OF less.prems, of im ip] read_buf[OF ok t True] w(3) by (subst get_loop.simps) simp
    ultimately show ?thesis using out'(1) by (intro exI[of _ out']) simp
  qed
qed

section \<open>Copying\<close>

lemma card_span_mono: "a \<le> b \<Longrightarrow> card (span 0 a) \<le> card (span 0 b)"
  by (rule card_mono[OF _ span_mono]) simp_all

lemma cp_loop_spec:
  assumes "img_ok h im" "leaked h im = {}" "d_type (inode im sip) \<noteq> T_DEV" "d_type (inode im dip) \<noteq> T_DEV" "sip \<noteq> dip"
    and "unat (of_nat k :: u32) = k" "contents h im dip = take k (contents h im sip)"
    "avail h im dip < card (span 0 (fsize im sip)) \<Longrightarrow> k < fsize im sip"
  shows "if avail h im dip < card (span 0 (fsize im sip)) then no_space (cp_loop h sip dip im (of_nat k))
    else \<exists>im'. cp_loop h sip dip im (of_nat k) = ret (EXIT_SUCCESS, [], im') \<and> wrote h dip (\<lambda>_. contents h im sip) im im'"
  using assms
proof (induction "fsize im sip - k" arbitrary: k im rule: less_induct)
  case less
  note ok = less.prems(1)
  show ?case
  proof (cases "k < fsize im sip")
    case False
    then have "cp_loop h sip dip im (of_nat k) = ret (EXIT_SUCCESS, [], im)"
      using more_to_do[OF less.prems(6), of im sip] by (subst cp_loop.simps) (simp add: succeeded_def)
    moreover have "wrote h dip (\<lambda>_. contents h im sip) im im" using less.prems(7) False ok by (simp add: wrote_def fun_upd_idem)
    ultimately show ?thesis using less.prems(8) False by auto
  next
    case True
    let ?c = "contents h im sip"
    let ?bs = "take BUFSIZE (drop k ?c)"
    note w = buf_word[OF ok True]
    have fd: "fsize im dip = k" using less.prems(7) True length_contents[of h im dip] by simp
    have len: "k + length ?bs \<le> fsize im sip" using True by simp
    have step: "cp_loop h sip dip im (of_nat k) = kbind (iwrite h im dip ?bs (of_nat k)) (\<lambda>(n, im).
        if n \<noteq> int (length ?bs) then failed im else cp_loop h sip dip im (of_nat (k + BUFSIZE)))"
      using True more_to_do[OF less.prems(6), of im sip] read_buf[OF ok less.prems(3) True]
      unfolding w(3)[symmetric] by (subst cp_loop.simps) simp
    have wr: "if avail h im dip < card (span 0 (k + length ?bs)) then no_space (iwrite h im dip ?bs (of_nat k))
      else \<exists>im'. iwrite h im dip ?bs (of_nat k) = ret (int (length ?bs), im') \<and> wrote h dip (\<lambda>c. c @ ?bs) im im'"
      using iwrite_append[OF ok less.prems(2,4), of "of_nat k" ?bs] w(1) fd len img_okD(2)[OF ok, of sip] by simp
    show ?thesis
    proof (cases "avail h im dip < card (span 0 (k + length ?bs))")
      case full: True
      then show ?thesis using wr step card_span_mono[OF len] by simp
    next
      case False
      then obtain im1 where im1: "iwrite h im dip ?bs (of_nat k) = ret (int (length ?bs), im1)" "wrote h dip (\<lambda>c. c @ ?bs) im im1"
        using wr by auto
      have c1: "contents h im1 sip = ?c" "contents h im1 dip = take (k + BUFSIZE) ?c" and ok1: "img_ok h im1" "leaked h im1 = {}"
        using im1(2) less.prems(2) less.prems(5,7) by (auto simp: wrote_def take_add)
      have f1: "fsize im1 sip = fsize im sip" using c1(1) length_contents[of h im1 sip] by simp
      have t1: "d_type (inode im1 jp) = d_type (inode im jp)" for jp using im1(2) by (auto simp: wrote_def attr_def)
      have a1: "avail h im1 dip = avail h im dip" by (rule avail_wrote[OF im1(2)])
      have more: "k + BUFSIZE < fsize im sip" if "avail h im dip < card (span 0 (fsize im sip))"
      proof (rule ccontr)
        assume "\<not> k + BUFSIZE < fsize im sip"
        then have "k + length ?bs = fsize im sip" using True by simp
        then show False using that False by simp
      qed
      have "if avail h im1 dip < card (span 0 (fsize im1 sip)) then no_space (cp_loop h sip dip im1 (of_nat (k + BUFSIZE)))
        else \<exists>im'. cp_loop h sip dip im1 (of_nat (k + BUFSIZE)) = ret (EXIT_SUCCESS, [], im') \<and> wrote h dip (\<lambda>_. contents h im1 sip) im1 im'"
        by (rule less.hyps) (use True ok1 t1 less.prems(3-5) w(4) c1 f1 a1 more in \<open>auto simp: BUFSIZE_def\<close>)
      moreover have "cp_loop h sip dip im (of_nat k) = cp_loop h sip dip im1 (of_nat (k + BUFSIZE))" using step im1(1) by simp
      moreover have "wrote h dip (\<lambda>_. ?c) im im'" if "wrote h dip (\<lambda>_. ?c) im1 im'" for im'
        using that im1(2) by (auto simp: wrote_def)
      ultimately show ?thesis unfolding f1 a1 c1(1) by auto
    qed
  qed
qed


lemma cp_dest_file:
  assumes "lookup_root h im dpath = ret (Some dip, im)" "d_type (inode im dip) = T_FILE" "itruncate h im dip 0 = ret (r, im1)"
  shows "cp_dest h im spath dpath = ret (Some dip, im1)"
  using assms by (simp add: cp_dest_def case_prod_unfold T_FILE_def T_DIR_def)

lemma do_cp_spec:
  assumes "img_ok h im" "leaked h im = {}" "lookup_root h im spath = ret (Some sip, im)" "lookup_root h im dpath = ret (Some dip, im)"
    "d_type (inode im sip) = T_FILE" "d_type (inode im dip) = T_FILE" "sip \<noteq> dip"
  shows "if avail h im dip < card (span 0 (fsize im sip)) then no_space (do_cp h im [spath, dpath])
    else \<exists>im'. do_cp h im [spath, dpath] = ret (EXIT_SUCCESS, [], im') \<and> wrote h dip (\<lambda>_. contents h im sip) im im'"
proof -
  obtain im1 where im1: "itruncate h im dip 0 = ret (0, im1)" "wrote h dip (\<lambda>_. []) im im1"
    using itruncate_zero[OF assms(1), of dip] assms(6) by (auto simp: T_FILE_def T_DEV_def)
  have c1: "contents h im1 sip = contents h im sip" "contents h im1 dip = []" and ok: "img_ok h im1" "leaked h im1 = {}"
    using im1(2) assms(2) assms(7) by (auto simp: wrote_def)
  have f1: "fsize im1 sip = fsize im sip" using c1(1) length_contents[of h im1 sip] by simp
  have t1: "d_type (inode im1 sip) \<noteq> T_DEV" "d_type (inode im1 dip) \<noteq> T_DEV"
    using im1(2) assms(5,6) by (auto simp: wrote_def attr_def T_FILE_def T_DEV_def)
  have "0 < fsize im1 sip" if "avail h im1 dip < card (span 0 (fsize im1 sip))"
    using that by (cases "fsize im1 sip") (auto simp: span_def)
  with cp_loop_spec[OF ok t1 assms(7), of 0] c1(2)
  have "if avail h im1 dip < card (span 0 (fsize im1 sip)) then no_space (cp_loop h sip dip im1 0)
    else \<exists>im'. cp_loop h sip dip im1 0 = ret (EXIT_SUCCESS, [], im') \<and> wrote h dip (\<lambda>_. contents h im1 sip) im1 im'"
    by (simp cong: if_cong)
  moreover have "do_cp h im [spath, dpath] = cp_loop h sip dip im1 0"
    using assms(3,5) cp_dest_file[OF assms(4,6) im1(1)] by (simp add: do_cp_def)
  moreover have "wrote h dip (\<lambda>_. contents h im sip) im im'" if "wrote h dip (\<lambda>_. contents h im sip) im1 im'" for im'
    using that im1(2) by (auto simp: wrote_def)
  ultimately show ?thesis unfolding avail_wrote[OF im1(2)] f1 c1(1) by auto
qed

section \<open>Storing the input\<close>

text \<open>What successive calls of \<^verbatim>\<open>read\<close> return for a file: full buffers, and a last one that may be shorter.\<close>

fun chunked :: "u8 list list \<Rightarrow> bool" where
  "chunked [] = True"
| "chunked [b] = (length b \<le> BUFSIZE)"
| "chunked (b # bs) = (length b = BUFSIZE \<and> chunked bs)"

lemma chunked_tl: "chunked (b # bs) \<Longrightarrow> length b \<le> BUFSIZE \<and> chunked bs \<and> (length b < BUFSIZE \<longrightarrow> bs = [])"
  by (cases bs) auto

lemma put_loop_spec:
  assumes "img_ok h im" "leaked h im = {}" "d_type (inode im ip) \<noteq> T_DEV" "BUFSIZE dvd max_size h" "chunked bss"
    and "fsize im ip = k" "BUFSIZE dvd k" "k \<le> max_size h"
    and "n = min (max_size h) (k + length (concat bss))" "avail h im ip < card (span 0 n) \<Longrightarrow> k < n"
  shows "if avail h im ip < card (span 0 n) then no_space (put_loop h ip (map Some bss) im k)
    else \<exists>im'. put_loop h ip (map Some bss) im k = ret (EXIT_SUCCESS, [], im') \<and>
      wrote h ip (\<lambda>c. c @ take (max_size h - k) (concat bss)) im im'"
  using assms
proof (induction bss arbitrary: k im)
  case Nil
  then have n: "n = k" by simp
  have w: "\<exists>im'. iwrite h im ip [] (of_nat k) = ret (0, im') \<and> wrote h ip (\<lambda>c. c @ []) im im'"
    if "k < max_size h"
    using iwrite_append[OF Nil.prems(1,2,3), of "of_nat k" "[]"] Nil.prems(6,8,10) n that img_okD(4)[OF Nil.prems(1)]
    by (auto simp: unat_of_nat split: if_splits)
  have same: "wrote h ip (\<lambda>c. c) im im" using Nil.prems(1) by (simp add: wrote_def)
  show ?case
  proof (cases "k < max_size h")
    case True
    then show ?thesis using w n Nil.prems(10) img_okD(3)[OF Nil.prems(1)]
      by (subst put_loop.simps) (auto simp: succeeded_def BUFSIZE_pos)
  next
    case False
    then show ?thesis using n same Nil.prems(10) img_okD(3)[OF Nil.prems(1)]
      by (subst put_loop.simps) (auto simp: succeeded_def)
  qed
next
  case (Cons b bss)
  note ok = Cons.prems(1)
  have ch: "length b \<le> BUFSIZE" "chunked bss" "length b < BUFSIZE \<Longrightarrow> bss = []" using chunked_tl[OF Cons.prems(5)] by auto
  have mx: "MAXFILESIZE h = max_size h" "max_size h \<le> 71680" by (rule img_okD(3,4)[OF ok])+
  show ?case
  proof (cases "k < max_size h")
    case False
    then have "n = k" using Cons.prems(8,9) by simp
    then show ?thesis using False Cons.prems(8,10) ok mx
      by (subst put_loop.simps) (auto simp: succeeded_def wrote_def)
  next
    case True
    then have kb: "k + BUFSIZE \<le> max_size h" using Cons.prems(4,7) by (auto elim!: dvdE simp: BUFSIZE_def)
    have kw: "unat (of_nat k :: u32) = k" using True mx(2) by (simp add: unat_of_nat)
    have le: "k + length b \<le> n" using Cons.prems(9) kb ch(1) by simp
    have step: "put_loop h ip (map Some (b # bss)) im k = kbind (iwrite h im ip b (of_nat k)) (\<lambda>(m, im).
        if m \<noteq> int (length b) then failed im else if length b < BUFSIZE then succeeded im
        else put_loop h ip (map Some bss) im (k + BUFSIZE))"
    proof -
      have "drop 1 (map Some (b # bss)) = map Some bss" by simp
      then show ?thesis using True mx(1) by (subst put_loop.simps) (simp only: list.map list.case option.case, simp)
    qed
    have wr: "if avail h im ip < card (span 0 (k + length b)) then no_space (iwrite h im ip b (of_nat k))
      else \<exists>im'. iwrite h im ip b (of_nat k) = ret (int (length b), im') \<and> wrote h ip (\<lambda>c. c @ b) im im'"
      using iwrite_append[OF ok Cons.prems(2,3), of "of_nat k" b] kw Cons.prems(6) kb ch(1) by simp
    show ?thesis
    proof (cases "avail h im ip < card (span 0 (k + length b))")
      case full: True
      then show ?thesis using wr step card_span_mono[OF le] by simp
    next
      case room: False
      then obtain im1 where im1: "iwrite h im ip b (of_nat k) = ret (int (length b), im1)" "wrote h ip (\<lambda>c. c @ b) im im1"
        using wr by auto
      show ?thesis
      proof (cases "length b < BUFSIZE")
        case True
        then have "n = k + length b" "take (max_size h - k) (concat (b # bss)) = b"
          using Cons.prems(9) ch(3) kb by auto
        then show ?thesis using step im1 True room by (auto simp: succeeded_def)
      next
        case False
        then have lb: "length b = BUFSIZE" using ch(1) by simp
        have c1: "contents h im1 ip = contents h im ip @ b" and ok1: "img_ok h im1" "leaked h im1 = {}" using im1(2) Cons.prems(2) by (auto simp: wrote_def)
        have "fsize im1 ip = k + BUFSIZE" using c1 length_contents[of h im1 ip] Cons.prems(6) lb by simp
        moreover have "d_type (inode im1 ip) \<noteq> T_DEV" using im1(2) Cons.prems(3) by (auto simp: wrote_def attr_def)
        moreover have a1: "avail h im1 ip = avail h im ip" by (rule avail_wrote[OF im1(2)])
        moreover have "n = min (max_size h) (k + BUFSIZE + length (concat bss))" using Cons.prems(9) lb by simp
        moreover have "k + BUFSIZE < n" if "avail h im ip < card (span 0 n)"
          using that room lb le by (cases "k + BUFSIZE = n") auto
        ultimately have "if avail h im1 ip < card (span 0 n) then no_space (put_loop h ip (map Some bss) im1 (k + BUFSIZE))
          else \<exists>im'. put_loop h ip (map Some bss) im1 (k + BUFSIZE) = ret (EXIT_SUCCESS, [], im') \<and>
            wrote h ip (\<lambda>c. c @ take (max_size h - (k + BUFSIZE)) (concat bss)) im1 im'"
          using ok1 Cons.prems(4,7) ch(2) kb by (intro Cons.IH) auto
        moreover have "put_loop h ip (map Some (b # bss)) im k = put_loop h ip (map Some bss) im1 (k + BUFSIZE)"
          using step im1(1) False by simp
        moreover have "wrote h ip (\<lambda>c. c @ take (max_size h - k) (concat (b # bss))) im im'"
          if "wrote h ip (\<lambda>c. c @ take (max_size h - (k + BUFSIZE)) (concat bss)) im1 im'" for im'
          using that im1(2) lb kb by (auto simp: wrote_def)
        ultimately show ?thesis unfolding a1 by auto
      qed
    qed
  qed
qed


section \<open>Properties\<close>

lemma lookup_name:
  assumes d: "dir_ok h im 1" "1 < unat (sb_ninodes (sblk im))" and nm: "name \<noteq> ''''" "CHR ''/'' \<notin> set name" "length name \<le> DIRSIZ h"
    and j: "scan (\<lambda>e. streq h name (de_name e)) (entries h im 1) 0 = Some j" "de_inum (entries h im 1 ! j) = ip"
    and ip: "0 < ip" "ip < unat (sb_ninodes (sblk im))"
  shows "lookup_root h im name = ret (Some ip, im)"
proof -
  have "ilookup h im 1 name = ret (Some ip, im)"
    using skipelem_name[OF nm(2,3)] dlookup_spec[OF d(1), of name] j ip nm(1) dir_okD(3)[OF d(1)]
    by (subst ilookup.simps) (simp add: is_empty_def iget_def)
  then show ?thesis using d(2) by (simp add: lookup_root_def with_root_def iget_def root_inode_number_def)
qed

text \<open>An image with two empty files \<open>a\<close> and \<open>b\<close> in the root directory.\<close>

lemma demo_two:
  obtains im where "dir_ok demo_h im 1" "sblk im = sblk demo_img" "\<forall>jp. d_type (inode im jp) = d_type (inode demo_img jp)"
    "entries demo_h im 1 = [\<lparr>de_inum = 2, de_name = ''a''\<rparr>, \<lparr>de_inum = 3, de_name = ''b''\<rparr>]"
    "\<forall>jp. fsize im jp = (if jp = 1 then 32 else 0)" "leaked demo_h im = {}"
proof -
  have sz: "de_size demo_h = 16" "DIRSIZ demo_h = 14" by (simp_all add: demo_h_def)
  obtain im1 where im1: "daddent demo_h demo_img 1 ''a'' 2 = ret (0, link_inc 2 im1)"
    "stored demo_h 1 0 \<lparr>de_inum = 2, de_name = ''a''\<rparr> demo_img im1" by (rule demo_added)
  let ?im = "link_inc 2 im1"
  have d: "dir_ok demo_h ?im 1" and e: "entries demo_h ?im 1 = [\<lparr>de_inum = 2, de_name = ''a''\<rparr>]"
    using im1(2) demo_dir(2,3) by (auto simp: stored_def put_entry_def dir_ok_def)
  have s: "sblk ?im = sblk demo_img" using im1(2) by (simp add: stored_def)
  have n: "nent demo_h ?im 1 = 1" using e length_entries[of demo_h ?im 1] by simp
  then have fs: "fsize ?im 1 = 16" using dir_okD(4)[OF d] sz by simp
  have sp: "span 16 16 = {Data 0}" by (auto simp: span_def slots_def BSIZE_def NDIRECT_def)
  have "ref demo_h ?im 1 (Data 0) \<noteq> 0" using img_okD(5)[OF dir_okD(1)[OF d], of 1 "Data 0"] fs by (simp add: in_span)
  then have "\<not> no_room demo_h ?im 1 1" using sz sp by (simp add: no_room_def lacks_single)
  moreover have "gap demo_h ''b'' (entries demo_h ?im 1) = Some 1" unfolding e by (simp add: gap_def scan_def streq_def sz)
  moreover have "\<not> max_size demo_h < Suc 1 * de_size demo_h" by (simp add: max_size_def NDIRECT_def BSIZE_def sz)
  moreover have "(3 :: nat) < unat (sb_ninodes (sblk ?im))" unfolding s by (simp add: demo_img_def)
  moreover note daddent_spec[OF d this, of "''b''"]
  ultimately obtain im2 where im2: "stored demo_h 1 1 \<lparr>de_inum = 3, de_name = ''b''\<rparr> ?im im2" by (auto simp: sz)
  have "entries demo_h im2 1 = put_entry 1 \<lparr>de_inum = 3, de_name = ''b''\<rparr> (entries demo_h ?im 1)"
    using im2 by (simp only: stored_def)
  then have e2: "entries demo_h im2 1 = [\<lparr>de_inum = 2, de_name = ''a''\<rparr>, \<lparr>de_inum = 3, de_name = ''b''\<rparr>]"
    and d2: "dir_ok demo_h im2 1" and s2: "sblk im2 = sblk demo_img"
    using im2 s unfolding e by (auto simp: stored_def put_entry_def)
  have at: "attr (inode im1 jp) = attr (inode demo_img jp)" for jp using im1(2) by (simp add: stored_def)
  have "d_type (inode im2 jp) = d_type (inode ?im jp)" for jp using im2 by (auto simp: stored_def attr_def)
  then have ty: "d_type (inode im2 jp) = d_type (inode demo_img jp)" for jp using at[of jp] by (simp add: attr_def)
  have c: "contents demo_h im2 jp = []" if "jp \<noteq> 1" for jp
    using im1(2) im2 that by (auto simp: stored_def) (simp add: contents_def fsize_def demo_img_def)
  then have f0: "fsize im2 jp = 0" if "jp \<noteq> 1" for jp using that length_contents[of demo_h im2 jp] by simp
  have "nent demo_h im2 1 = 2" using e2 length_entries[of demo_h im2 1] by simp
  then have f1: "fsize im2 1 = 32" using dir_okD(4)[OF d2] sz by simp
  have "leaked demo_h im2 = {}" using im1(2) im2 demo_leaked by (simp add: stored_def)
  then show ?thesis using that[OF d2 s2 _ e2] ty f0 f1 by simp
qed

text \<open>Then two bytes are written to \<open>a\<close>.\<close>

lemma demo_files:
  obtains im where "img_ok demo_h im" "lookup_root demo_h im ''a'' = ret (Some 2, im)" "lookup_root demo_h im ''b'' = ret (Some 3, im)"
    "d_type (inode im 2) = T_FILE" "d_type (inode im 3) = T_FILE" "contents demo_h im 2 = [104, 105]"
    "\<not> avail demo_h im 3 < card (span 0 2)" "leaked demo_h im = {}"
proof -
  obtain im where im: "dir_ok demo_h im 1" "sblk im = sblk demo_img" "\<forall>jp. d_type (inode im jp) = d_type (inode demo_img jp)"
    "entries demo_h im 1 = [\<lparr>de_inum = 2, de_name = ''a''\<rparr>, \<lparr>de_inum = 3, de_name = ''b''\<rparr>]"
    "\<forall>jp. fsize im jp = (if jp = 1 then 32 else 0)" "leaked demo_h im = {}" by (rule demo_two)
  have sp: "span 0 32 = {Data 0}" "span 0 2 = {Data 0}" "span 0 0 = {}" by (auto simp: span_def slots_def BSIZE_def NDIRECT_def)
  have "others demo_h im 2 = {(1, Data 0)}" using sp by (auto simp: others_def im(5) split: if_splits)
  then have "\<not> avail demo_h im 2 < card (span 0 2)" by (simp add: avail_def im(2) demo_img_def sp)
  then obtain im' where w: "wrote demo_h 2 (\<lambda>c. c @ [104, 105]) im im'"
    using iwrite_append[OF dir_okD(1)[OF im(1)] im(6), of 2 0 "[104, 105]"] im(3,5)
    by (auto simp: demo_img_def T_FILE_def T_DEV_def max_size_def NDIRECT_def BSIZE_def numeral_2_eq_2 split: if_splits)
  have c: "contents demo_h im' 1 = contents demo_h im 1" "contents demo_h im' 2 = [104, 105]" "sblk im' = sblk demo_img" "img_ok demo_h im'"
    "d_type (inode im' jp) = d_type (inode demo_img jp)" for jp
    using w im(2,3,5) by (auto simp: wrote_def attr_def contents_def[of demo_h im 2])
  have f: "fsize im' jp = (if jp = 1 then 32 else if jp = 2 then 2 else 0)" for jp
    using w im(5)[rule_format, of jp] length_contents[of demo_h im' jp] length_contents[of demo_h im jp]
    by (auto simp: wrote_def split: if_splits)
  have e: "entries demo_h im' 1 = [\<lparr>de_inum = 2, de_name = ''a''\<rparr>, \<lparr>de_inum = 3, de_name = ''b''\<rparr>]"
    using im(4) unfolding entries_def c(1) .
  have d: "dir_ok demo_h im' 1" using c(4,5) f im(1) by (auto simp: dir_ok_def im(5)) (simp add: demo_img_def)
  have sz: "DIRSIZ demo_h = 14" by (simp add: demo_h_def)
  have "others demo_h im' 3 = {(1, Data 0), (2, Data 0)}" using sp by (auto simp: others_def f split: if_splits)
  then have "\<not> avail demo_h im' 3 < card (span 0 2)" by (simp add: avail_def c(3) demo_img_def sp)
  moreover have "lookup_root demo_h im' ''a'' = ret (Some 2, im')"
    by (rule lookup_name[OF d, of _ 0]) (simp_all add: e[simplified] c(3) sz scan_def streq_def demo_img_def)
  moreover have "lookup_root demo_h im' ''b'' = ret (Some 3, im')"
    by (rule lookup_name[OF d, of _ 1]) (simp_all add: e[simplified] c(3) sz scan_def streq_def demo_img_def)
  moreover have "d_type (inode im' 2) = T_FILE" "d_type (inode im' 3) = T_FILE" by (simp_all add: c(5) demo_img_def)
  moreover have "leaked demo_h im' = {}" using w im(6) by (simp add: wrote_def)
  ultimately show ?thesis using that[OF c(4)] c(2) by simp
qed


text \<open>
  \<^verbatim>\<open>get\<close> prints a file. On a well-formed image, for a path that leads to a file or a directory, the bytes printed are the
  contents, the status is that of success, and the image is not changed.
\<close>

theorem do_get_prints:
  assumes "img_ok h im" "lookup_root h im path = ret (Some ip, im)" "d_type (inode im ip) \<noteq> T_DEV"
  shows "\<exists>out. do_get h im [path] = ret (EXIT_SUCCESS, out, im) \<and> payload out = contents h im ip"
  using get_loop_spec[OF assms(1,3), of 0 "[]"] assms(2) by (simp add: do_get_def payload_def)

theorem do_get_prints_witness:
  "\<exists>im out. do_get demo_h im [''a''] = ret (EXIT_SUCCESS, out, im) \<and> payload out = [104, 105]"
proof -
  obtain im where "img_ok demo_h im" "lookup_root demo_h im ''a'' = ret (Some 2, im)" "d_type (inode im 2) = T_FILE"
    "contents demo_h im 2 = [104, 105]" by (rule demo_files)
  with do_get_prints[of demo_h im "''a''" 2] show ?thesis by (auto simp: T_FILE_def T_DEV_def)
qed

text \<open>
  C38: \<^verbatim>\<open>cp\<close> to another existing file of an image without leaked blocks. If the data blocks that the other files leave suffice for the contents, the destination gets
  them, the source and all other files stay, and the status is that of success; otherwise the tool stops.
\<close>

theorem do_cp_copies:
  assumes "img_ok h im" "leaked h im = {}" "lookup_root h im spath = ret (Some sip, im)" "lookup_root h im dpath = ret (Some dip, im)"
    "d_type (inode im sip) = T_FILE" "d_type (inode im dip) = T_FILE" "sip \<noteq> dip"
  shows "if avail h im dip < card (span 0 (fsize im sip)) then no_space (do_cp h im [spath, dpath])
    else \<exists>im'. do_cp h im [spath, dpath] = ret (EXIT_SUCCESS, [], im') \<and> img_ok h im' \<and>
      (\<forall>jp. attr (inode im' jp) = attr (inode im jp)) \<and> contents h im' = (contents h im)(dip := contents h im sip)"
  using do_cp_spec[OF assms] by (auto simp: wrote_def no_space_def split: if_splits)

theorem do_cp_copies_witness:
  "\<exists>im im'. do_cp demo_h im [''a'', ''b''] = ret (EXIT_SUCCESS, [], im') \<and> contents demo_h im' 3 = [104, 105]"
proof -
  obtain im where im: "img_ok demo_h im" "lookup_root demo_h im ''a'' = ret (Some 2, im)" "lookup_root demo_h im ''b'' = ret (Some 3, im)"
    "d_type (inode im 2) = T_FILE" "d_type (inode im 3) = T_FILE" "contents demo_h im 2 = [104, 105]"
    "\<not> avail demo_h im 3 < card (span 0 2)" "leaked demo_h im = {}" by (rule demo_files)
  have "fsize im 2 = 2" using im(6) length_contents[of demo_h im 2] by simp
  with do_cp_copies[OF im(1,8,2-5)] im(6,7) obtain im' where
    "do_cp demo_h im [''a'', ''b''] = ret (EXIT_SUCCESS, [], im')" "contents demo_h im' 3 = [104, 105]" by (auto split: if_splits)
  then show ?thesis by blast
qed

text \<open>
  C39: \<^verbatim>\<open>cp\<close> of a file to itself, by whatever paths, empties the file and reports success.
\<close>

theorem do_cp_self_empties:
  assumes "img_ok h im" "lookup_root h im spath = ret (Some ip, im)" "lookup_root h im dpath = ret (Some ip, im)"
    "d_type (inode im ip) = T_FILE"
  shows "\<exists>im'. do_cp h im [spath, dpath] = ret (EXIT_SUCCESS, [], im') \<and> contents h im' = (contents h im)(ip := [])"
proof -
  obtain im1 where im1: "itruncate h im ip 0 = ret (0, im1)" "wrote h ip (\<lambda>_. []) im im1"
    using itruncate_zero[OF assms(1), of ip] assms(4) by (auto simp: T_FILE_def T_DEV_def)
  have "fsize im1 ip = 0" using im1(2) length_contents[of h im1 ip] by (simp add: wrote_def)
  then have "cp_loop h ip ip im1 0 = ret (EXIT_SUCCESS, [], im1)"
    using more_to_do[of 0 im1 ip] by (subst cp_loop.simps) (simp add: succeeded_def)
  moreover have "cp_dest h im spath dpath = ret (Some ip, im1)"
    using cp_dest_file[OF assms(3,4) im1(1)] .
  ultimately show ?thesis using assms(2,4) im1(2) by (auto simp: do_cp_def wrote_def)
qed

theorem do_cp_self_empties_witness:
  "\<exists>im im'. contents demo_h im 2 = [104, 105] \<and> do_cp demo_h im [''a'', ''a''] = ret (EXIT_SUCCESS, [], im') \<and> contents demo_h im' 2 = []"
proof -
  obtain im where im: "img_ok demo_h im" "lookup_root demo_h im ''a'' = ret (Some 2, im)" "d_type (inode im 2) = T_FILE"
    "contents demo_h im 2 = [104, 105]" by (rule demo_files)
  with do_cp_self_empties[OF im(1,2,2,3)] show ?thesis by auto
qed



end
