(* ===== verification/Opfs_Safety.thy ===== *)
theory Opfs_Safety
  imports Opfs
begin

text \<open>
  No command of the image tool (tools/opfs.c) breaks the block structure of the image, whatever its arguments are and
  whatever the directories hold: what an operation returns is a well-formed image.
\<close>

section \<open>Results that satisfy a condition\<close>

definition keeps :: "('a \<Rightarrow> bool) \<Rightarrow> 'a kres \<Rightarrow> bool" where
  "keeps P m \<longleftrightarrow> (\<forall>x. m = ret x \<longrightarrow> P x)"

named_theorems keep_rules

lemma keeps_basic [keep_rules]:
  "P x \<Longrightarrow> keeps P (ret x)" "keeps P (halt f)"
  by (auto simp: keeps_def)

lemma keeps_bind:
  assumes "keeps Q m" "\<And>x. Q x \<Longrightarrow> keeps P (f x)"
  shows "keeps P (kbind m f)"
  using assms by (auto simp: keeps_def kbind_eq_ret)

lemma keeps_if [keep_rules]: "(b \<Longrightarrow> keeps P m) \<Longrightarrow> (\<not> b \<Longrightarrow> keeps P n) \<Longrightarrow> keeps P (if b then m else n)"
  by simp

lemma keeps_option [keep_rules]:
  "(x = None \<Longrightarrow> keeps P m) \<Longrightarrow> (\<And>y. x = Some y \<Longrightarrow> keeps P (f y)) \<Longrightarrow> keeps P (case x of None \<Rightarrow> m | Some y \<Rightarrow> f y)"
  by (cases x) auto

lemma keeps_assert: "(b \<Longrightarrow> keeps P (f ())) \<Longrightarrow> keeps P (kbind (kassert b msg) f)"
  by (cases b) (auto simp: keeps_def)

text \<open>A well-formed image in a result: with one other component, with two, or alone.\<close>

definition ok2 :: "fs_h \<Rightarrow> 'a \<times> img \<Rightarrow> bool" where
  "ok2 h = (\<lambda>(_, im). img_ok h im \<and> de_ok h)"

definition ok3 :: "fs_h \<Rightarrow> 'a \<times> 'b \<times> img \<Rightarrow> bool" where
  "ok3 h = (\<lambda>(_, _, im). img_ok h im \<and> de_ok h)"

definition okay :: "fs_h \<Rightarrow> img \<Rightarrow> bool" where
  "okay h im \<longleftrightarrow> img_ok h im \<and> de_ok h"

lemma ok_simps [simp]: "ok2 h (x, im) = okay h im" "ok3 h (x, y, im) = okay h im"
  by (simp_all add: ok2_def ok3_def okay_def)

lemma keeps_bind2:
  assumes "keeps (ok2 h) m" "\<And>x im. okay h im \<Longrightarrow> keeps P (f (x, im))"
  shows "keeps P (kbind m f)"
  using assms by (intro keeps_bind[OF assms(1)]) (auto simp: ok2_def okay_def)

section \<open>The operations on files\<close>

lemma iread_keeps: "okay h im \<Longrightarrow> keeps (ok2 h) (iread h im ip n off)"
  by (auto simp: okay_def iread_spec keeps_def)

lemma iwrite_keeps: "okay h im \<Longrightarrow> length buf < 2 ^ 32 \<Longrightarrow> keeps (ok2 h) (iwrite h im ip buf off)"
  using iwrite_spec[of h im buf ip off] by (auto simp: okay_def keeps_def wrote_def no_space_def split: if_splits)

lemma itruncate_keeps: "okay h im \<Longrightarrow> keeps (ok2 h) (itruncate h im ip sz)"
proof -
  assume ok: "okay h im"
  show ?thesis
  proof (cases "d_type (inode im ip) = T_DEV \<or> max_size h < unat sz")
    case True
    then show ?thesis using ok img_okD(3)[of h im] by (auto simp: itruncate_def keeps_def okay_def)
  next
    case False
    then show ?thesis using ok itruncate_down[of h im ip sz] itruncate_up[of h im ip sz]
      by (cases "unat sz < fsize im ip") (auto simp: okay_def keeps_def wrote_def no_space_def split: if_splits)
  qed
qed

text \<open>A cleared inode has no blocks; those it had are leaked.\<close>

lemma clear_inode:
  assumes ok: "img_ok h im" and d: "d_size d = 0" "addrs d = (\<lambda>_. 0)"
  shows "img_ok h (upd_inode ip (\<lambda>_. d) im)"
proof -
  let ?im = "upd_inode ip (\<lambda>_. d) im"
  have i: "blocks ?im = blocks im" "bmbits ?im = bmbits im" "sblk ?im = sblk im" by (auto simp: upd_inode_def)
  have r: "ref h ?im jp q = (if jp = ip then 0 else ref h im jp q)" for jp q
    using d by (auto simp: ref_def upd_inode_def split: slot.splits)
  have s: "fsize ?im jp = (if jp = ip then 0 else fsize im jp)" for jp using d by (auto simp: fsize_def upd_inode_def)
  note o = img_okD(1)[OF ok]
  have "fs_ok h ?im"
    using fs_okD[OF o] unfolding fs_ok_def sb_ok_sb[OF i(3)] valid_data_block_upd i r by auto
  moreover have "used h ?im = {(jp, q). q \<in> span 0 (fsize ?im jp)}"
    using img_okD(5)[OF ok] by (auto simp: used_def r s span_def)
  ultimately show ?thesis using ok by (simp add: img_ok_def s)
qed

lemma ialloc_keeps: "okay h im \<Longrightarrow> keeps (ok2 h) (ialloc im type)"
  by (auto simp: ialloc_def okay_def keeps_def split: option.splits intro!: clear_inode)

lemma ifree_keeps: "okay h im \<Longrightarrow> okay h (snd (ifree im n))"
  by (auto simp: ifree_def okay_def upd_inode_keeps split: option.splits)

lemma link_okay [simp]: "okay h (link_inc ip im) = okay h im" "okay h (link_dec ip im) = okay h im"
  by (simp_all add: okay_def)


section \<open>The operations on directories\<close>

lemma keeps_Some: "keeps P m \<longleftrightarrow> (\<forall>y. m = Some y \<longrightarrow> (\<forall>r. y = Inr r \<longrightarrow> P r))"
  by (auto simp: keeps_def)

lemma dlookup_loop_keeps:
  assumes "okay h im"
  shows "keeps (ok2 h) (dlookup_loop h dp name im off)"
proof -
  have "okay h im \<longrightarrow> (\<forall>r. y = Inr r \<longrightarrow> ok2 h r)" if t: "dlookup_loop h dp name im off = Some y" for y
  proof (rule dlookup_loop.raw_induct[OF _ t], goal_cases)
    case (1 f h dp name im off y)
    have IH: "okay h im \<Longrightarrow> keeps (ok2 h) (f h dp name im off)" for h dp name im off
      using 1(1) by (auto simp: keeps_def)
    have "keeps (ok2 h) (Some y)" if "okay h im"
      unfolding 1(2)[symmetric] using that
      by (auto intro!: keep_rules keeps_bind2[where h = h] iread_keeps IH)
    then show ?case by (auto simp: keeps_def)
  qed
  then show ?thesis using assms by (auto simp: keeps_Some)
qed

lemma daddent_loop_keeps:
  assumes "okay h im"
  shows "keeps (ok2 h) (daddent_loop h dp name im off)"
proof -
  have "okay h im \<longrightarrow> (\<forall>r. y = Inr r \<longrightarrow> ok2 h r)" if t: "daddent_loop h dp name im off = Some y" for y
  proof (rule daddent_loop.raw_induct[OF _ t], goal_cases)
    case (1 f h dp name im off y)
    have IH: "okay h im \<Longrightarrow> keeps (ok2 h) (f h dp name im off)" for h dp name im off
      using 1(1) by (auto simp: keeps_def)
    have "keeps (ok2 h) (Some y)" if "okay h im"
      unfolding 1(2)[symmetric] using that
      by (auto intro!: keep_rules keeps_bind2[where h = h] iread_keeps IH)
    then show ?case by (auto simp: keeps_def)
  qed
  then show ?thesis using assms by (auto simp: keeps_Some)
qed

lemma emptydir_loop_keeps:
  assumes "okay h im"
  shows "keeps (ok2 h) (emptydir_loop h dp im off buf k)"
proof -
  have "okay h im \<longrightarrow> (\<forall>r. y = Inr r \<longrightarrow> ok2 h r)" if t: "emptydir_loop h dp im off buf k = Some y" for y
  proof (rule emptydir_loop.raw_induct[OF _ t], goal_cases)
    case (1 f h dp im off buf k y)
    have IH: "okay h im \<Longrightarrow> keeps (ok2 h) (f h dp im off buf k)" for h dp im off buf k
      using 1(1) by (auto simp: keeps_def)
    have "keeps (ok2 h) (Some y)" if "okay h im"
      unfolding 1(2)[symmetric] using that
      by (auto intro!: keep_rules keeps_bind2[where h = h] iread_keeps IH simp del: split_paired_All)
    then show ?case by (auto simp: keeps_def)
  qed
  then show ?thesis using assms by (auto simp: keeps_Some)
qed


lemma dlookup_keeps: "okay h im \<Longrightarrow> keeps (ok2 h) (dlookup h im dp name)"
  by (auto simp: dlookup_def intro!: keeps_assert dlookup_loop_keeps)

lemma write_entry_keeps:
  "okay h im \<Longrightarrow> keeps (ok2 h) (iwrite h im dp (de_enc h d) off)"
  "okay h im \<Longrightarrow> keeps (ok2 h) (iwrite h im dp (replicate (de_size h) 0) off)"
  by (rule iwrite_keeps; auto simp: okay_def de_ok_def BSIZE_def)+

lemma daddent_keeps: "okay h im \<Longrightarrow> keeps (ok2 h) (daddent h im dp name ip)"
  by (auto simp: daddent_def Let_def
      intro!: keep_rules keeps_bind2[where h = h] daddent_loop_keeps write_entry_keeps split: if_splits)

lemma dmkparlink_keeps: "okay h im \<Longrightarrow> keeps (ok2 h) (dmkparlink h im pip cip)"
  by (auto simp: dmkparlink_def Let_def
      intro!: keep_rules keeps_bind2[where h = h] dlookup_keeps write_entry_keeps split: prod.splits)

lemma ilookup_keeps: "okay h im \<Longrightarrow> keeps (ok2 h) (ilookup h im rp path)"
proof (induction "length path" arbitrary: im rp path rule: less_induct)
  case less
  obtain p' name where sk: "skipelem h path = (p', name)" by (cases "skipelem h path")
  have IH: "okay h im' \<Longrightarrow> keeps (ok2 h) (ilookup h im' ip p')" if "name \<noteq> ''''" for im' ip
    using less.hyps skipelem_shorter[OF sk that] by blast
  show ?case using less.prems sk
    by (subst ilookup.simps)
      (auto simp: is_empty_def intro!: keep_rules keeps_assert keeps_bind2[where h = h] dlookup_keeps IH split: prod.splits)
qed

lemma icreat_keeps: "okay h im \<Longrightarrow> keeps (ok2 h) (icreat h im rp path type)"
proof (induction "length path" arbitrary: im rp path rule: less_induct)
  case less
  obtain p' name where sk: "skipelem h path = (p', name)" by (cases "skipelem h path")
  have IH: "okay h im' \<Longrightarrow> keeps (ok2 h) (icreat h im' ip p' type)" if "name \<noteq> ''''" for im' ip
    using less.hyps skipelem_shorter[OF sk that] by blast
  show ?case using less.prems sk
    by (subst icreat.simps)
      (auto simp: is_empty_def intro!: keep_rules keeps_assert keeps_bind2[where h = h] dlookup_keeps ialloc_keeps daddent_keeps IH
        split: prod.splits)
qed

lemma emptydir_keeps: "okay h im \<Longrightarrow> keeps (ok2 h) (emptydir h im dp)"
  by (auto simp: emptydir_def intro!: keep_rules keeps_bind2[where h = h] emptydir_loop_keeps)

lemma drop_link_keeps: "okay h im \<Longrightarrow> keeps (ok2 h) (drop_link h im ip)"
  by (auto simp: drop_link_def Let_def intro!: keep_rules keeps_bind2[where h = h] itruncate_keeps ifree_keeps)

lemma unlink_at_keeps: "okay h im \<Longrightarrow> keeps (ok2 h) (unlink_at h im rp ip off)"
  by (auto simp: unlink_at_def
      intro!: keep_rules keeps_bind2[where h = h] write_entry_keeps dlookup_keeps drop_link_keeps split: prod.splits)

lemma iunlink_keeps: "okay h im \<Longrightarrow> keeps (ok2 h) (iunlink h im rp path)"
proof (induction "length path" arbitrary: im rp path rule: less_induct)
  case less
  obtain p' name where sk: "skipelem h path = (p', name)" by (cases "skipelem h path")
  have IH: "okay h im' \<Longrightarrow> keeps (ok2 h) (iunlink h im' ip p')" if "name \<noteq> ''''" for im' ip
    using less.hyps skipelem_shorter[OF sk that] by blast
  show ?case using less.prems sk
    by (subst iunlink.simps)
      (auto simp: is_empty_def intro!: keep_rules keeps_assert keeps_bind2[where h = h] dlookup_keeps unlink_at_keeps IH
        split: prod.splits)
qed


section \<open>The commands\<close>

lemma ends_keep [keep_rules]: "okay h im \<Longrightarrow> keeps (ok3 h) (failed im)" "okay h im \<Longrightarrow> keeps (ok3 h) (succeeded im)"
  by (auto simp: failed_def succeeded_def keeps_def)

lemma with_root_keeps: "(\<And>rp. keeps P (f rp)) \<Longrightarrow> keeps P (with_root im f)"
  by (auto simp: with_root_def intro!: keep_rules)

lemma lookup_root_keeps: "okay h im \<Longrightarrow> keeps (ok2 h) (lookup_root h im path)"
  by (auto simp: lookup_root_def intro!: with_root_keeps ilookup_keeps)

lemma ls_loop_keeps:
  assumes "okay h im"
  shows "keeps (ok3 h) (ls_loop h ip im off out)"
proof -
  have "okay h im \<longrightarrow> (\<forall>r. y = Inr r \<longrightarrow> ok3 h r)" if t: "ls_loop h ip im off out = Some y" for y
  proof (rule ls_loop.raw_induct[OF _ t], goal_cases)
    case (1 f h ip im off out y)
    have IH: "okay h im \<Longrightarrow> keeps (ok3 h) (f h ip im off out)" for h ip im off out
      using 1(1) by (auto simp: keeps_def)
    have "keeps (ok3 h) (Some y)" if "okay h im"
      unfolding 1(2)[symmetric] using that
      by (auto intro!: keep_rules keeps_bind2[where h = h] iread_keeps IH)
    then show ?case by (auto simp: keeps_def)
  qed
  then show ?thesis using assms by (auto simp: keeps_Some)
qed

lemma get_loop_keeps:
  assumes "okay h im"
  shows "keeps (ok3 h) (get_loop h ip im off out)"
proof -
  have "okay h im \<longrightarrow> (\<forall>r. y = Inr r \<longrightarrow> ok3 h r)" if t: "get_loop h ip im off out = Some y" for y
  proof (rule get_loop.raw_induct[OF _ t], goal_cases)
    case (1 f h ip im off out y)
    have IH: "okay h im \<Longrightarrow> keeps (ok3 h) (f h ip im off out)" for h ip im off out
      using 1(1) by (auto simp: keeps_def)
    have "keeps (ok3 h) (Some y)" if "okay h im"
      unfolding 1(2)[symmetric] using that
      by (auto intro!: keep_rules keeps_bind2[where h = h] iread_keeps IH)
    then show ?case by (auto simp: keeps_def)
  qed
  then show ?thesis using assms by (auto simp: keeps_Some)
qed

text \<open>A buffer that has been read is short enough to be written.\<close>

lemma iread_buf:
  "okay h im \<Longrightarrow> keeps (\<lambda>(r, im). okay h im \<and> (\<forall>bs. r = Some bs \<longrightarrow> length bs < 2 ^ 32)) (iread h im ip (of_nat BUFSIZE) off)"
  by (auto simp: okay_def iread_spec keeps_def BUFSIZE_def)

lemma cp_loop_keeps:
  assumes "okay h im"
  shows "keeps (ok3 h) (cp_loop h sip dip im off)"
proof -
  have "okay h im \<longrightarrow> (\<forall>r. y = Inr r \<longrightarrow> ok3 h r)" if t: "cp_loop h sip dip im off = Some y" for y
  proof (rule cp_loop.raw_induct[OF _ t], goal_cases)
    case (1 f h sip dip im off y)
    have IH: "okay h im \<Longrightarrow> keeps (ok3 h) (f h sip dip im off)" for h sip dip im off
      using 1(1) by (auto simp: keeps_def)
    have "keeps (ok3 h) (Some y)" if "okay h im"
      unfolding 1(2)[symmetric] using that
      by (auto intro!: keep_rules keeps_bind[OF iread_buf] keeps_bind2[where h = h and m = "iwrite h im dip buf off" for im buf] iwrite_keeps IH)
    then show ?case by (auto simp: keeps_def)
  qed
  then show ?thesis using assms by (auto simp: keeps_Some)
qed

definition reads_ok :: "u8 list option list \<Rightarrow> bool" where
  "reads_ok reads \<longleftrightarrow> (\<forall>r\<in>set reads. case r of None \<Rightarrow> True | Some bs \<Rightarrow> length bs \<le> BUFSIZE)"

lemma put_loop_keeps:
  assumes "okay h im" "reads_ok reads"
  shows "keeps (ok3 h) (put_loop h ip reads im off)"
  using assms
proof (induction "MAXFILESIZE h - off" arbitrary: reads im off rule: less_induct)
  case less
  have len: "length buf < 2 ^ 32" if "(case reads of [] \<Rightarrow> Some [] | r # _ \<Rightarrow> r) = Some buf" for buf
    using less.prems(2) that by (cases reads) (auto simp: reads_ok_def BUFSIZE_def)
  have "reads_ok (drop 1 reads)" using less.prems(2) by (auto simp: reads_ok_def dest: in_set_dropD)
  then have IH: "keeps (ok3 h) (put_loop h ip (drop 1 reads) im' (off + BUFSIZE))" if "okay h im'" "off < MAXFILESIZE h" for im'
    using that by (intro less.hyps) (auto simp: BUFSIZE_def)
  show ?case using less.prems(1)
    by (subst put_loop.simps) (auto intro!: keep_rules keeps_bind2[where h = h] iwrite_keeps len IH)
qed


lemmas file_keeps = iread_keeps itruncate_keeps ialloc_keeps dlookup_keeps daddent_keeps dmkparlink_keeps ilookup_keeps icreat_keeps
  emptydir_keeps iunlink_keeps lookup_root_keeps

text \<open>Splitting the arguments of a command.\<close>

lemma keeps_args [keep_rules]:
  "(\<And>a. argv = [a] \<Longrightarrow> keeps P (f a)) \<Longrightarrow> (length argv \<noteq> 1 \<Longrightarrow> keeps P m) \<Longrightarrow> keeps P (case argv of [a] \<Rightarrow> f a | _ \<Rightarrow> m)"
  "(\<And>a b. argv = [a, b] \<Longrightarrow> keeps P (g a b)) \<Longrightarrow> (length argv \<noteq> 2 \<Longrightarrow> keeps P m) \<Longrightarrow> keeps P (case argv of [a, b] \<Rightarrow> g a b | _ \<Rightarrow> m)"
  by (auto split: list.splits)

lemma inspect_keeps:
  assumes "okay h im"
  shows "keeps (ok3 h) (do_diskinfo h im argv)" "keeps (ok3 h) (do_info h im argv)" "keeps (ok3 h) (do_ls h im argv)"
    "keeps (ok3 h) (do_get h im argv)"
proof -
  show "keeps (ok3 h) (do_diskinfo h im argv)"
    using assms by (auto simp: do_diskinfo_def Let_def intro!: keep_rules)
  show "keeps (ok3 h) (do_info h im argv)"
    using assms by (auto simp: do_info_def Let_def need_block_def intro!: keep_rules keeps_bind2[where h = h] file_keeps)
  show "keeps (ok3 h) (do_ls h im argv)"
    using assms by (auto simp: do_ls_def intro!: keep_rules keeps_bind2[where h = h] file_keeps ls_loop_keeps)
  show "keeps (ok3 h) (do_get h im argv)"
    using assms by (auto simp: do_get_def intro!: keep_rules keeps_bind2[where h = h] file_keeps get_loop_keeps)
qed

lemma do_put_keeps:
  assumes "okay h im" "reads_ok reads"
  shows "keeps (ok3 h) (do_put h reads im argv)"
  using assms by (auto simp: do_put_def intro!: keep_rules keeps_bind2[where h = h] file_keeps with_root_keeps put_loop_keeps)

lemma cp_dest_keeps:
  assumes "okay h im"
  shows "keeps (ok2 h) (cp_dest h im spath dpath)"
  using assms by (auto simp: cp_dest_def intro!: keep_rules keeps_bind2[where h = h] file_keeps split: prod.splits)

lemma do_cp_keeps:
  assumes "okay h im"
  shows "keeps (ok3 h) (do_cp h im argv)"
  using assms by (auto simp: do_cp_def intro!: keep_rules keeps_bind2[where h = h] file_keeps cp_dest_keeps cp_loop_keeps)

lemma add_then_unlink_keeps:
  assumes "okay h im"
  shows "keeps (okay h) (add_then_unlink h im dip name sip spath)"
  using assms by (auto simp: add_then_unlink_def intro!: keep_rules keeps_bind2[where h = h] file_keeps with_root_keeps)

lemma reparent_keeps:
  assumes "okay h im"
  shows "keeps (ok3 h) (reparent h im dip sip)"
  using assms by (auto simp: reparent_def intro!: keep_rules keeps_bind2[where h = h] file_keeps)

lemma mv_into_keeps:
  assumes "okay h im"
  shows "keeps (ok3 h) (mv_into h im sip dip spath)"
  using assms by (auto simp: mv_into_def Let_def
      intro!: keep_rules keeps_bind[OF add_then_unlink_keeps] keeps_bind2[where h = h] file_keeps reparent_keeps split: prod.splits)

lemma do_mv_keeps:
  assumes "okay h im"
  shows "keeps (ok3 h) (do_mv h im argv)"
  using assms by (auto simp: do_mv_def
      intro!: keep_rules keeps_assert keeps_bind[OF add_then_unlink_keeps] keeps_bind2[where h = h] file_keeps with_root_keeps mv_into_keeps
        reparent_keeps split: prod.splits)

lemma ln_finish_keeps:
  assumes "okay h im"
  shows "keeps (ok3 h) (ln_finish h im dip name sip)"
  using assms by (auto simp: ln_finish_def intro!: keep_rules keeps_bind2[where h = h] file_keeps)

lemma name_commands_keep:
  assumes "okay h im"
  shows "keeps (ok3 h) (do_rm h im argv)" "keeps (ok3 h) (do_ln h im argv)" "keeps (ok3 h) (do_mkdir h im argv)"
    "keeps (ok3 h) (do_rmdir h im argv)"
proof -
  show "keeps (ok3 h) (do_rm h im argv)"
    using assms by (auto simp: do_rm_def intro!: keep_rules keeps_bind2[where h = h] file_keeps with_root_keeps)
  show "keeps (ok3 h) (do_ln h im argv)"
    using assms by (auto simp: do_ln_def Let_def intro!: keep_rules keeps_bind2[where h = h] file_keeps ln_finish_keeps split: prod.splits)
  show "keeps (ok3 h) (do_mkdir h im argv)"
    using assms by (auto simp: do_mkdir_def intro!: keep_rules keeps_bind2[where h = h] file_keeps with_root_keeps)
  show "keeps (ok3 h) (do_rmdir h im argv)"
    using assms by (auto simp: do_rmdir_def intro!: keep_rules keeps_bind2[where h = h] file_keeps with_root_keeps)
qed

lemma exec_cmd_keeps:
  assumes "okay h im" "reads_ok reads"
  shows "keeps (ok3 h) (exec_cmd h reads im cmd argv)"
  using assms
  by (auto simp: exec_cmd_def cmd_table_def
      intro!: keep_rules inspect_keeps do_put_keeps do_cp_keeps do_mv_keeps name_commands_keep)

section \<open>Properties\<close>

text \<open>
  C31: whatever command is run with whatever arguments and input, and whatever the directories of the image hold: if it ends without
  a fault, the image is well-formed afterwards. Each file has exactly the blocks that its size needs, within the data area and marked as
  used, no block belongs to two places, and no file is longer than the largest size.
\<close>

theorem exec_cmd_well_formed:
  assumes "img_ok h im" "de_ok h" "reads_ok reads" "exec_cmd h reads im cmd argv = ret (status, out, im')"
  shows "img_ok h im'"
  using exec_cmd_keeps[of h im reads cmd argv] assms by (auto simp: keeps_def okay_def)

theorem exec_cmd_well_formed_witness:
  "\<exists>im im'. exec_cmd demo_h [] im ''cp'' [''a'', ''b''] = ret (EXIT_SUCCESS, [], im') \<and> img_ok demo_h im'"
proof -
  obtain im where im: "img_ok demo_h im" "lookup_root demo_h im ''a'' = ret (Some 2, im)" "lookup_root demo_h im ''b'' = ret (Some 3, im)"
    "d_type (inode im 2) = T_FILE" "d_type (inode im 3) = T_FILE" "contents demo_h im 2 = [104, 105]"
    "\<not> avail demo_h im 3 < card (span 0 2)" "leaked demo_h im = {}" by (rule demo_files)
  have "fsize im 2 = 2" using im(6) length_contents[of demo_h im 2] by simp
  with do_cp_spec[OF im(1,8,2-5)] im(7) obtain im' where "do_cp demo_h im [''a'', ''b''] = ret (EXIT_SUCCESS, [], im')" by auto
  then have "exec_cmd demo_h [] im ''cp'' [''a'', ''b''] = ret (EXIT_SUCCESS, [], im')" by (simp add: exec_cmd_def cmd_table_def)
  with exec_cmd_well_formed[OF im(1) demo_de_ok _ this] show ?thesis by (auto simp: reads_ok_def)
qed

end
