(* ===== verification/Spec2Isabelle.thy ===== *)
theory Spec2Isabelle
  imports Vm Cstring Timer Tasklet Kthread Printk Slub Initcall Opfs_Safety
begin

text \<open>
  Verification of yaos, a kernel for x86-64 processors written in C.

  \<^bold>\<open>The program.\<close> The kernel runs on the bare machine in one address space. Memory is managed in
  layers: a bitmap allocator of 2 MB physical pages; a kernel heap of 4 KB units and of small blocks, which
  grows by such pages; page tables of three levels whose tables come from the heap; an allocator of linear
  addresses, which are backed by pages; and a slab allocator, a loadable module, which provides
  \<^verbatim>\<open>malloc\<close>. Modules reach the kernel through a table of services. On top of this are timeouts, softirqs
  and tasklets, kernel threads, formatted output, and the start sequence that calls the start functions of all
  parts in the order of their levels. A tool on the host, opfs, works on disk images.

  \<^bold>\<open>Conventions.\<close> Static variables of a source file are the fields of a record; a function of the code is a
  function that takes and returns it. Machine integers are words of their width, so that wrap-around is that
  of the machine; addresses that are only compared or indexed are numbers. The result of code that may fail
  is \<^verbatim>\<open>'a kres\<close> (theory \<^verbatim>\<open>Yaos_Prelude\<close>): \<open>None\<close> is a call that never returns, such as taking a held
  lock, \<open>Some (Inl f)\<close> is a fault that stops the machine (a failed assertion, a panic), \<open>Some (Inr x)\<close> is a
  result. Loops whose end depends on data are partial functions into the option type, so that a theorem that such code
  returns is a theorem about its value; no loop is bounded by fuel. Code outside the sources and
  functions called through pointers are arguments. Printing is left out where it has no effect on the state. The
  model is that of one processor running alone, except where a theory says that calls of several processors are interleaved.

  \<^bold>\<open>Theories and sources.\<close> Paths are relative to src/.

  \<^item> \<^verbatim>\<open>Yaos_Prelude\<close>: results, chains of nodes linked by a next pointer, lemmas on words and lists.
  \<^item> \<^verbatim>\<open>Bitops\<close> (arch/x86_64/include/asm/bitops.h): bit scans and bit updates of a bitmap in memory.
  \<^item> \<^verbatim>\<open>Spinlock\<close> (arch/x86_64/include/asm/spinlock.h): lock words; taking a held lock does not return.
  \<^item> \<^verbatim>\<open>Phymem\<close> (arch/x86_64/phymem.c): allocation and release of 2 MB pages. Pages handed out were
    free and are taken once; the allocator returns while the low half of a word has a free page, and spins when
    only the high half has.
  \<^item> \<^verbatim>\<open>Hole_List\<close>: the pools of hole nodes that kernel/kheap.c and kernel/vm.c share, as a list of intervals in address order. A locale
    states what an allocator over holes promises; the heap and the allocator of linear addresses interpret it.
  \<^item> \<^verbatim>\<open>Kheap\<close> (kernel/kheap.c): the heap of 4 KB units, the small heap and their growth. In every
    sequence of calls, blocks held at the same time do not overlap; a request that a hole can serve gets
    the lowest suitable address.
  \<^item> \<^verbatim>\<open>Pgtable\<close> (arch/x86_64/pgtable.c): the tables as words in memory. Mapping a page changes the
    translation of that page and of no other; the boot tables map what they should.
  \<^item> \<^verbatim>\<open>Vm\<close> (kernel/vm.c): linear addresses and the ranges backed by pages.
  \<^item> \<^verbatim>\<open>Cstring\<close> (arch/x86_64/string64.c, libs/string): string functions over byte memory; the
    versions that read a word at a time equal those that read a byte at a time; copying overlapping ranges.
  \<^item> \<^verbatim>\<open>Timer\<close> (kernel/timer.c, arch/x86_64/time.c): timeouts in order of their deadline, the clock.
  \<^item> \<^verbatim>\<open>Tasklet\<close> (kernel/tasklet.c): softirqs and the two lists of tasklets, which are queues.
  \<^item> \<^verbatim>\<open>Kernel_List\<close> (include/yaos/list.h, libs/list/llist.c): circular lists and hash chains against
    lists of nodes, and the lock-less list against a stack for every interleaving of adding processors with one consumer.
  \<^item> \<^verbatim>\<open>Kthread\<close> (kernel/kthread.c): creation and switching of threads, which stay properly nested.
  \<^item> \<^verbatim>\<open>Printk\<close> (kernel/printk.c): formatting of numbers and strings.
  \<^item> \<^verbatim>\<open>Data_Section\<close>, \<^verbatim>\<open>Yaoscall\<close> (kernel/yaoscall.c, kernel/yaos_page.c, include/yaoscall): tables that the
    linker collects, and the table of services built from one.
  \<^item> \<^verbatim>\<open>Slub\<close> (module/mm/slub.c): the slab allocator. Its invariant holds after loading and is kept; a
    request returns an object that nobody uses.
  \<^item> \<^verbatim>\<open>Kmodule\<close> (kernel/module.c), \<^verbatim>\<open>Initcall\<close> (kernel/main.c): loading of modules, the order of
    the start functions.
  \<^item> \<^verbatim>\<open>Libfs\<close>, \<^verbatim>\<open>Libfs_Dir\<close> (tools/libfs.c): blocks, inodes and files of a disk image against files
    as sequences of bytes; path names and directories.
  \<^item> \<^verbatim>\<open>Opfs\<close>, \<^verbatim>\<open>Opfs_Safety\<close> (tools/opfs.c): the commands of the image tool. Every command leaves a
    well-formed image: each file has exactly the blocks its size needs and no block belongs to two places.

  \<^bold>\<open>How the parts meet.\<close> \<^verbatim>\<open>Kheap\<close> calls \<^verbatim>\<open>Phymem\<close>, \<^verbatim>\<open>Pgtable\<close> calls the heap for its
  tables, \<^verbatim>\<open>Vm\<close> calls both; \<^verbatim>\<open>Yaoscall\<close> makes the heap and the page allocator available as
  services, and \<^verbatim>\<open>Slub\<close> uses them from there and enters its own two. \<^verbatim>\<open>Timer\<close> and \<^verbatim>\<open>Tasklet\<close> get handlers
  as arguments. \<^verbatim>\<open>Kmodule\<close> is the last level of \<^verbatim>\<open>Initcall\<close>. \<^verbatim>\<open>Opfs\<close> works on the image of
  \<^verbatim>\<open>Libfs\<close> through the directories of \<^verbatim>\<open>Libfs_Dir\<close>.

  \<^bold>\<open>Missing header.\<close> The header include/fs.h of the image tools is not part of the sources. Sizes that the
  comment at the head of tools/libfs.c states are used; the rest (the layout of a directory entry,
  the numbers of the inode types) is an argument with named hypotheses, and the
  theorems about it have an instance with a concrete layout.

  \<^bold>\<open>Not modelled.\<close> The boot loader, the start of processors, descriptor tables, interrupt controllers,
  entry code in assembler, PCI, ACPI and the output devices act on hardware that the sources do not describe. Code
  patching (arch/x86_64/alternative.c) needs a model of the instruction set. The two-way search in
  libs/string/strstr.c for needles of more than four bytes is left out. The program that makes images
  (tools/mkfs.c) uses constants and members of the missing header that contradict the layout which tools/libfs.c
  describes. User programs and their library use system calls that the kernel does not provide. The library under extern/ is
  third-party code that the modelled parts do not call.
\<close>

end
